(* ===== verification/DF_Prelude.thy ===== *)
theory DF_Prelude
  imports Main "HOL-Library.Word" "HOL-Library.Monad_Syntax"
begin

unbundle bit_operations_syntax

text \<open>
  Shared vocabulary of the DistFuzz development: machine integer types, byte buffers with
  bounds-checked access (an access outside the buffer is \<^term>\<open>None\<close>, never an
  unspecified value), little-endian views of buffers as machine words, the option-monad loop
  \<open>foldM\<close>, C arithmetic helpers and decimal printing.  The lemmas are collected in
  \<open>buf_simps\<close> (buffer accesses) and \<open>word_views\<close> (byte/word views) or declared
  as simplification rules.
\<close>

named_theorems buf_simps \<open>bounds-checked buffer accesses\<close>
named_theorems word_views \<open>little-endian views of byte lists\<close>

section \<open>Machine integers\<close>

type_synonym u8 = "8 word"
type_synonym u16 = "16 word"
type_synonym u32 = "32 word"
type_synonym u64 = "64 word"

lemma u8_bit_less: "bit (x :: u8) k \<Longrightarrow> k < 8"
  using bit_imp_le_length [of x k] by simp

lemma u8_and_255 [simp]: "(x :: u8) AND 255 = x" "255 AND (x :: u8) = x"
proof -
  have "(255 :: u8) = - 1" by simp
  then show "(x :: u8) AND 255 = x" "255 AND (x :: u8) = x"
    by (metis and.right_neutral, metis and.left_neutral)
qed

lemma u8_eq_0_bits: "(w :: u8) = 0 \<longleftrightarrow> (\<forall>b. \<not> bit w b)"
  by (auto simp: bit_eq_iff dest: u8_bit_less)

text \<open>Truncation of an unsigned value to 32 bits and wrapping 64-bit subtraction, on \<^typ>\<open>nat\<close>.\<close>

definition to_u32 :: "nat \<Rightarrow> nat" where
  "to_u32 n = n mod 2 ^ 32"

definition usub32 :: "nat \<Rightarrow> nat \<Rightarrow> nat" where
  "usub32 a b = (a + 2 ^ 32 - b mod 2 ^ 32) mod 2 ^ 32"

definition usub64 :: "nat \<Rightarrow> nat \<Rightarrow> nat" where
  "usub64 a b = (a + 2 ^ 64 - b mod 2 ^ 64) mod 2 ^ 64"

lemma to_u32_small [simp]: "n < 2 ^ 32 \<Longrightarrow> to_u32 n = n"
  by (simp add: to_u32_def)

lemma to_u32_less: "to_u32 n < 2 ^ 32"
  by (simp add: to_u32_def)

lemma to_u32_le: "to_u32 n \<le> n"
  by (simp add: to_u32_def)

lemma usub64_le: "b \<le> a \<Longrightarrow> a < 2 ^ 64 \<Longrightarrow> usub64 a b = a - b"
proof -
  assume h: "b \<le> a" "a < 2 ^ 64"
  then have eq: "a + 2 ^ 64 - b mod 2 ^ 64 = (a - b) + 2 ^ 64"
    by simp
  have "a - b < 2 ^ 64" using h by simp
  then show ?thesis
    unfolding usub64_def eq by (simp only: mod_add_self2 mod_less)
qed

lemma usub32_le: "b \<le> a \<Longrightarrow> a < 2 ^ 32 \<Longrightarrow> usub32 a b = a - b"
proof -
  assume h: "b \<le> a" "a < 2 ^ 32"
  then have eq: "a + 2 ^ 32 - b mod 2 ^ 32 = (a - b) + 2 ^ 32"
    by simp
  have "a - b < 2 ^ 32" using h by simp
  then show ?thesis
    unfolding usub32_def eq by (simp only: mod_add_self2 mod_less)
qed

section \<open>Loops in the option monad\<close>

text \<open>Updates of a list by index; an index out of range changes nothing.\<close>

lemma nth_update_iff: "xs[i := v] ! j = (if j = i \<and> i < length xs then v else xs ! j)"
  by (cases "i < length xs") (auto simp: nth_list_update list_update_beyond)

lemma list_update_same [simp]: "xs ! i = v \<Longrightarrow> xs[i := v] = xs"
  by auto

lemma map_update_same:
  assumes "f x = f (xs ! k)"
  shows "map f (xs[k := x]) = map f xs"
  using assms by (auto intro!: nth_equalityI simp: nth_update_iff)

text \<open>
  A \<open>for\<close> loop whose body may leave the program (\<open>exit\<close>, an out-of-bounds
  access) runs a body over the list of its index values; \<^term>\<open>None\<close> is sticky.
\<close>

fun foldM :: "('a \<Rightarrow> 's \<Rightarrow> 's option) \<Rightarrow> 'a list \<Rightarrow> 's \<Rightarrow> 's option" where
  "foldM f [] s = Some s"
| "foldM f (x # xs) s = do { s' \<leftarrow> f x s; foldM f xs s' }"

text \<open>
  The loops of the fuzzing stages leave the whole function as soon as a step reports a failure
  (a value other than zero), and so does a sequence of stages.
\<close>

fun stageM :: "('a \<Rightarrow> 's \<Rightarrow> (nat \<times> 's) option) \<Rightarrow> 'a list \<Rightarrow> 's \<Rightarrow> (nat \<times> 's) option" where
  "stageM f [] s = Some (0, s)"
| "stageM f (x # xs) s = do { (r, s') \<leftarrow> f x s; if r \<noteq> 0 then Some (1, s') else stageM f xs s' }"

definition or_else :: "(nat \<times> 's) option \<Rightarrow> ('s \<Rightarrow> (nat \<times> 's) option) \<Rightarrow> (nat \<times> 's) option" where
  "or_else m k = do { (r, s) \<leftarrow> m; if r \<noteq> 0 then Some (1, s) else k s }"

lemma foldM_append: "foldM f (xs @ ys) s = do { s' \<leftarrow> foldM f xs s; foldM f ys s' }"
proof (induction xs arbitrary: s)
  case Nil
  then show ?case by simp
next
  case (Cons x xs)
  then show ?case by (cases "f x s") auto
qed

lemma foldM_invariant:
  assumes "foldM f xs s = Some t" and "P s"
    and "\<And>x s s'. x \<in> set xs \<Longrightarrow> P s \<Longrightarrow> f x s = Some s' \<Longrightarrow> P s'"
  shows "P t"
  using assms
proof (induction xs arbitrary: s)
  case Nil
  then show ?case by simp
next
  case (Cons x xs)
  from Cons.prems(1) obtain s' where s': "f x s = Some s'" and t: "foldM f xs s' = Some t"
    by (auto simp: Option.bind_eq_Some_conv)
  have "P s'"
    using Cons.prems(2,3) s' by (meson list.set_intros(1))
  with t show ?case
    by (rule Cons.IH) (meson Cons.prems(3) list.set_intros(2))
qed

lemma foldM_total:
  assumes "P s" and "\<And>x s. x \<in> set xs \<Longrightarrow> P s \<Longrightarrow> \<exists>s'. f x s = Some s' \<and> P s'"
  shows "\<exists>t. foldM f xs s = Some t \<and> P t"
  using assms
proof (induction xs arbitrary: s)
  case Nil
  then show ?case by simp
next
  case (Cons x xs)
  from Cons.prems obtain s' where s': "f x s = Some s'" "P s'"
    by (meson list.set_intros(1))
  have "\<exists>t. foldM f xs s' = Some t \<and> P t"
    using s'(2) by (rule Cons.IH) (meson Cons.prems(2) list.set_intros(2))
  with s' show ?case by simp
qed

lemma foldM_Some_fold: "foldM (\<lambda>x s. Some (f x s)) xs s = Some (fold f xs s)"
  by (induction xs arbitrary: s) auto

text \<open>An invariant of a plain \<^const>\<open>fold\<close>.\<close>

lemma fold_preserves:
  assumes "P s" and "\<And>x s. x \<in> set xs \<Longrightarrow> P s \<Longrightarrow> P (f x s)"
  shows "P (fold f xs s)"
  using assms by (induction xs arbitrary: s) auto

section \<open>Byte buffers\<close>

text \<open>
  A C buffer is the list of its allocated bytes.  \<open>mem_read p n b\<close> reads \<open>n\<close>
  bytes at offset \<open>p\<close>; \<open>mem_write p xs b\<close> stores \<open>xs\<close> at offset
  \<open>p\<close>.  Both are \<^term>\<open>None\<close> when they leave the allocation.  \<open>memmove\<close>
  reads the whole source before it writes, \<open>memset\<close> stores copies of one byte.
\<close>

definition mem_read :: "nat \<Rightarrow> nat \<Rightarrow> 'a list \<Rightarrow> 'a list option" where
  "mem_read p n b = (if p + n \<le> length b then Some (take n (drop p b)) else None)"

definition mem_write :: "nat \<Rightarrow> 'a list \<Rightarrow> 'a list \<Rightarrow> 'a list option" where
  "mem_write p xs b =
     (if p + length xs \<le> length b then Some (take p b @ xs @ drop (p + length xs) b) else None)"

definition memmove :: "nat \<Rightarrow> nat \<Rightarrow> nat \<Rightarrow> 'a list \<Rightarrow> 'a list option" where
  "memmove dst src n b = do { xs \<leftarrow> mem_read src n b; mem_write dst xs b }"

definition memset :: "nat \<Rightarrow> 'a \<Rightarrow> nat \<Rightarrow> 'a list \<Rightarrow> 'a list option" where
  "memset p v n b = mem_write p (replicate n v) b"

definition get_byte :: "nat \<Rightarrow> 'a list \<Rightarrow> 'a option" where
  "get_byte i b = (if i < length b then Some (b ! i) else None)"

definition set_byte :: "nat \<Rightarrow> 'a \<Rightarrow> 'a list \<Rightarrow> 'a list option" where
  "set_byte i v b = (if i < length b then Some (b[i := v]) else None)"

lemma mem_read_Some [buf_simps]: "p + n \<le> length b \<Longrightarrow> mem_read p n b = Some (take n (drop p b))"
  by (simp add: mem_read_def)

lemma mem_write_Some [buf_simps]:
  "p + length xs \<le> length b \<Longrightarrow> mem_write p xs b = Some (take p b @ xs @ drop (p + length xs) b)"
  by (simp add: mem_write_def)

lemma get_byte_Some [buf_simps]: "i < length b \<Longrightarrow> get_byte i b = Some (b ! i)"
  by (simp add: get_byte_def)

lemma set_byte_Some [buf_simps]: "i < length b \<Longrightarrow> set_byte i v b = Some (b[i := v])"
  by (simp add: set_byte_def)

lemma mem_write_length: "mem_write p xs b = Some b' \<Longrightarrow> length b' = length b"
  by (auto simp: mem_write_def split: if_splits)

lemma set_byte_length: "set_byte i v b = Some b' \<Longrightarrow> length b' = length b"
  by (auto simp: set_byte_def split: if_splits)

lemma mem_write_total: "p + length xs \<le> length b \<Longrightarrow> \<exists>b'. mem_write p xs b = Some b' \<and> length b' = length b"
  by (simp add: mem_write_def)

lemma memmove_total:
  "src + n \<le> length b \<Longrightarrow> dst + n \<le> length b \<Longrightarrow> \<exists>b'. memmove dst src n b = Some b' \<and> length b' = length b"
  by (simp add: memmove_def buf_simps)

lemma memset_total: "p + n \<le> length b \<Longrightarrow> \<exists>b'. memset p v n b = Some b' \<and> length b' = length b"
  by (simp add: memset_def buf_simps)

lemma set_byte_total: "i < length b \<Longrightarrow> \<exists>b'. set_byte i v b = Some b' \<and> length b' = length b"
  by (simp add: set_byte_def)

text \<open>Writing back what was read restores the buffer.\<close>

lemma mem_write_restore:
  assumes "mem_read p n b = Some orig" and "mem_write p xs b = Some b'" and "length xs = n"
  shows "mem_write p orig b' = Some b"
proof -
  from assms have le: "p + n \<le> length b" and orig: "orig = take n (drop p b)"
    and b': "b' = take p b @ xs @ drop (p + n) b"
    by (auto simp: mem_read_def mem_write_def split: if_splits)
  have len: "length orig = n" and len': "length b' = length b"
    using le assms(3) by (auto simp: orig b')
  have "take p b' = take p b" and "drop (p + n) b' = drop (p + n) b"
    using le assms(3) by (auto simp: b')
  then have "mem_write p orig b' = Some (take p b @ orig @ drop (p + n) b)"
    using le len len' by (simp add: mem_write_def)
  also have "take p b @ orig @ drop (p + n) b = b"
    unfolding orig by (metis append_take_drop_id drop_drop add.commute)
  finally show ?thesis .
qed

lemma set_byte_restore: "i < length b \<Longrightarrow> (b[i := v])[i := b ! i] = b"
  by simp

section \<open>Little-endian views\<close>

text \<open>
  The code reads a run of bytes through a \<open>u16*\<close>, \<open>u32*\<close> or
  \<open>u64*\<close> pointer; on the supported targets the first byte is the least significant.
\<close>

fun le_word :: "u8 list \<Rightarrow> 'a::len word" where
  "le_word [] = 0"
| "le_word (b # bs) = ucast b OR push_bit 8 (le_word bs)"

definition le_bytes :: "nat \<Rightarrow> 'a::len word \<Rightarrow> u8 list" where
  "le_bytes n w = map (\<lambda>i. ucast (drop_bit (8 * i) w)) [0..<n]"

declare le_word.simps [simp del]

lemma length_le_bytes [simp]: "length (le_bytes n w) = n"
  by (simp add: le_bytes_def)

lemma bit_le_word:
  "bit (le_word bs :: 'a::len word) k \<longleftrightarrow>
     k < LENGTH('a) \<and> k div 8 < length bs \<and> bit (bs ! (k div 8)) (k mod 8)"
proof (induction bs arbitrary: k)
  case Nil
  then show ?case by (simp add: le_word.simps)
next
  case (Cons b bs)
  show ?case
  proof (cases "k < 8")
    case True
    then show ?thesis
      by (auto simp: le_word.simps bit_or_iff bit_push_bit_iff bit_ucast_iff not_le)
  next
    case False
    then have "k div 8 = Suc ((k - 8) div 8)" and "k mod 8 = (k - 8) mod 8"
      by (simp_all add: le_div_geq le_mod_geq)
    with False Cons.IH [of "k - 8"] show ?thesis
      by (auto simp: le_word.simps bit_or_iff bit_push_bit_iff bit_ucast_iff dest: bit_imp_le_length)
  qed
qed

lemma le_bytes_le_word [word_views]:
  assumes "8 * length bs \<le> LENGTH('a::len)" and "n = length bs"
  shows "le_bytes n (le_word bs :: 'a word) = bs"
proof (rule nth_equalityI)
  show "length (le_bytes n (le_word bs :: 'a word)) = length bs"
    using assms(2) by simp
next
  fix i
  assume "i < length (le_bytes n (le_word bs :: 'a word))"
  then have i: "i < length bs" using assms(2) by simp
  have "bit (le_bytes n (le_word bs :: 'a word) ! i) k = bit (bs ! i) k" for k
  proof (cases "k < 8")
    case True
    then have "(8 * i + k) div 8 = i" and "(8 * i + k) mod 8 = k" and "8 * i + k < LENGTH('a)"
      using i assms(1) by auto
    with True i assms(2) show ?thesis
      by (simp add: le_bytes_def bit_ucast_iff bit_drop_bit_eq bit_le_word)
  next
    case False
    then show ?thesis
      using bit_imp_le_length [of "bs ! i" k]
        bit_imp_le_length [of "le_bytes n (le_word bs :: 'a word) ! i" k] by auto
  qed
  then show "le_bytes n (le_word bs :: 'a word) ! i = bs ! i"
    by (simp add: bit_eq_iff)
qed

lemma le_word_le_bytes:
  assumes "LENGTH('a::len) = 8 * n"
  shows "le_word (le_bytes n (w :: 'a word)) = w"
proof (rule bit_word_eqI)
  fix k assume k: "k < LENGTH('a)"
  then have "k div 8 < n" "8 * (k div 8) + k mod 8 = k" using assms by (simp_all add: less_mult_imp_div_less)
  then show "bit (le_word (le_bytes n w) :: 'a word) k = bit w k"
    using k by (simp add: bit_le_word le_bytes_def bit_ucast_iff bit_drop_bit_eq)
qed

lemma le_word_eq_0 [word_views]:
  assumes "8 * length bs \<le> LENGTH('a::len)"
  shows "(le_word bs :: 'a word) = 0 \<longleftrightarrow> (\<forall>b \<in> set bs. b = 0)"
proof
  assume z: "(le_word bs :: 'a word) = 0"
  have "bs = le_bytes (length bs) (le_word bs :: 'a word)"
    using assms by (simp add: le_bytes_le_word)
  also have "\<dots> = map (\<lambda>_. 0) [0..<length bs]"
    by (simp add: z le_bytes_def)
  finally have "set bs \<subseteq> {0}"
    by (metis (no_types, lifting) imageE set_map singletonI subsetI)
  then show "\<forall>b \<in> set bs. b = 0" by blast
next
  assume "\<forall>b \<in> set bs. b = 0"
  then show "(le_word bs :: 'a word) = 0"
    by (induction bs) (auto simp: le_word.simps)
qed

lemma le_word_and [word_views]:
  assumes "length xs = length ys"
  shows "le_word xs AND le_word ys = (le_word (map2 (AND) xs ys) :: 'a::len word)"
  using assms by (intro bit_eqI) (auto simp: bit_le_word bit_and_iff)

lemma le_word_and_not [word_views]:
  assumes "length xs = length ys" and "8 * length xs = LENGTH('a::len)"
  shows "le_word ys AND NOT (le_word xs) = (le_word (map2 (\<lambda>x y. y AND NOT x) xs ys) :: 'a word)"
proof (rule bit_eqI)
  fix k
  assume "possible_bit TYPE('a word) k"
  then have "k < LENGTH('a)" by simp
  then have "k div 8 < length xs" and "k mod 8 < 8"
    using assms(2) by auto
  with assms \<open>k < LENGTH('a)\<close>
  show "bit (le_word ys AND NOT (le_word xs) :: 'a word) k
      = bit (le_word (map2 (\<lambda>x y. y AND NOT x) xs ys) :: 'a word) k"
    by (simp add: bit_le_word bit_and_iff bit_not_iff)
qed

section \<open>Partial correctness of fallible computations\<close>

text \<open>
  \<open>ensures m P\<close>: if the computation \<open>m\<close> returns, its result satisfies \<open>P\<close>.  The
  rules follow the structure of a computation, so that a proof about a composed operation
  consists of the facts about its parts.
\<close>

definition ensures :: "'a option \<Rightarrow> ('a \<Rightarrow> bool) \<Rightarrow> bool" where
  "ensures m P \<longleftrightarrow> (\<forall>x. m = Some x \<longrightarrow> P x)"

named_theorems ens_rules \<open>rules for ensures\<close>

lemma ensuresD: "ensures m P \<Longrightarrow> m = Some x \<Longrightarrow> P x"
  by (simp add: ensures_def)

lemma ensuresI: "(\<And>x. m = Some x \<Longrightarrow> P x) \<Longrightarrow> ensures m P"
  by (simp add: ensures_def)

lemma ensures_weaken: "ensures m P \<Longrightarrow> (\<And>x. P x \<Longrightarrow> Q x) \<Longrightarrow> ensures m Q"
  by (simp add: ensures_def)

lemma ensures_bind:
  "ensures m P \<Longrightarrow> (\<And>x. P x \<Longrightarrow> ensures (f x) Q) \<Longrightarrow> ensures (m \<bind> f) Q"
  by (auto simp: ensures_def bind_eq_Some_conv)

lemma ensures_bind_pair:
  "ensures m (\<lambda>(a, s). P a s) \<Longrightarrow> (\<And>a s. P a s \<Longrightarrow> ensures (f (a, s)) Q) \<Longrightarrow> ensures (m \<bind> f) Q"
  by (auto simp: ensures_def bind_eq_Some_conv)

lemma ensures_Some [ens_rules]: "P x \<Longrightarrow> ensures (Some x) P"
  by (simp add: ensures_def)

lemma ensures_None [ens_rules]: "ensures None P"
  by (simp add: ensures_def)

lemma ensures_if [ens_rules]:
  "(c \<Longrightarrow> ensures m P) \<Longrightarrow> (\<not> c \<Longrightarrow> ensures m' P) \<Longrightarrow> ensures (if c then m else m') P"
  by simp

lemma ensures_case_option [ens_rules]:
  "(x = None \<Longrightarrow> ensures m P) \<Longrightarrow> (\<And>y. x = Some y \<Longrightarrow> ensures (f y) P) \<Longrightarrow>
   ensures (case x of None \<Rightarrow> m | Some y \<Rightarrow> f y) P"
  by (cases x) simp_all

lemma ensures_Let [ens_rules]: "ensures (f t) P \<Longrightarrow> ensures (Let t f) P"
  by simp

lemma ensures_case_prod [ens_rules]: "ensures (f a b) P \<Longrightarrow> ensures (case (a, b) of (x, y) \<Rightarrow> f x y) P"
  by simp

lemma ensures_True: "ensures m (\<lambda>_. True)"
  by (simp add: ensures_def)

lemmas ens_binds = ensures_bind_pair ensures_bind

lemma ensures_foldM:
  assumes "\<And>x s. x \<in> set xs \<Longrightarrow> I s \<Longrightarrow> ensures (f x s) I" and "I s"
  shows "ensures (foldM f xs s) I"
  using assms by (induction xs arbitrary: s) (auto simp: ensures_def bind_eq_Some_conv)

lemma ensures_stageM:
  assumes "\<And>x s. x \<in> set xs \<Longrightarrow> I s \<Longrightarrow> ensures (f x s) (\<lambda>(r, s'). r = 0 \<and> I s')" and "I s"
  shows "ensures (stageM f xs s) (\<lambda>(r, s'). r = 0 \<and> I s')"
  using assms
proof (induction xs arbitrary: s)
  case Nil
  then show ?case by (simp add: ensures_def)
next
  case (Cons x xs)
  have "ensures (stageM f xs s') (\<lambda>(r, s'). r = 0 \<and> I s')" if "I s'" for s'
    using Cons.IH [OF _ that] Cons.prems(1) by simp
  then show ?case
    unfolding stageM.simps by (intro ensures_bind_pair [OF Cons.prems(1) [OF _ Cons.prems(2)]]) simp_all
qed

lemma ensures_or_else:
  assumes "ensures m (\<lambda>(r, s). r = 0 \<and> P s)" and "\<And>s. P s \<Longrightarrow> ensures (k s) Q"
  shows "ensures (or_else m k) Q"
  unfolding or_else_def by (rule ensures_bind_pair [OF assms(1)]) (use assms(2) in simp)

text \<open>The same for loops whose state is a pair.\<close>

lemma ensures_stageM_pair:
  assumes "\<And>x a b. x \<in> set xs \<Longrightarrow> I a b \<Longrightarrow> ensures (f x (a, b)) (\<lambda>(r, a', b'). r = 0 \<and> I a' b')" and "I a b"
  shows "ensures (stageM f xs (a, b)) (\<lambda>(r, a', b'). r = 0 \<and> I a' b')"
proof -
  have "ensures (stageM f xs (a, b)) (\<lambda>(r, st). r = 0 \<and> case_prod I st)"
  proof (rule ensures_stageM)
    fix x and st :: "'b \<times> 'c"
    assume x: "x \<in> set xs" and "case_prod I st"
    then obtain a b where st: "st = (a, b)" "I a b" by (cases st) simp
    show "ensures (f x st) (\<lambda>(r, st). r = 0 \<and> case_prod I st)"
      unfolding st(1) by (rule ensures_weaken [OF assms(1) [OF x st(2)]]) auto
  qed (simp add: assms(2))
  then show ?thesis by (rule ensures_weaken) auto
qed

lemma ensures_bind_triple:
  "ensures m (\<lambda>(r, a, b). P r a b) \<Longrightarrow> (\<And>r a b. P r a b \<Longrightarrow> ensures (f (r, a, b)) Q) \<Longrightarrow> ensures (m \<bind> f) Q"
  by (auto simp: ensures_def bind_eq_Some_conv)

end
