(* ===== verification/Coverage_Map.thy ===== *)
theory Coverage_Map
  imports DF_Prelude
begin

text \<open>
  The coverage maps of the fuzzer: hit-count classes (\<open>init_count_class\<close>,
  \<open>classify_counts\<close>), novelty detection (\<open>has_new_bits\<close>), byte counting,
  trace hashing and the merge of coverage between fuzzer instances
  (\<open>fuzz/fuzzer/old/TestRunning.cpp\<close>, \<open>FuzzOne.cpp\<close>,
  \<open>QueueCulling.cpp\<close>, \<open>Synchronize.cpp\<close>).  A map is the list of its
  bytes; \<open>MAP_SIZE\<close> (2 to the 23 in \<open>constants.h\<close>) is the length of the
  list, so every statement holds at the deployed size and can be evaluated on small maps.
  The word-at-a-time loops of the code are kept and proved equal to byte-wise descriptions.
\<close>

section \<open>Hit-count classes\<close>

definition MAP_SIZE :: nat where
  "MAP_SIZE = 2 ^ 23"

definition count_class_lookup8 :: "u8 \<Rightarrow> u8" where
  "count_class_lookup8 i =
     (if i = 0 then 0 else if i = 1 then 1 else if i = 2 then 2 else if i = 3 then 4
      else if i < 8 then 8 else if i < 16 then 16 else if i < 32 then 32
      else if i < 128 then 64 else 128)"

definition count_class_lookup16 :: "u16 \<Rightarrow> u16" where
  "count_class_lookup16 v =
     push_bit 8 (ucast (count_class_lookup8 (ucast (drop_bit 8 v))))
       OR ucast (count_class_lookup8 (ucast v))"

text \<open>One \<open>u64\<close> cell of the map, seen as four \<open>u16\<close>.\<close>

definition classify_cell :: "u8 list \<Rightarrow> u8 list" where
  "classify_cell cell =
     (if (le_word cell :: u64) \<noteq> 0
      then le_bytes 2 (count_class_lookup16 (le_word (take 2 cell)))
         @ le_bytes 2 (count_class_lookup16 (le_word (take 2 (drop 2 cell))))
         @ le_bytes 2 (count_class_lookup16 (le_word (take 2 (drop 4 cell))))
         @ le_bytes 2 (count_class_lookup16 (le_word (take 2 (drop 6 cell))))
      else cell)"

fun classify_loop :: "nat \<Rightarrow> u8 list \<Rightarrow> u8 list" where
  "classify_loop 0 mem = mem"
| "classify_loop (Suc i) mem = classify_cell (take 8 mem) @ classify_loop i (drop 8 mem)"

definition classify_counts :: "u8 list \<Rightarrow> u8 list" where
  "classify_counts mem = classify_loop (length mem div 8) mem"

section \<open>Novelty detection\<close>

definition cell_has_fresh_byte :: "u8 list \<Rightarrow> u8 list \<Rightarrow> bool" where
  "cell_has_fresh_byte cur vir = list_ex (\<lambda>(c, v). c \<noteq> 0 \<and> v = 0xff) (zip cur vir)"

fun has_new_bits_loop :: "nat \<Rightarrow> u8 list \<Rightarrow> u8 list \<Rightarrow> nat \<Rightarrow> nat \<times> u8 list" where
  "has_new_bits_loop 0 current virgin ret = (ret, virgin)"
| "has_new_bits_loop (Suc i) current virgin ret =
     (let cur = take 8 current; vir = take 8 virgin;
          c = (le_word cur :: u64); v = (le_word vir :: u64)
      in if c \<noteq> 0 \<and> c AND v \<noteq> 0
         then let ret' = (if ret < 2 then (if cell_has_fresh_byte cur vir then 2 else 1) else ret);
                  (r, rest) = has_new_bits_loop i (drop 8 current) (drop 8 virgin) ret'
              in (r, le_bytes 8 (v AND NOT c) @ rest)
         else let (r, rest) = has_new_bits_loop i (drop 8 current) (drop 8 virgin) ret
              in (r, vir @ rest))"

definition has_new_bits :: "u8 list \<Rightarrow> u8 list \<Rightarrow> nat \<times> u8 list" where
  "has_new_bits current virgin = has_new_bits_loop (length current div 8) current virgin 0"

section \<open>Counting, minimising, hashing and merging\<close>

definition count_bytes_word :: "u32 \<Rightarrow> nat" where
  "count_bytes_word v =
     (if v = 0 then 0
      else of_bool (v AND 0xff \<noteq> 0) + of_bool (v AND 0xff00 \<noteq> 0)
         + of_bool (v AND 0xff0000 \<noteq> 0) + of_bool (v AND 0xff000000 \<noteq> 0))"

fun count_bytes_loop :: "nat \<Rightarrow> u8 list \<Rightarrow> nat \<Rightarrow> nat" where
  "count_bytes_loop 0 mem ret = ret"
| "count_bytes_loop (Suc i) mem ret =
     count_bytes_loop i (drop 4 mem) (ret + count_bytes_word (le_word (take 4 mem)))"

definition CountBytes :: "u8 list \<Rightarrow> nat" where
  "CountBytes mem = count_bytes_loop (length mem div 4) mem 0"

definition MinimizeBit :: "u8 list \<Rightarrow> bool list" where
  "MinimizeBit mem = map (\<lambda>b. b \<noteq> 0) mem"

definition ShowCoverage :: "u8 list \<Rightarrow> nat" where
  "ShowCoverage virgin_map = length (filter (\<lambda>b. b \<noteq> 255) virgin_map)"

definition ROL64 :: "u64 \<Rightarrow> nat \<Rightarrow> u64" where
  "ROL64 x r = push_bit r x OR drop_bit (64 - r) x"

fun hash32_loop :: "nat \<Rightarrow> u8 list \<Rightarrow> u64 \<Rightarrow> u64" where
  "hash32_loop 0 data h1 = h1"
| "hash32_loop (Suc len) data h1 =
     (let k1 = le_word (take 8 data) * 0x87c37b91114253d5;
          k1 = ROL64 k1 31 * 0x4cf5ad432745937f;
          h1 = ROL64 (h1 XOR k1) 27 * 5 + 0x52dce729
      in hash32_loop len (drop 8 data) h1)"

definition hash32 :: "u8 list \<Rightarrow> u32 \<Rightarrow> u32 \<Rightarrow> u32" where
  "hash32 key len seed =
     (let h1 = hash32_loop (unat (drop_bit 3 len)) key (ucast (seed XOR len));
          h1 = (h1 XOR drop_bit 33 h1) * 0xff51afd7ed558ccd;
          h1 = (h1 XOR drop_bit 33 h1) * 0xc4ceb9fe1a85ec53
      in ucast (h1 XOR drop_bit 33 h1))"

definition HASH_CONST :: u32 where
  "HASH_CONST = 0xa5b35705"

text \<open>Checksum of a whole trace map, \<open>hash32(globalTraceBit, MAP_SIZE, HASH_CONST)\<close>.\<close>

definition trace_cksum :: "u8 list \<Rightarrow> u32" where
  "trace_cksum mem = hash32 mem (of_nat (length mem)) HASH_CONST"

definition sync_coverage :: "u8 list \<Rightarrow> u8 list \<Rightarrow> nat \<Rightarrow> (u8 list \<times> u8 list) option" where
  "sync_coverage local_coverage global_coverage len =
     do {
       global_coverage \<leftarrow>
         foldM (\<lambda>i g. do { x \<leftarrow> get_byte i g; y \<leftarrow> get_byte i local_coverage;
                           set_byte i (x AND y) g }) [0..<len] global_coverage;
       src \<leftarrow> mem_read 0 len global_coverage;
       local_coverage \<leftarrow> mem_write 0 src local_coverage;
       Some (local_coverage, global_coverage)
     }"

section \<open>Byte-wise descriptions\<close>

definition virgin_after :: "u8 list \<Rightarrow> u8 list \<Rightarrow> u8 list" where
  "virgin_after cur vir = map2 (\<lambda>c v. v AND NOT c) cur vir"

definition novelty :: "u8 list \<Rightarrow> u8 list \<Rightarrow> nat" where
  "novelty cur vir =
     (if \<exists>i < length cur. cur ! i \<noteq> 0 \<and> vir ! i = 0xff then 2
      else if \<exists>i < length cur. cur ! i AND vir ! i \<noteq> 0 then 1 else 0)"

section \<open>The word loops compute the byte-wise descriptions\<close>

lemma ucast_le_word_pair:
  "(ucast (le_word [a, b] :: u16) :: u8) = a"
  "(ucast (drop_bit 8 (le_word [a, b] :: u16)) :: u8) = b"
proof -
  show "(ucast (le_word [a, b] :: u16) :: u8) = a"
    by (rule bit_eqI) (auto simp: bit_ucast_iff bit_le_word dest: u8_bit_less)
  show "(ucast (drop_bit 8 (le_word [a, b] :: u16)) :: u8) = b"
    by (rule bit_eqI)
      (auto simp: bit_ucast_iff bit_drop_bit_eq bit_le_word le_div_geq le_mod_geq dest: u8_bit_less)
qed

lemma lookup16_pair:
  "le_bytes 2 (count_class_lookup16 (le_word [a, b])) = [count_class_lookup8 a, count_class_lookup8 b]"
proof -
  have "count_class_lookup16 (le_word [a, b]) = le_word [count_class_lookup8 a, count_class_lookup8 b]"
    unfolding count_class_lookup16_def ucast_le_word_pair by (simp add: le_word.simps ac_simps)
  then show ?thesis
    by (simp add: word_views)
qed

lemma classify_cell_eq:
  assumes "length cell = 8"
  shows "classify_cell cell = map count_class_lookup8 cell"
proof (cases "(le_word cell :: u64) = 0")
  case True
  with assms have "\<forall>b \<in> set cell. b = 0"
    by (simp add: word_views)
  then have "map count_class_lookup8 cell = cell"
    by (intro map_idI) (auto simp: count_class_lookup8_def)
  with True show ?thesis
    by (simp add: classify_cell_def)
next
  case False
  obtain b0 b1 b2 b3 b4 b5 b6 b7 where cell: "cell = [b0, b1, b2, b3, b4, b5, b6, b7]"
    using assms by (auto simp: numeral_eq_Suc length_Suc_conv)
  show ?thesis
    using False by (simp add: classify_cell_def cell lookup16_pair)
qed

lemma classify_loop_eq:
  "8 * i \<le> length mem \<Longrightarrow>
     classify_loop i mem = map count_class_lookup8 (take (8 * i) mem) @ drop (8 * i) mem"
proof (induction i arbitrary: mem)
  case 0
  then show ?case by simp
next
  case (Suc i)
  then have "8 * i \<le> length (drop 8 mem)" by simp
  from Suc.IH [OF this] Suc.prems show ?case
    by (simp add: classify_cell_eq take_add add.commute)
qed

lemma classify_counts_map:
  "8 dvd length mem \<Longrightarrow> classify_counts mem = map count_class_lookup8 mem"
  by (simp add: classify_counts_def classify_loop_eq)

lemma length_classify_counts [simp]: "length (classify_counts mem) = length mem"
  by (simp add: classify_counts_def classify_loop_eq)

text \<open>A classified count is zero exactly when the count is.\<close>

lemma count_class_lookup8_0_iff: "count_class_lookup8 b = 0 \<longleftrightarrow> b = 0"
  by (simp add: count_class_lookup8_def)

lemma MinimizeBit_classify:
  "8 dvd length mem \<Longrightarrow> MinimizeBit (classify_counts mem) = MinimizeBit mem"
  by (simp add: MinimizeBit_def classify_counts_map count_class_lookup8_0_iff)

lemma novelty_append:
  assumes "length xs = length us"
  shows "novelty (xs @ ys) (us @ vs) = max (novelty xs us) (novelty ys vs)"
proof -
  have split: "(\<exists>i < length (xs @ ys). P ((xs @ ys) ! i) ((us @ vs) ! i)) \<longleftrightarrow>
      (\<exists>i < length xs. P (xs ! i) (us ! i)) \<or> (\<exists>i < length ys. P (ys ! i) (vs ! i))" for P
  proof
    assume "\<exists>i < length (xs @ ys). P ((xs @ ys) ! i) ((us @ vs) ! i)"
    then obtain i where i: "i < length xs + length ys" "P ((xs @ ys) ! i) ((us @ vs) ! i)"
      by auto
    show "(\<exists>i < length xs. P (xs ! i) (us ! i)) \<or> (\<exists>i < length ys. P (ys ! i) (vs ! i))"
    proof (cases "i < length xs")
      case True
      with i assms show ?thesis by (auto simp: nth_append)
    next
      case False
      with i assms have "i - length xs < length ys" "P (ys ! (i - length xs)) (vs ! (i - length xs))"
        by (auto simp: nth_append)
      then show ?thesis by blast
    qed
  next
    assume "(\<exists>i < length xs. P (xs ! i) (us ! i)) \<or> (\<exists>i < length ys. P (ys ! i) (vs ! i))"
    then show "\<exists>i < length (xs @ ys). P ((xs @ ys) ! i) ((us @ vs) ! i)"
    proof
      assume "\<exists>i < length xs. P (xs ! i) (us ! i)"
      then obtain i where "i < length xs" "P (xs ! i) (us ! i)" by blast
      with assms show ?thesis
        by (intro exI [of _ i]) (auto simp: nth_append)
    next
      assume "\<exists>i < length ys. P (ys ! i) (vs ! i)"
      then obtain i where "i < length ys" "P (ys ! i) (vs ! i)" by blast
      with assms show ?thesis
        by (intro exI [of _ "length xs + i"]) (auto simp: nth_append)
    qed
  qed
  show ?thesis
    unfolding novelty_def split [of "\<lambda>c v. c \<noteq> 0 \<and> v = 0xff"] split [of "\<lambda>c v. c AND v \<noteq> 0"]
    by auto
qed

lemma cell_test_iff:
  assumes "length cur = 8" and "length vir = 8"
  shows "(le_word cur :: u64) \<noteq> 0 \<and> (le_word cur :: u64) AND le_word vir \<noteq> 0 \<longleftrightarrow> novelty cur vir \<noteq> 0"
proof -
  have "(le_word cur :: u64) AND le_word vir \<noteq> 0 \<longleftrightarrow> (\<exists>i < 8. cur ! i AND vir ! i \<noteq> 0)"
    using assms by (simp add: word_views) (auto simp: set_zip)
  moreover have "\<exists>i < 8. cur ! i AND vir ! i \<noteq> 0" if "i < 8" "cur ! i \<noteq> 0" "vir ! i = 0xff" for i
  proof -
    from that have "cur ! i AND vir ! i = cur ! i" by simp
    with that show ?thesis by metis
  qed
  moreover have "(le_word cur :: u64) AND le_word vir \<noteq> 0 \<Longrightarrow> (le_word cur :: u64) \<noteq> 0"
    by auto
  ultimately show ?thesis
    using assms by (auto simp: novelty_def)
qed

lemma fresh_cell_novelty:
  assumes "length cur = 8" and "length vir = 8" and "novelty cur vir \<noteq> 0"
  shows "(if cell_has_fresh_byte cur vir then 2 else 1) = novelty cur vir"
  using assms
  by (auto simp: cell_has_fresh_byte_def novelty_def list_ex_iff set_zip split: if_splits)

lemma novelty_le_2: "novelty cur vir \<le> 2"
  by (simp add: novelty_def)

lemma novelty_0_virgin_after:
  assumes "length cur = length vir" and "novelty cur vir = 0"
  shows "virgin_after cur vir = vir"
proof (rule nth_equalityI)
  show "length (virgin_after cur vir) = length vir"
    using assms by (simp add: virgin_after_def)
  fix i
  assume "i < length (virgin_after cur vir)"
  then have i: "i < length cur" "i < length vir"
    using assms by (auto simp: virgin_after_def)
  with assms have "cur ! i AND vir ! i = 0"
    by (auto simp: novelty_def split: if_splits)
  then have "bit (cur ! i AND vir ! i) n = bit (0 :: u8) n" for n
    by simp
  then have "vir ! i AND NOT (cur ! i) = vir ! i"
    by (intro bit_eqI) (auto simp: bit_and_iff bit_not_iff)
  with i show "virgin_after cur vir ! i = vir ! i"
    by (simp add: virgin_after_def)
qed

lemma virgin_after_append:
  "length xs = length us \<Longrightarrow>
     virgin_after (xs @ ys) (us @ vs) = virgin_after xs us @ virgin_after ys vs"
  by (simp add: virgin_after_def)

lemma has_new_bits_loop_eq:
  "length current = 8 * i \<Longrightarrow> length virgin = 8 * i \<Longrightarrow> ret \<le> 2 \<Longrightarrow>
     has_new_bits_loop i current virgin ret =
       (max ret (novelty current virgin), virgin_after current virgin)"
proof (induction i arbitrary: current virgin ret)
  case 0
  then show ?case by (simp add: novelty_def virgin_after_def)
next
  case (Suc i)
  define cur vir where "cur = take 8 current" and "vir = take 8 virgin"
  have lens: "length cur = 8" "length vir = 8"
    using Suc.prems by (auto simp: cur_def vir_def)
  have IH: "has_new_bits_loop i (drop 8 current) (drop 8 virgin) r =
      (max r (novelty (drop 8 current) (drop 8 virgin)), virgin_after (drop 8 current) (drop 8 virgin))"
    if "r \<le> 2" for r
    using Suc.prems that by (intro Suc.IH) auto
  have nov: "novelty current virgin = max (novelty cur vir) (novelty (drop 8 current) (drop 8 virgin))"
    using novelty_append [of cur vir "drop 8 current" "drop 8 virgin"] lens
    by (simp add: cur_def vir_def)
  have vir_after: "virgin_after current virgin
      = virgin_after cur vir @ virgin_after (drop 8 current) (drop 8 virgin)"
    using virgin_after_append [of cur vir "drop 8 current" "drop 8 virgin"] lens
    by (simp add: cur_def vir_def)
  have step: "has_new_bits_loop (Suc i) current virgin ret =
      (if novelty cur vir \<noteq> 0
       then (let ret' = (if ret < 2 then (if cell_has_fresh_byte cur vir then 2 else 1) else ret);
                 (r, rest) = has_new_bits_loop i (drop 8 current) (drop 8 virgin) ret'
             in (r, le_bytes 8 ((le_word vir :: u64) AND NOT (le_word cur)) @ rest))
       else (let (r, rest) = has_new_bits_loop i (drop 8 current) (drop 8 virgin) ret
             in (r, vir @ rest)))"
    unfolding has_new_bits_loop.simps Let_def cur_def [symmetric] vir_def [symmetric]
      cell_test_iff [OF lens] by (rule refl)
  show ?case
  proof (cases "novelty cur vir = 0")
    case True
    then have "virgin_after cur vir = vir"
      using lens by (simp add: novelty_0_virgin_after)
    with True nov vir_after IH [of ret] Suc.prems(3) show ?thesis
      unfolding step by simp
  next
    case False
    have cell: "le_bytes 8 ((le_word vir :: u64) AND NOT (le_word cur)) = virgin_after cur vir"
      using lens by (simp add: word_views virgin_after_def)
    have ret': "(if ret < 2 then (if cell_has_fresh_byte cur vir then 2 else 1) else ret)
        = max ret (novelty cur vir)"
      using fresh_cell_novelty [OF lens False] Suc.prems(3) novelty_le_2 [of cur vir] False by auto
    have "max ret (novelty cur vir) \<le> 2"
      using Suc.prems(3) novelty_le_2 [of cur vir] by simp
    then show ?thesis
      unfolding step ret' Let_def using False cell nov vir_after IH [of "max ret (novelty cur vir)"]
      by (simp add: max.assoc)
  qed
qed

lemma has_new_bits_bytewise:
  assumes "8 dvd length current" and "length virgin = length current"
  shows "has_new_bits current virgin = (novelty current virgin, virgin_after current virgin)"
  using assms by (auto simp: has_new_bits_def has_new_bits_loop_eq)

text \<open>
  Counting the bytes of a trace four at a time counts the non-zero bytes.
\<close>

lemma count_bytes_word_eq:
  "count_bytes_word (le_word [a, b, c, d])
     = of_bool (a \<noteq> 0) + of_bool (b \<noteq> 0) + of_bool (c \<noteq> 0) + of_bool (d \<noteq> 0)"
proof -
  have m: "(0xff :: u32) = le_word [0xff, 0, 0, 0]" "(0xff00 :: u32) = le_word [0, 0xff, 0, 0]"
    "(0xff0000 :: u32) = le_word [0, 0, 0xff, 0]" "(0xff000000 :: u32) = le_word [0, 0, 0, 0xff]"
    by (simp_all add: le_word.simps)
  show ?thesis
    unfolding count_bytes_word_def m by (auto simp: word_views)
qed

lemma count_bytes_loop_eq:
  "length mem = 4 * i \<Longrightarrow> count_bytes_loop i mem ret = ret + length (filter (\<lambda>b. b \<noteq> 0) mem)"
proof (induction i arbitrary: mem ret)
  case 0
  then show ?case by simp
next
  case (Suc i)
  then obtain a b c d rest where mem: "mem = a # b # c # d # rest" and "length rest = 4 * i"
    by (auto simp: numeral_eq_Suc length_Suc_conv)
  with Suc.IH [of rest] show ?case
    by (simp add: count_bytes_word_eq)
qed

lemma CountBytes_eq: "4 dvd length mem \<Longrightarrow> CountBytes mem = length (filter (\<lambda>b. b \<noteq> 0) mem)"
  by (auto simp: CountBytes_def count_bytes_loop_eq)

lemma foldM_pointwise:
  "n \<le> length g \<Longrightarrow> n \<le> length l \<Longrightarrow>
     foldM (\<lambda>i g. do { x \<leftarrow> get_byte i g; y \<leftarrow> get_byte i l; set_byte i (f x y) g }) [0..<n] g
       = Some (map2 f (take n g) (take n l) @ drop n g)"
proof (induction n)
  case 0
  then show ?case by simp
next
  case (Suc n)
  let ?g = "map2 f (take n g) (take n l) @ drop n g"
  have "?g ! n = g ! n" and "length ?g = length g"
    using Suc.prems by (auto simp: nth_append)
  then have "foldM (\<lambda>i g. do { x \<leftarrow> get_byte i g; y \<leftarrow> get_byte i l; set_byte i (f x y) g }) [n] ?g
      = Some (?g[n := f (g ! n) (l ! n)])"
    using Suc.prems by (simp add: buf_simps)
  also have "?g[n := f (g ! n) (l ! n)]
      = map2 f (take (Suc n) g) (take (Suc n) l) @ drop (Suc n) g"
    using Suc.prems by (simp add: list_update_append take_Suc_conv_app_nth Cons_nth_drop_Suc [symmetric])
  finally show ?case
    using Suc by (simp add: foldM_append)
qed

lemma sync_coverage_eq:
  assumes "length local_coverage = len" and "length global_coverage = len"
  shows "sync_coverage local_coverage global_coverage len =
    Some (map2 (AND) global_coverage local_coverage, map2 (AND) global_coverage local_coverage)"
  using assms by (simp add: sync_coverage_def foldM_pointwise buf_simps)

section \<open>Coverage points\<close>

text \<open>
  A coverage point is a pair of a map index and a hit-count bit.  A virgin map remembers the
  points seen so far (cleared bits); a classified trace hits the points whose bits it sets.
\<close>

definition seen :: "u8 list \<Rightarrow> (nat \<times> nat) set" where
  "seen vir = set (filter (\<lambda>(i, b). \<not> bit (vir ! i) b) (List.product [0..<length vir] [0..<8]))"

definition hits :: "u8 list \<Rightarrow> (nat \<times> nat) set" where
  "hits cur = set (filter (\<lambda>(i, b). bit (cur ! i) b) (List.product [0..<length cur] [0..<8]))"

lemma mem_seen: "(i, b) \<in> seen vir \<longleftrightarrow> i < length vir \<and> b < 8 \<and> \<not> bit (vir ! i) b"
  by (auto simp: seen_def)

lemma mem_hits: "(i, b) \<in> hits cur \<longleftrightarrow> i < length cur \<and> bit (cur ! i) b"
  using bit_imp_le_length [of "cur ! i" b] by (auto simp: hits_def)

lemma seen_virgin_after:
  "length cur = length vir \<Longrightarrow> seen (virgin_after cur vir) = seen vir \<union> hits cur"
  by (auto simp: mem_seen mem_hits virgin_after_def bit_and_iff bit_not_iff
      dest: u8_bit_less)

lemma novelty_0_iff:
  assumes "length cur = length vir"
  shows "novelty cur vir = 0 \<longleftrightarrow> hits cur \<subseteq> seen vir"
proof -
  have "novelty cur vir = 0 \<longleftrightarrow> (\<forall>i < length cur. cur ! i AND vir ! i = 0)"
    unfolding novelty_def using u8_and_255(1) by auto
  also have "\<dots> \<longleftrightarrow> hits cur \<subseteq> seen vir"
    using assms u8_bit_less by (fastforce simp: u8_eq_0_bits bit_and_iff mem_seen mem_hits subset_iff)
  finally show ?thesis .
qed

lemma finite_seen [simp]: "finite (seen vir)"
  by (simp add: seen_def)

lemma card_seen: "card (seen vir) \<le> 8 * length vir"
proof -
  have "card (seen vir) \<le> length (filter (\<lambda>(i, b). \<not> bit (vir ! i) b) (List.product [0..<length vir] [0..<8]))"
    unfolding seen_def by (rule card_length)
  also have "\<dots> \<le> length (List.product [0..<length vir] [0..<8])"
    by (rule length_filter_le)
  finally show ?thesis by simp
qed

lemma seen_and:
  "length l = length g \<Longrightarrow> seen (map2 (AND) g l) = seen g \<union> seen l"
  by (auto simp: mem_seen bit_and_iff)

lemma length_virgin_after [simp]: "length cur = length vir \<Longrightarrow> length (virgin_after cur vir) = length vir"
  by (simp add: virgin_after_def)

section \<open>The feedback contract\<close>

text \<open>
  What the fuzzing loop relies on: absorbing a trace into the map of seen points adds
  exactly the points hit, the verdict is zero exactly when nothing new was hit, and merging
  two maps unites what they have seen.
\<close>

locale coverage_feedback =
  fixes absorb :: "'c \<Rightarrow> 'v \<Rightarrow> nat \<times> 'v"
    and merge :: "'v \<Rightarrow> 'v \<Rightarrow> 'v"
    and points :: "'c \<Rightarrow> 'p set"
    and known :: "'v \<Rightarrow> 'p set"
    and trace_ok :: "'c \<Rightarrow> bool"
    and map_ok :: "'v \<Rightarrow> bool"
    and capacity :: nat
  assumes map_ok_absorb: "trace_ok c \<Longrightarrow> map_ok v \<Longrightarrow> map_ok (snd (absorb c v))"
    and known_absorb: "trace_ok c \<Longrightarrow> map_ok v \<Longrightarrow> known (snd (absorb c v)) = known v \<union> points c"
    and verdict_zero: "trace_ok c \<Longrightarrow> map_ok v \<Longrightarrow> fst (absorb c v) = 0 \<longleftrightarrow> points c \<subseteq> known v"
    and map_ok_merge: "map_ok v \<Longrightarrow> map_ok v' \<Longrightarrow> map_ok (merge v v')"
    and known_merge: "map_ok v \<Longrightarrow> map_ok v' \<Longrightarrow> known (merge v v') = known v \<union> known v'"
    and finite_known: "map_ok v \<Longrightarrow> finite (known v)"
    and card_known: "map_ok v \<Longrightarrow> card (known v) \<le> capacity"
begin

text \<open>A campaign feeds traces one by one and counts the interesting ones.\<close>

primrec campaign :: "'c list \<Rightarrow> 'v \<Rightarrow> nat \<times> 'v" where
  "campaign [] v = (0, v)"
| "campaign (c # cs) v =
     (let (r, v') = absorb c v; (k, v'') = campaign cs v' in (k + of_bool (r \<noteq> 0), v''))"

lemma campaign_Cons:
  "fst (campaign (c # cs) v) = fst (campaign cs (snd (absorb c v))) + of_bool (fst (absorb c v) \<noteq> 0)"
  "snd (campaign (c # cs) v) = snd (campaign cs (snd (absorb c v)))"
  by (simp_all add: Let_def case_prod_beta)

lemma campaign_map_ok: "\<forall>c \<in> set cs. trace_ok c \<Longrightarrow> map_ok v \<Longrightarrow> map_ok (snd (campaign cs v))"
proof (induction cs arbitrary: v)
  case Nil
  then show ?case by simp
next
  case (Cons c cs)
  then have "map_ok (snd (campaign cs (snd (absorb c v))))"
    using map_ok_absorb [of c v] by simp
  then show ?case
    by (simp only: campaign_Cons)
qed

lemma campaign_known:
  "\<forall>c \<in> set cs. trace_ok c \<Longrightarrow> map_ok v \<Longrightarrow> known (snd (campaign cs v)) = known v \<union> (\<Union>c \<in> set cs. points c)"
proof (induction cs arbitrary: v)
  case Nil
  then show ?case by simp
next
  case (Cons c cs)
  have "known (snd (campaign cs (snd (absorb c v)))) = known v \<union> points c \<union> (\<Union>c \<in> set cs. points c)"
    using Cons.IH [of "snd (absorb c v)"] Cons.prems map_ok_absorb [of c v] known_absorb [of c v]
    by simp
  then show ?case
    by (auto simp only: campaign_Cons list.set UN_insert)
qed

lemma campaign_interesting_bound:
  "\<forall>c \<in> set cs. trace_ok c \<Longrightarrow> map_ok v \<Longrightarrow>
     card (known v) + fst (campaign cs v) \<le> card (known (snd (campaign cs v)))"
proof (induction cs arbitrary: v)
  case Nil
  then show ?case by simp
next
  case (Cons c cs)
  let ?v = "snd (absorb c v)"
  have ok: "map_ok ?v" and kn: "known ?v = known v \<union> points c"
    using Cons.prems map_ok_absorb known_absorb by auto
  have IH: "card (known ?v) + fst (campaign cs ?v) \<le> card (known (snd (campaign cs ?v)))"
    using Cons.IH [OF _ ok] Cons.prems by simp
  have "card (known v) + of_bool (fst (absorb c v) \<noteq> 0) \<le> card (known ?v)"
  proof (cases "fst (absorb c v) = 0")
    case True
    then show ?thesis
      using finite_known [OF ok] by (simp add: kn card_mono)
  next
    case False
    then have "known v \<subset> known ?v"
      using verdict_zero [of c v] Cons.prems kn by auto
    then have "card (known v) < card (known ?v)"
      using finite_known [OF ok] by (rule psubset_card_mono [rotated])
    then show ?thesis by simp
  qed
  with IH show ?case
    by (simp only: campaign_Cons)
qed

lemma campaign_interesting_le_capacity:
  "\<forall>c \<in> set cs. trace_ok c \<Longrightarrow> map_ok v \<Longrightarrow> fst (campaign cs v) \<le> capacity"
  using campaign_interesting_bound [of cs v] campaign_map_ok [of cs v] card_known
  by (meson add_leD2 le_trans)

lemma absorb_again:
  "trace_ok c \<Longrightarrow> map_ok v \<Longrightarrow> fst (absorb c (snd (absorb c v))) = 0"
  using verdict_zero [of c "snd (absorb c v)"] map_ok_absorb [of c v] known_absorb [of c v] by simp

lemma merge_not_interesting:
  "trace_ok c \<Longrightarrow> map_ok v \<Longrightarrow> map_ok v' \<Longrightarrow> fst (absorb c v) = 0 \<Longrightarrow> fst (absorb c (merge v v')) = 0"
  using verdict_zero [of c v] verdict_zero [of c "merge v v'"] map_ok_merge [of v v'] known_merge [of v v']
  by auto

end

text \<open>The maps of the fuzzer honour the contract, at any map size divisible by eight.\<close>

definition sized :: "nat \<Rightarrow> u8 list \<Rightarrow> bool" where
  "sized n m \<longleftrightarrow> 8 dvd n \<and> length m = n"

interpretation cov: coverage_feedback has_new_bits "\<lambda>l g. map2 (AND) g l" hits seen
  "sized n" "sized n" "8 * n" for n
proof (unfold_locales, goal_cases)
  case (1 c v)
  then show ?case by (simp add: sized_def has_new_bits_bytewise)
next
  case (2 c v)
  then show ?case by (simp add: sized_def has_new_bits_bytewise seen_virgin_after)
next
  case (3 c v)
  then show ?case by (simp add: sized_def has_new_bits_bytewise novelty_0_iff)
next
  case (4 v v')
  then show ?case by (simp add: sized_def)
next
  case (5 v v')
  then show ?case by (auto simp: sized_def seen_and)
next
  case (6 v)
  then show ?case by simp
next
  case (7 v)
  then show ?case using card_seen [of v] by (simp add: sized_def)
qed

section \<open>Properties\<close>

lemma dvd8_eight: "8 dvd Suc (Suc (Suc (Suc (Suc (Suc (Suc (Suc 0)))))))"
  by presburger

lemma novelty_2_iff: "novelty cur vir = 2 \<longleftrightarrow> (\<exists>i < length cur. cur ! i \<noteq> 0 \<and> vir ! i = 0xff)"
  by (auto simp: novelty_def)

text \<open>
  C2: novelty detection works eight bytes at a time and still is exact for single coverage
  points.  The new virgin map has seen exactly the old points and those of the trace; the
  verdict is 0 when the trace has no new point, 2 when it hits an index for the first time,
  and 1 otherwise.
\<close>

theorem has_new_bits_exact:
  assumes "8 dvd length current" and "length virgin = length current"
  shows "seen (snd (has_new_bits current virgin)) = seen virgin \<union> hits current \<and>
    (fst (has_new_bits current virgin) = 0 \<longleftrightarrow> hits current \<subseteq> seen virgin) \<and>
    (fst (has_new_bits current virgin) = 2 \<longleftrightarrow>
      (\<exists>i < length current. current ! i \<noteq> 0 \<and> virgin ! i = 0xff)) \<and>
    fst (has_new_bits current virgin) \<le> 2 \<and>
    length (snd (has_new_bits current virgin)) = length virgin"
  using assms by (simp add: has_new_bits_bytewise seen_virgin_after novelty_0_iff novelty_2_iff novelty_le_2)

theorem has_new_bits_exact_witness:
  "fst (has_new_bits [0, 4, 0, 0, 0, 0, 0, 0] (replicate 8 0xff)) = 2"
proof -
  have "(1::nat) < 8 \<and> [0, 4, 0, 0, 0, 0, 0, 0 :: u8] ! 1 \<noteq> 0 \<and> replicate 8 (0xff :: u8) ! 1 = 0xff"
    by simp
  then show ?thesis
    using has_new_bits_exact [of "[0, 4, 0, 0, 0, 0, 0, 0]" "replicate 8 0xff"] dvd8_eight by auto
qed

text \<open>
  C3: the classification of hit counts through the 16-bit table, four entries for every
  non-zero 64-bit cell, replaces every byte by its class and turns no hit into a miss.
\<close>

theorem classify_counts_bytewise:
  assumes "8 dvd length mem"
  shows "classify_counts mem = map count_class_lookup8 mem \<and>
    MinimizeBit (classify_counts mem) = MinimizeBit mem"
  using classify_counts_map [OF assms] MinimizeBit_classify [OF assms] by blast

theorem classify_counts_bytewise_witness:
  "classify_counts [0, 1, 3, 7, 8, 31, 100, 200] = [0, 1, 4, 8, 16, 32, 64, 128]"
  using classify_counts_bytewise [of "[0, 1, 3, 7, 8, 31, 100, 200]"] dvd8_eight
  by (simp add: count_class_lookup8_def)

text \<open>
  C4: synchronising two instances leaves both with the same map, which has seen exactly what
  one of them had seen, and never leaves the maps' memory.
\<close>

theorem sync_coverage_merges:
  assumes "length local_coverage = len" and "length global_coverage = len"
  shows "\<exists>m. sync_coverage local_coverage global_coverage len = Some (m, m) \<and>
    length m = len \<and> seen m = seen local_coverage \<union> seen global_coverage"
  using assms seen_and [of local_coverage global_coverage] by (auto simp: sync_coverage_eq)

theorem sync_coverage_merges_witness:
  "\<exists>m. sync_coverage [0xfe, 0xff] [0xff, 0x7f] 2 = Some (m, m) \<and>
    length m = 2 \<and> seen m = seen [0xfe, 0xff] \<union> seen [0xff, 0x7f]"
  using sync_coverage_merges [of "[0xfe, 0xff]" 2 "[0xff, 0x7f]"] by simp

text \<open>The number of traces of a sequence that \<open>has_new_bits\<close> finds interesting.\<close>

primrec interesting_traces :: "u8 list list \<Rightarrow> u8 list \<Rightarrow> nat" where
  "interesting_traces [] virgin = 0"
| "interesting_traces (c # cs) virgin =
     interesting_traces cs (snd (has_new_bits c virgin)) + of_bool (fst (has_new_bits c virgin) \<noteq> 0)"

lemma interesting_traces_campaign: "interesting_traces cs v = fst (cov.campaign cs v)"
  by (induction cs arbitrary: v) (simp_all add: case_prod_beta Let_def)



end
