(* ===== verification/C_Strings.thy ===== *)
theory C_Strings
  imports DF_Prelude
begin

text \<open>
  C strings and decimal numbers: printing with \<open>std::to_string\<close> and \<open>sprintf\<close>, reading with
  \<open>atoi\<close>, and the searches \<open>strstr\<close> and \<open>strtok\<close>.  A string is the list of its characters,
  without the terminating zero.
\<close>

section \<open>Decimal numbers\<close>

fun dec_digits :: "nat \<Rightarrow> string" where
  "dec_digits n = (if n < 10 then [char_of (48 + n)] else dec_digits (n div 10) @ [char_of (48 + n mod 10)])"

declare dec_digits.simps [simp del]

definition to_string :: "nat \<Rightarrow> string" where
  "to_string n = dec_digits n"

definition is_space :: "char \<Rightarrow> bool" where
  "is_space c \<longleftrightarrow> of_char c = (32 :: nat) \<or> 9 \<le> (of_char c :: nat) \<and> of_char c \<le> (13 :: nat)"

definition is_digit :: "char \<Rightarrow> bool" where
  "is_digit c \<longleftrightarrow> 48 \<le> (of_char c :: nat) \<and> of_char c \<le> (57 :: nat)"

definition dec_value :: "string \<Rightarrow> nat" where
  "dec_value ds = foldl (\<lambda>n c. 10 * n + (of_char c - 48)) 0 ds"

text \<open>\<open>(int) strtol(s, NULL, 10)\<close>, which is what \<open>atoi\<close> computes in the GNU C library.\<close>

definition strtol10 :: "string \<Rightarrow> int" where
  "strtol10 str =
     (let xs = dropWhile is_space str;
          neg = (take 1 xs = ''-'');
          ds = takeWhile is_digit (if take 1 xs \<in> {''-'', ''+''} then drop 1 xs else xs);
          n = int (dec_value ds)
      in max (- (2 ^ 63)) (min (2 ^ 63 - 1) (if neg then - n else n)))"

definition atoi :: "string \<Rightarrow> u32" where
  "atoi str = word_of_int (strtol10 str)"

section \<open>Searching\<close>

fun starts_with :: "string \<Rightarrow> string \<Rightarrow> bool" where
  "starts_with s [] = True"
| "starts_with [] (p # ps) = False"
| "starts_with (c # cs) (p # ps) = (c = p \<and> starts_with cs ps)"

text \<open>\<open>strstr(s, p) != NULL\<close>\<close>

fun strstr :: "string \<Rightarrow> string \<Rightarrow> bool" where
  "strstr [] p = (p = [])"
| "strstr (c # cs) p = (starts_with (c # cs) p \<or> strstr cs p)"

text \<open>The tokens that repeated calls of \<open>strtok\<close> with one delimiter deliver: empty ones are skipped.\<close>

fun strtok :: "char \<Rightarrow> string \<Rightarrow> string \<Rightarrow> string list" where
  "strtok d [] cur = (if cur = [] then [] else [rev cur])"
| "strtok d (c # cs) cur =
     (if c = d then (if cur = [] then strtok d cs [] else rev cur # strtok d cs [])
      else strtok d cs (c # cur))"

section \<open>Lemmas\<close>

lemma digit_char: "d < 10 \<Longrightarrow> is_digit (char_of (48 + d)) \<and> of_char (char_of (48 + d)) - 48 = (d :: nat)"
  by (simp add: is_digit_def)

lemma dec_value_snoc [simp]: "dec_value (ds @ [c]) = 10 * dec_value ds + (of_char c - 48)"
  by (simp add: dec_value_def)

lemma dec_digits_props:
  "list_all is_digit (dec_digits n) \<and> dec_value (dec_digits n) = n \<and> dec_digits n \<noteq> []"
proof (induction n rule: dec_digits.induct)
  case (1 n)
  show ?case
  proof (cases "n < 10")
    case True
    then show ?thesis using digit_char [OF True] by (simp add: dec_digits.simps [of n] dec_value_def)
  next
    case False
    then show ?thesis using 1 digit_char [of "n mod 10"] by (simp add: dec_digits.simps [of n])
  qed
qed

lemma length_dec_digits: "0 < k \<Longrightarrow> length (dec_digits n) \<le> k \<longleftrightarrow> n < 10 ^ k"
proof (induction k arbitrary: n)
  case (Suc k)
  show ?case
  proof (cases "n < 10")
    case True
    then show ?thesis by (simp add: dec_digits.simps [of n] less_le_trans [OF True])
  next
    case False
    then have "length (dec_digits n) \<le> Suc k \<longleftrightarrow> length (dec_digits (n div 10)) \<le> k" by (simp add: dec_digits.simps [of n])
    also have "\<dots> \<longleftrightarrow> n < 10 ^ Suc k"
    proof (cases "k = 0")
      case True
      then show ?thesis using False dec_digits_props [of "n div 10"] by simp
    next
      case False
      then have "length (dec_digits (n div 10)) \<le> k \<longleftrightarrow> n div 10 < 10 ^ k" using Suc.IH by simp
      then show ?thesis by (simp add: div_less_iff_less_mult mult.commute)
    qed
    finally show ?thesis .
  qed
qed simp

lemma dec_value_zeros: "dec_value (replicate k CHR ''0'' @ ds) = dec_value ds"
  by (induction k) (simp_all add: dec_value_def)

lemma dec_value_less: "list_all is_digit ds \<Longrightarrow> dec_value ds < 10 ^ length ds"
proof (induction ds rule: rev_induct)
  case (snoc c ds)
  then have "(of_char c :: nat) - 48 \<le> 9" by (auto simp: is_digit_def)
  then show ?case using snoc by simp
qed (simp add: dec_value_def)

lemma zero_digit: "is_digit CHR ''0''"
  by (simp add: is_digit_def)

lemma atoi_to_string:
  assumes "n < 2 ^ 32"
  shows "atoi (to_string n) = of_nat n"
proof -
  have props: "list_all is_digit (dec_digits n)" "dec_value (dec_digits n) = n" "dec_digits n \<noteq> []"
    using dec_digits_props [of n] by auto
  obtain c cs where ds: "dec_digits n = c # cs" using props(3) by (cases "dec_digits n") auto
  have "is_digit c" using props(1) by (simp add: ds)
  then have c: "\<not> is_space c" "c \<noteq> CHR ''-''" "c \<noteq> CHR ''+''"
    by (auto simp: is_digit_def is_space_def)
  have "takeWhile is_digit (dec_digits n) = dec_digits n" using props(1) by (simp add: list_all_iff)
  then have "strtol10 (to_string n) = max (- (2 ^ 63)) (min (2 ^ 63 - 1) (int n))"
    using c props(2) by (simp add: strtol10_def to_string_def ds)
  also have "\<dots> = int n" using assms by simp
  finally show ?thesis by (simp add: atoi_def)
qed

lemma starts_with_iff: "starts_with s p \<longleftrightarrow> (\<exists>b. s = p @ b)"
  by (induction s p rule: starts_with.induct) auto

lemma strstr_iff: "strstr s p \<longleftrightarrow> (\<exists>a b. s = a @ p @ b)"
proof (induction s)
  case (Cons c cs)
  show ?case
  proof
    assume "strstr (c # cs) p"
    then consider b where "c # cs = [] @ p @ b" | a b where "c # cs = (c # a) @ p @ b"
      using Cons by (auto simp: starts_with_iff)
    then show "\<exists>a b. c # cs = a @ p @ b" by cases blast+
  next
    assume "\<exists>a b. c # cs = a @ p @ b"
    then obtain a b where ab: "c # cs = a @ p @ b" by blast
    show "strstr (c # cs) p"
    proof (cases a)
      case Nil
      with ab have "starts_with (c # cs) p" unfolding starts_with_iff by auto
      then show ?thesis unfolding strstr.simps by blast
    next
      case (Cons d a')
      with ab have "\<exists>a b. cs = a @ p @ b" by auto
      with \<open>strstr cs p \<longleftrightarrow> (\<exists>a b. cs = a @ p @ b)\<close> show ?thesis by simp
    qed
  qed
qed auto

end
