(* ===== verification/Fuzz_State.thy ===== *)
theory Fuzz_State
  imports Coverage_Map C_Strings
begin

text \<open>
  The global state of the fuzzer process (\<open>fuzz/fuzzer/old/Fuzzer.h\<close>,
  \<open>Main.cpp\<close>) and its access to the outside.  Globals are the fields of the record
  \<open>fuzzer\<close>; settings that never change after \<open>Init\<close>, the two build flags
  and everything that is not code of the repository (the program under test, the file
  system's refusals) are the fields of \<open>fuzz_env\<close>.  A call that ends the process
  (\<open>exit(-1)\<close>) or leaves its buffers is \<^term>\<open>None\<close>.

  \<^item> \<open>target\<close> is the execution of the program under test: from the run number, the test
    case, the error list, the control matrix and the timeout it yields the stores it made to
    the shared memory segments and its wait status, or \<^term>\<open>None\<close> when \<open>fork\<close> or
    \<open>waitpid\<close> fail.
  \<^item> \<open>io_ok path\<close> holds when opening and completely writing \<open>path\<close> is possible.
  \<^item> \<open>std_sort cmp\<close> is \<open>std::sort\<close> with the comparison \<open>cmp\<close>, which is free in the order of
    equivalent elements.
  \<^item> \<open>rand_tape\<close> and \<open>clock\<close> are the successive results of \<open>rand()\<close> and
    \<open>gettimeofday\<close> (in microseconds).
\<close>

section \<open>Seeds\<close>

record seed =
  wasFuzzed :: bool
  favored :: bool
  elistFileName :: string
  control_matrix_file :: string
  fileName :: string
  fileLen :: nat
  execTime :: nat
  trace :: "bool list option"
  topCount :: u32
  concurrent_trace :: "bool list option"
  concurrent_top_count :: u32
  cksum :: u32
  trimDone :: bool

definition new_seed :: "string \<Rightarrow> nat \<Rightarrow> seed" where
  "new_seed fname fsize =
     \<lparr>wasFuzzed = False, favored = False, elistFileName = [], control_matrix_file = [],
      fileName = fname, fileLen = fsize, execTime = 0, trace = None, topCount = 0,
      concurrent_trace = None, concurrent_top_count = 0, cksum = 0, trimDone = False\<rparr>"

text \<open>\<open>u64 score = s->execTime * s->fileLen\<close>, with the wrap-around of \<open>u64\<close>.\<close>

definition seed_score :: "seed \<Rightarrow> nat" where
  "seed_score s = (execTime s * fileLen s) mod 2 ^ 64"

section \<open>Program under test\<close>

record matrix_element =
  hash_1 :: u64
  hash_2 :: u64

datatype fault = FAULT_NONE | FAULT_TMOUT | FAULT_CRASH | FAULT_ERROR | FAULT_NOINST | FAULT_NOBITS

datatype wait_status = Exited nat | Signaled nat | Stopped nat

record exec_result =
  er_trace :: "(nat \<times> u8) list"
  er_branch :: "(nat \<times> u8) list"
  er_errors :: "(nat \<times> u8) list"
  er_adjacency :: "(nat \<times> matrix_element) list"
  er_travel :: "(nat \<times> matrix_element) list"
  er_status :: wait_status
  er_timed_out :: bool

text \<open>The stores of the target to a shared segment; a segment never changes its size.\<close>

definition apply_stores :: "(nat \<times> 'a) list \<Rightarrow> 'a list \<Rightarrow> 'a list" where
  "apply_stores ws m = fold (\<lambda>(i, v) m. m[i := v]) ws m"

lemma length_apply_stores [simp]: "length (apply_stores ws m) = length m"
  unfolding apply_stores_def by (induction ws arbitrary: m) auto

section \<open>Environment and state\<close>

record fuzz_env =
  testfile :: string
  inputDir :: string
  outputDir :: string
  sync_id :: string
  sync_state :: string
  isBranchCoverage :: bool
  skip_deterministic :: bool
  sync_cov :: bool
  master_sync_cycle :: nat
  slave_sync_cycle :: nat
  timeBegin :: nat
  NO_FUZZING_ERROR :: bool
  NO_CONCURRENCY_FUZZ :: bool
  target :: "nat \<Rightarrow> u8 list \<Rightarrow> u8 list \<Rightarrow> matrix_element list \<Rightarrow> nat \<Rightarrow> exec_result option"
  io_ok :: "string \<Rightarrow> bool"
  std_sort :: "(u8 list \<times> nat \<Rightarrow> u8 list \<times> nat \<Rightarrow> bool) \<Rightarrow> (u8 list \<times> nat) list \<Rightarrow> (u8 list \<times> nat) list"

record plot_entry =
  pe_time :: nat
  pe_cov :: nat
  pe_unique_crash :: nat
  pe_total_crash :: nat
  pe_unique_ex_crash :: nat
  pe_branch_cov :: nat
  pe_concurrency :: "(nat \<times> nat \<times> nat \<times> nat \<times> nat) option"
  pe_queue_size :: nat
  pe_stage :: string
  pe_exec_count :: nat
  pe_elapsed :: string

record fuzzer =
  queue :: "seed list"
  queueTop :: "nat option list"
  concurrent_queue_top :: "nat option list"
  queueCur :: "nat option"
  queueCycle :: nat
  pendFavor :: bool
  scoreChange :: bool
  globalTraceBit :: "u8 list"
  virginMap :: "u8 list"
  branchTraceBit :: "u8 list"
  virginMapForBranchTraceBit :: "u8 list"
  timeoutTrace :: "bool list"
  crashTrace :: "bool list"
  unique_crash_count :: nat
  unique_hang_count :: nat
  total_crash_count :: nat
  total_timeout_count :: nat
  unique_ex_hang_count :: nat
  total_ex_timeout_count :: nat
  unique_ex_crash_count :: nat
  exec_count :: nat
  total_input :: nat
  usefule_input :: nat
  total_error_seq :: nat
  useful_error_seq :: nat
  errorList :: "u8 list"
  errorTraced :: "u8 list"
  fu_list :: "nat set list"
  control_matrix :: "matrix_element list"
  adjacency_matrix :: "matrix_element list"
  travel_matrix :: "matrix_element list"
  total_travel :: "u64 set"
  unreachable_control_matrix :: "u64 set"
  concurrency_test_time :: nat
  skip_since_travel :: nat
  skip_since_unreachable :: nat
  total_cal_us :: nat
  total_cal_cycles :: nat
  havoc_div :: nat
  timeout_given :: bool
  exec_tmout :: nat
  hang_tmout :: nat
  sync_cov_ptr :: "u8 list option"
  sync_branch_cov_ptr :: "u8 list option"
  fuzz_time :: nat
  autoToken :: "(u8 list \<times> nat) list"
  pointedToken :: "(u8 list \<times> nat) list"
  useful_byte :: "bool list"
  variableStateChangeCount :: u64
  concurrentFunctionCountVar :: u64
  tickNum :: u64
  files :: "string \<rightharpoonup> u8 list"
  plot :: "plot_entry list"
  rand_tape :: "nat \<Rightarrow> nat"
  clock :: "nat \<Rightarrow> nat"

text \<open>Increments of \<open>u32\<close> and \<open>u64\<close> counters.\<close>

definition inc32 :: "nat \<Rightarrow> nat" where
  "inc32 n = (n + 1) mod 2 ^ 32"

definition inc64 :: "nat \<Rightarrow> nat" where
  "inc64 n = (n + 1) mod 2 ^ 64"

section \<open>Randomness and time\<close>

text \<open>
  The static counter \<open>count\<close> of the code is never incremented, so its re-seeding branch
  is never taken; a zero denominator consumes no random number.
\<close>

definition randNum :: "nat \<Rightarrow> (nat \<Rightarrow> nat) \<Rightarrow> nat \<times> (nat \<Rightarrow> nat)" where
  "randNum denominator tape =
     (if to_u32 denominator = 0 then (0, tape)
      else (tape 0 mod to_u32 denominator, \<lambda>n. tape (Suc n)))"

definition GetCurTimeUs :: "fuzzer \<Rightarrow> nat \<times> fuzzer" where
  "GetCurTimeUs s = (clock s 0, s\<lparr>clock := \<lambda>n. clock s (Suc n)\<rparr>)"

lemma randNum_less: "0 < to_u32 d \<Longrightarrow> fst (randNum d tape) < to_u32 d"
  by (simp add: randNum_def)

lemma randNum_le: "fst (randNum d tape) \<le> to_u32 d - 1"
  using randNum_less [of d tape] by (cases "to_u32 d = 0") (simp_all add: randNum_def less_eq_Suc_le)

section \<open>File names and files\<close>

text \<open>
  \<open>sprintf(ss, "%06u", num)\<close> into \<open>char ss[10]\<close>: ten digits and the terminating
  zero do not fit.
\<close>

definition num2str_Keep6bit :: "nat \<Rightarrow> string option" where
  "num2str_Keep6bit num =
     (let ds = dec_digits num; ss = replicate (6 - length ds) CHR ''0'' @ ds
      in if length ss + 1 \<le> 10 then Some ss else None)"

definition WriteMem2File :: "fuzz_env \<Rightarrow> string \<Rightarrow> u8 list \<Rightarrow> nat \<Rightarrow> fuzzer \<Rightarrow> fuzzer option" where
  "WriteMem2File E filename mem len s =
     (if files s filename \<noteq> None \<or> \<not> io_ok E filename then None
      else do { xs \<leftarrow> mem_read 0 (to_u32 len) mem; Some (s\<lparr>files := (files s)(filename \<mapsto> xs)\<rparr>) })"

definition ReadFile2Mem :: "fuzz_env \<Rightarrow> string \<Rightarrow> nat \<Rightarrow> fuzzer \<Rightarrow> u8 list option" where
  "ReadFile2Mem E filename len s =
     do { xs \<leftarrow> files s filename;
          if io_ok E filename \<and> to_u32 len \<le> length xs then Some (take (to_u32 len) xs) else None }"

definition WriteToTestcase :: "fuzz_env \<Rightarrow> u8 list \<Rightarrow> nat \<Rightarrow> fuzzer \<Rightarrow> fuzzer option" where
  "WriteToTestcase E mem len s =
     (if \<not> io_ok E (testfile E) then None
      else do { xs \<leftarrow> mem_read 0 (to_u32 len) mem; Some (s\<lparr>files := (files s)(testfile E \<mapsto> xs)\<rparr>) })"

definition GetTimeStr :: "fuzz_env \<Rightarrow> fuzzer \<Rightarrow> string \<times> fuzzer" where
  "GetTimeStr E s =
     (let (timeNow, s) = GetCurTimeUs s;
          timeDiff = usub64 timeNow (timeBegin E);
          second_num = timeDiff div 1000000;
          minute_num = second_num div 60;
          hours = minute_num div 60;
          minutes = minute_num mod 60;
          seconds = second_num mod 60
      in (to_string hours @ ''h '' @ to_string minutes @ ''m '' @ to_string seconds @ ''s'', s))"

definition print_result :: "fuzz_env \<Rightarrow> string \<Rightarrow> fuzzer \<Rightarrow> fuzzer" where
  "print_result E stage s =
     (let (now, s) = GetCurTimeUs s;
          (elapsed, s) = GetTimeStr E s
      in s\<lparr>plot := plot s @
            [\<lparr>pe_time = now, pe_cov = ShowCoverage (virginMap s),
              pe_unique_crash = unique_crash_count s, pe_total_crash = total_crash_count s,
              pe_unique_ex_crash = unique_ex_crash_count s,
              pe_branch_cov = ShowCoverage (virginMapForBranchTraceBit s),
              pe_concurrency =
                (if NO_CONCURRENCY_FUZZ E then None
                 else Some (card (total_travel s), concurrency_test_time s, card (unreachable_control_matrix s),
                            skip_since_travel s, skip_since_unreachable s)),
              pe_queue_size = length (queue s), pe_stage = stage,
              pe_exec_count = exec_count s, pe_elapsed = elapsed\<rparr>]\<rparr>)"

section \<open>Initial state\<close>

text \<open>
  The initialisers of the globals (\<open>Main.cpp\<close>), the virgin maps filled with
  \<open>0xff\<close> (\<open>Init\<close>), the zeroed shared segments (\<open>ShmSetup\<close>) and the
  empty table of best seeds (\<open>main\<close>).  The sizes of the segments are parameters; the
  \<open>0\<close> element of a matrix has both hashes zero.
\<close>

definition zero_element :: matrix_element where
  "zero_element = \<lparr>hash_1 = 0, hash_2 = 0\<rparr>"

definition initial_fuzzer ::
  "nat \<Rightarrow> nat \<Rightarrow> nat \<Rightarrow> nat \<Rightarrow> nat \<Rightarrow> (string \<rightharpoonup> u8 list) \<Rightarrow> (nat \<Rightarrow> nat) \<Rightarrow> (nat \<Rightarrow> nat) \<Rightarrow> fuzzer" where
  "initial_fuzzer map_size list_size csize asize tsize fs tape clk =
     \<lparr>queue = [], queueTop = replicate map_size None, concurrent_queue_top = replicate map_size None,
      queueCur = None, queueCycle = 0, pendFavor = False, scoreChange = False,
      globalTraceBit = replicate map_size 0, virginMap = replicate map_size 0xff,
      branchTraceBit = replicate map_size 0, virginMapForBranchTraceBit = replicate map_size 0xff,
      timeoutTrace = replicate map_size False, crashTrace = replicate map_size False,
      unique_crash_count = 0, unique_hang_count = 0, total_crash_count = 0, total_timeout_count = 0,
      unique_ex_hang_count = 0, total_ex_timeout_count = 0, unique_ex_crash_count = 0,
      exec_count = 0, total_input = 0, usefule_input = 0, total_error_seq = 0, useful_error_seq = 0,
      errorList = replicate list_size 0, errorTraced = replicate list_size 0, fu_list = [],
      control_matrix = replicate csize zero_element, adjacency_matrix = replicate asize zero_element,
      travel_matrix = replicate tsize zero_element, total_travel = {}, unreachable_control_matrix = {},
      concurrency_test_time = 0, skip_since_travel = 0, skip_since_unreachable = 0,
      total_cal_us = 0, total_cal_cycles = 0, havoc_div = 1, timeout_given = True,
      exec_tmout = 20000000, hang_tmout = 20000000, sync_cov_ptr = None, sync_branch_cov_ptr = None,
      fuzz_time = 0, autoToken = [], pointedToken = [], useful_byte = [],
      variableStateChangeCount = 0, concurrentFunctionCountVar = 0, tickNum = 0,
      files = fs, plot = [], rand_tape = tape, clock = clk\<rparr>"

text \<open>
  A benign environment: no file operation is refused, and every run of the target returns a
  wait status.
\<close>

definition env_ok :: "fuzz_env \<Rightarrow> bool" where
  "env_ok E \<longleftrightarrow> (\<forall>f. io_ok E f) \<and> (\<forall>k i el cm t. target E k i el cm t \<noteq> None)"

text \<open>
  A small environment for concrete inputs: the build of \<open>fuzz/CMakeLists.txt\<close>, a file
  system that refuses nothing, and a target that exits normally without touching its memory.
\<close>

definition quiet_run :: exec_result where
  "quiet_run = \<lparr>er_trace = [], er_branch = [], er_errors = [], er_adjacency = [], er_travel = [],
     er_status = Exited 0, er_timed_out = False\<rparr>"

fun insert_before :: "('a \<Rightarrow> 'a \<Rightarrow> bool) \<Rightarrow> 'a \<Rightarrow> 'a list \<Rightarrow> 'a list" where
  "insert_before cmp x [] = [x]"
| "insert_before cmp x (y # ys) = (if cmp y x then y # insert_before cmp x ys else x # y # ys)"

definition plain_env :: fuzz_env where
  "plain_env = \<lparr>testfile = ''tc'', inputDir = ''in/'', outputDir = ''out/'', sync_id = [], sync_state = [],
     isBranchCoverage = False, skip_deterministic = True, sync_cov = True,
     master_sync_cycle = 5, slave_sync_cycle = 10, timeBegin = 0,
     NO_FUZZING_ERROR = True, NO_CONCURRENCY_FUZZ = True,
     target = (\<lambda>_ _ _ _ _. Some quiet_run), io_ok = (\<lambda>_. True),
     std_sort = (\<lambda>cmp xs. foldr (insert_before cmp) xs [])\<rparr>"

text \<open>A target that hits index 1 of the map once, and one seed of three bytes.\<close>

definition hit_run :: exec_result where
  "hit_run = quiet_run\<lparr>er_trace := [(1, 1)]\<rparr>"

definition hit_env :: fuzz_env where
  "hit_env = plain_env\<lparr>target := (\<lambda>_ _ _ _ _. Some hit_run)\<rparr>"

definition one_seed :: fuzzer where
  "one_seed = (initial_fuzzer 8 0 0 0 0 [''a'' \<mapsto> [1, 2, 3]] (\<lambda>_. 0) (\<lambda>_. 0))\<lparr>queue := [new_seed ''a'' 3]\<rparr>"

end
