(* ===== verification/Seed_Queue.thy ===== *)
theory Seed_Queue
  imports Fuzz_State
begin

text \<open>
  The seed queue: \<open>AddToQueue\<close> and \<open>ReadTestcases\<close> (\<open>TestcasesProcess.cpp\<close>),
  the table \<open>queueTop\<close> of the best seed for every map index and the choice of the favored
  seeds (\<open>UpdateQueueTop\<close>, \<open>CullQueue\<close> of \<open>QueueCulling.cpp\<close>), and the
  timing statistics \<open>init_stats\<close> (\<open>Setup.cpp\<close>).

  The queue is a \<open>std::list\<close> that only grows at its end, so an iterator is the position of
  its seed and \<open>queue.end()\<close> is \<^term>\<open>None\<close>.
\<close>

section \<open>Adding seeds\<close>

definition AddToQueue :: "string \<Rightarrow> nat \<Rightarrow> string option \<Rightarrow> string option \<Rightarrow> fuzzer \<Rightarrow> fuzzer" where
  "AddToQueue fname fsize elist_fname cm_file s =
     (let sd = new_seed fname fsize;
          sd = (case elist_fname of None \<Rightarrow> sd | Some e \<Rightarrow> sd\<lparr>elistFileName := e\<rparr>);
          sd = (case cm_file of None \<Rightarrow> sd | Some c \<Rightarrow> sd\<lparr>control_matrix_file := c\<rparr>)
      in s\<lparr>queue := queue s @ [sd]\<rparr>)"

definition GetFileSize :: "fuzz_env \<Rightarrow> string \<Rightarrow> fuzzer \<Rightarrow> nat option" where
  "GetFileSize E filename s =
     do { xs \<leftarrow> files s filename; if io_ok E filename then Some (length xs) else None }"

definition ReadTestcases :: "fuzz_env \<Rightarrow> string \<Rightarrow> string list \<Rightarrow> fuzzer \<Rightarrow> fuzzer option" where
  "ReadTestcases E dirOfCases entries s =
     foldM (\<lambda>d_name s.
       if d_name \<noteq> ''.'' \<and> d_name \<noteq> ''..'' then
         do { fsize \<leftarrow> GetFileSize E (dirOfCases @ d_name) s;
              Some (AddToQueue (dirOfCases @ d_name) fsize None None s) }
       else Some s) entries s"

section \<open>The table of best seeds\<close>

definition drop_top :: "nat \<Rightarrow> seed list \<Rightarrow> seed list" where
  "drop_top k q =
     (let e = q ! k; c = topCount e - 1
      in q[k := e\<lparr>topCount := c, trace := (if c = 0 then None else trace e)\<rparr>])"

definition take_top :: "nat \<Rightarrow> u8 list \<Rightarrow> seed list \<Rightarrow> seed list" where
  "take_top s globalTrace q =
     (let e = q ! s
      in q[s := e\<lparr>topCount := topCount e + 1,
                 trace := (case trace e of None \<Rightarrow> Some (MinimizeBit globalTrace) | Some t \<Rightarrow> Some t)\<rparr>])"

type_synonym top_state = "seed list \<times> nat option list \<times> bool"

definition update_top_step :: "nat \<Rightarrow> nat \<Rightarrow> u8 list \<Rightarrow> nat \<Rightarrow> top_state \<Rightarrow> top_state" where
  "update_top_step s score globalTrace i = (\<lambda>(q, tops, changed).
     if globalTrace ! i = 0 then (q, tops, changed)
     else (case tops ! i of
             Some k \<Rightarrow>
               if score > seed_score (q ! k) then (q, tops, changed)
               else (take_top s globalTrace (drop_top k q), tops[i := Some s], True)
           | None \<Rightarrow> (take_top s globalTrace q, tops[i := Some s], True)))"

definition update_top_loop :: "nat \<Rightarrow> nat \<Rightarrow> u8 list \<Rightarrow> nat list \<Rightarrow> top_state \<Rightarrow> top_state" where
  "update_top_loop s score globalTrace is st = fold (update_top_step s score globalTrace) is st"

definition UpdateQueueTop :: "nat \<Rightarrow> u8 list \<Rightarrow> fuzzer \<Rightarrow> fuzzer" where
  "UpdateQueueTop sd globalTrace s =
     (let score = seed_score (queue s ! sd);
          (q, tops, changed) =
            update_top_loop sd score globalTrace [0..<length (queueTop s)] (queue s, queueTop s, scoreChange s)
      in s\<lparr>queue := q, queueTop := tops, scoreChange := changed\<rparr>)"

section \<open>Choosing the favored seeds\<close>

type_synonym cull_state = "bool list \<times> seed list \<times> bool"

definition cull_step :: "(seed \<Rightarrow> bool list option) \<Rightarrow> nat option list \<Rightarrow> nat \<Rightarrow> cull_state \<Rightarrow> cull_state" where
  "cull_step trace_of tops i = (\<lambda>(traceRecord, q, pend).
     case tops ! i of
       None \<Rightarrow> (traceRecord, q, pend)
     | Some k \<Rightarrow>
         if traceRecord ! i then (traceRecord, q, pend)
         else ((case trace_of (q ! k) of None \<Rightarrow> traceRecord | Some t \<Rightarrow> map2 (\<or>) traceRecord t),
               q[k := (q ! k)\<lparr>favored := True\<rparr>],
               (if wasFuzzed (q ! k) then pend else True)))"

definition cull_loop :: "(seed \<Rightarrow> bool list option) \<Rightarrow> nat option list \<Rightarrow> nat list \<Rightarrow> cull_state \<Rightarrow> cull_state" where
  "cull_loop trace_of tops is st = fold (cull_step trace_of tops) is st"

definition CullQueue :: "fuzz_env \<Rightarrow> fuzzer \<Rightarrow> fuzzer" where
  "CullQueue E s =
     (if \<not> scoreChange s then s
      else
        let n = length (queueTop s);
            q = map (\<lambda>sd. sd\<lparr>favored := False\<rparr>) (queue s);
            (_, q, pend) = cull_loop trace (queueTop s) [0..<n] (replicate n False, q, False);
            (q, pend) =
              (if NO_CONCURRENCY_FUZZ E then (q, pend)
               else snd (cull_loop concurrent_trace (concurrent_queue_top s) [0..<n] (replicate n False, q, pend)))
        in s\<lparr>queue := q, scoreChange := False, pendFavor := pend\<rparr>)"

section \<open>Timing statistics\<close>

definition EXEC_TIMEOUT :: nat where "EXEC_TIMEOUT = 20000000"

definition EXEC_TM_ROUND :: nat where "EXEC_TM_ROUND = 20"

definition calibrated_tmout :: "nat \<Rightarrow> nat \<Rightarrow> nat" where
  "calibrated_tmout avg_us max_us =
     (let t = (if avg_us > 50000 then to_u32 (avg_us * 2 mod 2 ^ 64 div 1000)
               else if avg_us > 10000 then to_u32 (avg_us * 3 mod 2 ^ 64 div 1000)
               else to_u32 (avg_us * 5 mod 2 ^ 64 div 1000));
          t = (if max_us div 1000 > t then to_u32 (max_us div 1000) else t);
          t = to_u32 (to_u32 (t + EXEC_TM_ROUND) div EXEC_TM_ROUND * EXEC_TM_ROUND)
      in if t > EXEC_TIMEOUT then EXEC_TIMEOUT else t)"

definition init_stats :: "fuzzer \<Rightarrow> fuzzer" where
  "init_stats s =
     (let avg_us = (if total_cal_cycles s \<noteq> 0 then total_cal_us s div total_cal_cycles s else 0);
          max_us = fold (\<lambda>q m. if execTime q > m then execTime q else m) (queue s) 0;
          hdiv = (if avg_us > 50000 then 10
                  else if avg_us > 20000 then 5
                  else if avg_us > 10000 then 2 else havoc_div s);
          tmout = (if timeout_given s then exec_tmout s else calibrated_tmout avg_us max_us);
          h = to_u32 (tmout * 2 + 100)
      in s\<lparr>havoc_div := hdiv, exec_tmout := tmout, timeout_given := True,
           hang_tmout := (if EXEC_TIMEOUT < h then EXEC_TIMEOUT else h)\<rparr>)"

section \<open>Invariant of the table\<close>

text \<open>
  Every slot of \<open>queueTop\<close> names a seed of the queue, the counter \<open>topCount\<close> of a
  seed is the number of its slots, a seed has a stored trace exactly when it has a slot, and
  the stored trace contains every index at which the seed is the best one.
\<close>

definition tops_ok :: "seed list \<Rightarrow> nat option list \<Rightarrow> bool" where
  "tops_ok q tops \<longleftrightarrow>
     length tops < 2 ^ 32 \<and>
     (\<forall>x \<in> set tops. case x of None \<Rightarrow> True | Some k \<Rightarrow> k < length q) \<and>
     (\<forall>k \<in> set [0..<length q].
        topCount (q ! k) = of_nat (count_list tops (Some k)) \<and>
        (trace (q ! k) \<noteq> None \<longleftrightarrow> Some k \<in> set tops))"

definition tops_cover :: "seed list \<Rightarrow> nat option list \<Rightarrow> bool" where
  "tops_cover q tops \<longleftrightarrow>
     (\<forall>i \<in> set [0..<length tops].
        case tops ! i of
          None \<Rightarrow> True
        | Some k \<Rightarrow> (case trace (q ! k) of None \<Rightarrow> False | Some t \<Rightarrow> length t = length tops \<and> t ! i))"

definition queue_inv :: "seed list \<Rightarrow> nat option list \<Rightarrow> bool" where
  "queue_inv q tops \<longleftrightarrow> tops_ok q tops \<and> tops_cover q tops"

lemma tops_okD:
  assumes "tops_ok q tops"
  shows "length tops < 2 ^ 32"
    and "Some k \<in> set tops \<Longrightarrow> k < length q"
    and "k < length q \<Longrightarrow> topCount (q ! k) = of_nat (count_list tops (Some k))"
    and "k < length q \<Longrightarrow> trace (q ! k) = None \<longleftrightarrow> Some k \<notin> set tops"
proof -
  show "length tops < 2 ^ 32" using assms by (simp add: tops_ok_def)
  show "Some k \<in> set tops \<Longrightarrow> k < length q" using assms by (force simp: tops_ok_def)
  assume "k < length q"
  then have "k \<in> set [0..<length q]" by simp
  then have "topCount (q ! k) = of_nat (count_list tops (Some k)) \<and>
      (trace (q ! k) \<noteq> None \<longleftrightarrow> Some k \<in> set tops)"
    using assms unfolding tops_ok_def by blast
  then show "topCount (q ! k) = of_nat (count_list tops (Some k))"
    and "trace (q ! k) = None \<longleftrightarrow> Some k \<notin> set tops" by blast+
qed

lemma tops_okI:
  assumes "length tops < 2 ^ 32"
    and "\<And>k. Some k \<in> set tops \<Longrightarrow> k < length q"
    and "\<And>k. k < length q \<Longrightarrow> topCount (q ! k) = of_nat (count_list tops (Some k))"
    and "\<And>k. k < length q \<Longrightarrow> trace (q ! k) = None \<longleftrightarrow> Some k \<notin> set tops"
  shows "tops_ok q tops"
  using assms by (auto simp: tops_ok_def split: option.splits)

lemma tops_cover_iff:
  "tops_cover q tops \<longleftrightarrow>
     (\<forall>i k. i < length tops \<longrightarrow> tops ! i = Some k \<longrightarrow>
        (\<exists>t. trace (q ! k) = Some t \<and> length t = length tops \<and> t ! i))"
proof -
  have "(case tops ! i of None \<Rightarrow> True
         | Some k \<Rightarrow> (case trace (q ! k) of None \<Rightarrow> False | Some t \<Rightarrow> length t = length tops \<and> t ! i))
      \<longleftrightarrow> (\<forall>k. tops ! i = Some k \<longrightarrow> (\<exists>t. trace (q ! k) = Some t \<and> length t = length tops \<and> t ! i))" for i
    by (cases "tops ! i") (simp_all split: option.split)
  then show ?thesis unfolding tops_cover_def by auto
qed

lemma count_list_update:
  "i < length xs \<Longrightarrow>
   count_list (xs[i := v]) y + of_bool (xs ! i = y) = count_list xs y + of_bool (v = y)"
proof (induction xs arbitrary: i)
  case (Cons x xs)
  then show ?case using Cons.IH [of "i - 1"] by (cases i) auto
qed simp

lemma count_list_pos: "0 < count_list xs y \<longleftrightarrow> y \<in> set xs"
  by (induction xs) auto

lemma of_nat_u32_0: "n < 2 ^ 32 \<Longrightarrow> (of_nat n :: u32) = 0 \<longleftrightarrow> n = 0"
  by (auto simp: word_of_nat_eq_0_iff dest: dvd_imp_le)

lemma slot_count:
  assumes "tops_ok q tops" "i < length tops" "tops ! i = Some k"
  obtains c where "count_list tops (Some k) = Suc c" "count_list (tops[i := None]) (Some k) = c"
    "c < 2 ^ 32" "k < length q"
proof -
  have "Some k \<in> set tops" using assms by (metis nth_mem)
  then have k: "k < length q" and pos: "0 < count_list tops (Some k)"
    using tops_okD(2) [OF assms(1)] by (simp_all add: count_list_pos)
  have "count_list (tops[i := None]) (Some k) + 1 = count_list tops (Some k)"
    using count_list_update [of i tops None "Some k"] assms by simp
  moreover have "count_list tops (Some k) < 2 ^ 32"
    using count_le_length [of tops "Some k"] tops_okD(1) [OF assms(1)] by linarith
  ultimately show thesis using that [of "count_list (tops[i := None]) (Some k)"] k by simp
qed

lemma count_other_slot:
  assumes "i < length tops" "tops ! i \<noteq> y" "v \<noteq> y"
  shows "count_list (tops[i := v]) y = count_list tops y"
  using count_list_update [of i tops v y] assms by simp

lemma mem_other_slot:
  assumes "i < length tops" "tops ! i \<noteq> y" "v \<noteq> y"
  shows "y \<in> set (tops[i := v]) \<longleftrightarrow> y \<in> set tops"
  using count_other_slot [OF assms] by (metis count_list_pos)

lemma tops_ok_drop_top:
  assumes ok: "tops_ok q tops" and i: "i < length tops" "tops ! i = Some k"
  shows "tops_ok (drop_top k q) (tops[i := None])"
proof -
  obtain c where c: "count_list tops (Some k) = Suc c" "count_list (tops[i := None]) (Some k) = c"
    "c < 2 ^ 32" and k: "k < length q" using slot_count [OF ok i] .
  have cnt: "topCount (q ! k) - 1 = of_nat c" using tops_okD(3) [OF ok k] c(1) by simp
  have mem: "Some k \<in> set (tops[i := None]) \<longleftrightarrow> c \<noteq> 0"
    using c(2) by (metis count_list_pos neq0_conv)
  have tr: "trace (q ! k) \<noteq> None" using tops_okD(4) [OF ok k] i by (metis nth_mem)
  show ?thesis
  proof (rule tops_okI)
    show "length (tops[i := None]) < 2 ^ 32" using tops_okD(1) [OF ok] by simp
  next
    fix j assume "Some j \<in> set (tops[i := None])"
    then have "Some j \<in> set tops" using set_update_subset_insert by fastforce
    then show "j < length (drop_top k q)" using tops_okD(2) [OF ok] by (simp add: drop_top_def Let_def)
  next
    fix j assume j: "j < length (drop_top k q)"
    then have jq: "j < length q" by (simp add: drop_top_def Let_def)
    have other: "drop_top k q ! j = q ! j" if "j \<noteq> k"
      using that by (simp add: drop_top_def Let_def)
    have self: "topCount (drop_top k q ! k) = of_nat c"
      "trace (drop_top k q ! k) = None \<longleftrightarrow> c = 0"
      using k tr of_nat_u32_0 [OF c(3)] unfolding drop_top_def Let_def cnt by simp_all
    show "topCount (drop_top k q ! j) = of_nat (count_list (tops[i := None]) (Some j))"
      using self(1) other c(2) tops_okD(3) [OF ok jq] i count_other_slot [of i tops "Some j" None]
      by (cases "j = k") simp_all
    show "trace (drop_top k q ! j) = None \<longleftrightarrow> Some j \<notin> set (tops[i := None])"
      using self(2) other mem tops_okD(4) [OF ok jq] i mem_other_slot [of i tops "Some j" None]
      by (cases "j = k") simp_all
  qed
qed

lemma tops_ok_take_top:
  assumes ok: "tops_ok q tops" and i: "i < length tops" "tops ! i = None" and s: "s < length q"
  shows "tops_ok (take_top s globalTrace q) (tops[i := Some s])"
proof (rule tops_okI)
  show "length (tops[i := Some s]) < 2 ^ 32" using tops_okD(1) [OF ok] by simp
next
  fix j assume "Some j \<in> set (tops[i := Some s])"
  then have "Some j \<in> set tops \<or> j = s" using set_update_subset_insert by fastforce
  then show "j < length (take_top s globalTrace q)"
    using tops_okD(2) [OF ok] s by (auto simp: take_top_def Let_def)
next
  fix j assume j: "j < length (take_top s globalTrace q)"
  have self: "count_list (tops[i := Some s]) (Some s) = Suc (count_list tops (Some s))"
    using count_list_update [of i tops "Some s" "Some s"] i by simp
  have jq: "j < length q" using j by (simp add: take_top_def Let_def)
  have other: "take_top s globalTrace q ! j = q ! j" if "j \<noteq> s"
    using that by (simp add: take_top_def Let_def)
  have new: "topCount (take_top s globalTrace q ! s) = topCount (q ! s) + 1"
    "trace (take_top s globalTrace q ! s) \<noteq> None"
    using s by (simp_all add: take_top_def Let_def split: option.split)
  show "topCount (take_top s globalTrace q ! j) = of_nat (count_list (tops[i := Some s]) (Some j))"
    using new(1) other self tops_okD(3) [OF ok jq] i count_other_slot [of i tops "Some j" "Some s"]
    by (cases "j = s") simp_all
  show "trace (take_top s globalTrace q ! j) = None \<longleftrightarrow> Some j \<notin> set (tops[i := Some s])"
    using new(2) other tops_okD(4) [OF ok jq] i mem_other_slot [of i tops "Some j" "Some s"]
    by (cases "j = s") (simp_all add: set_update_memI)
qed

text \<open>While a seed collects its slots its stored trace is the one being processed, or none.\<close>

definition trace_fresh :: "nat \<Rightarrow> u8 list \<Rightarrow> seed list \<Rightarrow> bool" where
  "trace_fresh s globalTrace q \<longleftrightarrow> trace (q ! s) \<in> {None, Some (MinimizeBit globalTrace)}"

lemma length_drop_top [simp]: "length (drop_top k q) = length q"
  by (simp add: drop_top_def Let_def)

lemma length_take_top [simp]: "length (take_top s g q) = length q"
  by (simp add: take_top_def Let_def)

lemma length_MinimizeBit [simp]: "length (MinimizeBit g) = length g"
  by (simp add: MinimizeBit_def)

lemma seed_score_drop_take [simp]:
  "map seed_score (drop_top k q) = map seed_score q"
  "map seed_score (take_top s g q) = map seed_score q"
  unfolding drop_top_def take_top_def Let_def
  by (rule map_update_same, simp add: seed_score_def)+

lemma tops_cover_drop_top:
  assumes inv: "queue_inv q tops" and i: "i < length tops" "tops ! i = Some k"
  shows "tops_cover (drop_top k q) (tops[i := None])"
  unfolding tops_cover_iff
proof (intro allI impI)
  fix j l assume j: "j < length (tops[i := None])" "tops[i := None] ! j = Some l"
  then have "j \<noteq> i" and old: "tops ! j = Some l" and jl: "j < length tops"
    by (auto simp: nth_update_iff split: if_splits)
  have ok: "tops_ok q tops" and cov: "tops_cover q tops" using inv by (auto simp: queue_inv_def)
  have ok': "tops_ok (drop_top k q) (tops[i := None])" by (rule tops_ok_drop_top [OF ok i])
  have "Some l \<in> set (tops[i := None])" using j by (metis nth_mem)
  then have tr: "trace (drop_top k q ! l) \<noteq> None" and l: "l < length q"
    using tops_okD(2,4) [OF ok', of l] by auto
  then have "trace (drop_top k q ! l) = trace (q ! l)"
    by (cases "l = k") (auto simp: drop_top_def Let_def split: if_splits)
  then show "\<exists>t. trace (drop_top k q ! l) = Some t \<and> length t = length (tops[i := None]) \<and> t ! j"
    using cov old jl unfolding tops_cover_iff by auto
qed

lemma tops_cover_take_top:
  assumes inv: "queue_inv q tops" and i: "i < length tops" and s: "s < length q"
    and fresh: "trace_fresh s g q" and g: "length g = length tops" "g ! i \<noteq> 0"
  shows "tops_cover (take_top s g q) (tops[i := Some s])"
  unfolding tops_cover_iff
proof (intro allI impI)
  fix j l assume j: "j < length (tops[i := Some s])" "tops[i := Some s] ! j = Some l"
  have self: "trace (take_top s g q ! s) = Some (MinimizeBit g)"
    using fresh s by (auto simp: take_top_def Let_def trace_fresh_def)
  show "\<exists>t. trace (take_top s g q ! l) = Some t \<and> length t = length (tops[i := Some s]) \<and> t ! j"
  proof (cases "j = i")
    case True
    then show ?thesis using j self g i by (simp add: MinimizeBit_def)
  next
    case False
    then obtain t where "trace (q ! l) = Some t" "length t = length tops" "t ! j"
      using j inv by (auto simp: queue_inv_def tops_cover_iff)
    then show ?thesis
      using s by (cases "l = s") (auto simp: take_top_def Let_def)
  qed
qed

lemma trace_fresh_drop_take:
  assumes "trace_fresh s g q"
  shows "trace_fresh s g (drop_top k q)" and "s < length q \<Longrightarrow> trace_fresh s g (take_top s g q)"
  using assms by (auto simp: trace_fresh_def drop_top_def take_top_def Let_def nth_update_iff)

lemma queue_inv_drop_take:
  assumes "queue_inv q tops" "i < length tops" "s < length q" "trace_fresh s g q"
    "length g = length tops" "g ! i \<noteq> 0"
  shows "tops ! i = Some k \<Longrightarrow> queue_inv (take_top s g (drop_top k q)) (tops[i := Some s])"
    and "tops ! i = None \<Longrightarrow> queue_inv (take_top s g q) (tops[i := Some s])"
proof -
  assume k: "tops ! i = Some k"
  let ?q = "drop_top k q" and ?t = "tops[i := None]"
  have "queue_inv ?q ?t"
    using tops_ok_drop_top [of q tops i k] tops_cover_drop_top [of q tops i k] assms k
    by (simp add: queue_inv_def)
  then have "queue_inv (take_top s g ?q) (?t[i := Some s])"
    using tops_ok_take_top [of ?q ?t i s g] tops_cover_take_top [of ?q ?t i s g] assms
    by (simp add: queue_inv_def trace_fresh_drop_take)
  then show "queue_inv (take_top s g (drop_top k q)) (tops[i := Some s])" by simp
next
  assume "tops ! i = None"
  then show "queue_inv (take_top s g q) (tops[i := Some s])"
    using tops_ok_take_top [of q tops i s g] tops_cover_take_top [of q tops i s g] assms
    by (simp add: queue_inv_def)
qed

text \<open>The slot of an index after processing a trace, as a function of the slot before.\<close>

definition better_top :: "nat \<Rightarrow> seed list \<Rightarrow> u8 \<Rightarrow> nat option \<Rightarrow> nat option" where
  "better_top s q b old =
     (if b = 0 then old
      else case old of None \<Rightarrow> Some s | Some k \<Rightarrow> if seed_score (q ! s) > seed_score (q ! k) then Some k else Some s)"

lemma update_top_step_inv:
  assumes inv: "queue_inv q tops" "trace_fresh s g q" "s < length q" "i < length tops"
    "length g = length tops"
    and step: "update_top_step s score g i (q, tops, c) = (q', tops', c')"
    and score: "score = seed_score (q ! s)"
  shows "queue_inv q' tops'" "trace_fresh s g q'" "map seed_score q' = map seed_score q"
    "tops' = tops[i := better_top s q (g ! i) (tops ! i)]" "c \<or> tops' \<noteq> tops \<Longrightarrow> c'"
  using step inv score queue_inv_drop_take [OF inv(1,4,3,2,5)]
  by (auto simp: update_top_step_def better_top_def trace_fresh_drop_take
      split: if_splits option.splits)

lemma update_top_loop_inv:
  assumes "queue_inv q tops" "trace_fresh s g q" "s < length q" "n \<le> length tops"
    "length g = length tops" and score: "score = seed_score (q ! s)"
  shows "\<exists>q' tops' c'. update_top_loop s score g [0..<n] (q, tops, c) = (q', tops', c') \<and>
      queue_inv q' tops' \<and> trace_fresh s g q' \<and> map seed_score q' = map seed_score q \<and>
      tops' = map2 (better_top s q) (take n g) (take n tops) @ drop n tops \<and>
      (c \<or> tops' \<noteq> tops \<longrightarrow> c')"
  using assms
proof (induction n)
  case (Suc n)
  then obtain q' tops' c' where
    loop: "update_top_loop s score g [0..<n] (q, tops, c) = (q', tops', c')"
    and inv: "queue_inv q' tops'" "trace_fresh s g q'" and scores: "map seed_score q' = map seed_score q"
    and tops': "tops' = map2 (better_top s q) (take n g) (take n tops) @ drop n tops"
    and ch: "c \<or> tops' \<noteq> tops \<longrightarrow> c'"
    by auto
  obtain q2 tops2 c2 where step: "update_top_step s score g n (q', tops', c') = (q2, tops2, c2)"
    by (metis prod_cases3)
  have len: "length q' = length q" using scores by (metis length_map)
  have sc: "seed_score (q' ! k) = seed_score (q ! k)" if "k < length q" for k
    using scores len that by (metis nth_map)
  have at: "tops' ! n = tops ! n" "length tops' = length tops"
    using Suc.prems tops' by (simp_all add: nth_append)
  have "tops ! n = Some k \<Longrightarrow> k < length q" for k
    using Suc.prems(1,4) tops_okD(2) unfolding queue_inv_def by (metis Suc_le_eq nth_mem)
  then have same: "better_top s q' (g ! n) (tops' ! n) = better_top s q (g ! n) (tops ! n)"
    using at sc Suc.prems(3) by (auto simp: better_top_def split: option.splits)
  note st = update_top_step_inv [OF inv _ _ _ step]
  have "tops2 = tops'[n := better_top s q (g ! n) (tops ! n)]"
    and rest: "queue_inv q2 tops2" "trace_fresh s g q2" "map seed_score q2 = map seed_score q"
    and ch2: "c' \<or> tops2 \<noteq> tops' \<longrightarrow> c2"
    using st Suc.prems at len sc same scores score by auto
  moreover have "tops'[n := better_top s q (g ! n) (tops ! n)] =
      map2 (better_top s q) (take (Suc n) g) (take (Suc n) tops) @ drop (Suc n) tops"
    using Suc.prems tops'
    by (simp add: take_Suc_conv_app_nth list_update_append Cons_nth_drop_Suc [symmetric])
  ultimately show ?case
    using loop step ch ch2 by (auto simp: update_top_loop_def)
qed (simp add: update_top_loop_def)

lemma UpdateQueueTop_spec:
  assumes inv: "queue_inv (queue s) (queueTop s)" and new: "Some sd \<notin> set (queueTop s)"
    and sd: "sd < length (queue s)" and g: "length g = length (queueTop s)"
  shows "queue_inv (queue (UpdateQueueTop sd g s)) (queueTop (UpdateQueueTop sd g s))"
    and "queueTop (UpdateQueueTop sd g s) = map2 (better_top sd (queue s)) g (queueTop s)"
    and "map seed_score (queue (UpdateQueueTop sd g s)) = map seed_score (queue s)"
    and "scoreChange s \<or> queueTop (UpdateQueueTop sd g s) \<noteq> queueTop s \<Longrightarrow>
      scoreChange (UpdateQueueTop sd g s)"
proof -
  have "tops_ok (queue s) (queueTop s)" using inv by (simp add: queue_inv_def)
  then have "trace_fresh sd g (queue s)"
    using tops_okD(4) [OF _ sd] new by (auto simp: trace_fresh_def)
  from update_top_loop_inv [OF inv this sd order_refl g refl, of "scoreChange s"]
  show "queue_inv (queue (UpdateQueueTop sd g s)) (queueTop (UpdateQueueTop sd g s))"
    and "queueTop (UpdateQueueTop sd g s) = map2 (better_top sd (queue s)) g (queueTop s)"
    and "map seed_score (queue (UpdateQueueTop sd g s)) = map seed_score (queue s)"
    and "scoreChange s \<or> queueTop (UpdateQueueTop sd g s) \<noteq> queueTop s \<Longrightarrow>
      scoreChange (UpdateQueueTop sd g s)"
    using g by (auto simp: UpdateQueueTop_def)
qed

text \<open>Processing a trace changes no other field of the seeds.\<close>

lemma UpdateQueueTop_map:
  assumes "\<And>x a b. f (x\<lparr>topCount := a, trace := b\<rparr>) = f x"
  shows "map f (queue (UpdateQueueTop sd g s)) = map f (queue s)"
proof -
  have dt: "map f (drop_top k q) = map f q" "map f (take_top k g q) = map f q" for k q
    unfolding drop_top_def take_top_def Let_def by (rule map_update_same, simp add: assms)+
  have step: "map f (fst (update_top_step sd sc g i st)) = map f (fst st)" for sc i st
    by (cases st) (simp add: update_top_step_def dt split: option.split)
  have "map f (fst (update_top_loop sd sc g is st)) = map f (fst st)" for sc "is" st
    unfolding update_top_loop_def by (induction "is" arbitrary: st) (simp_all add: step)
  then show ?thesis by (simp add: UpdateQueueTop_def Let_def case_prod_beta)
qed

section \<open>Favored seeds cover the table\<close>

text \<open>Invariant of the culling loop after the indices below \<open>n\<close>.\<close>

definition cull_inv :: "nat option list \<Rightarrow> seed list \<Rightarrow> nat \<Rightarrow> cull_state \<Rightarrow> bool" where
  "cull_inv tops q0 n = (\<lambda>(traceRecord, q, pend).
     length traceRecord = length tops \<and>
     map (\<lambda>sd. sd\<lparr>favored := False\<rparr>) q = map (\<lambda>sd. sd\<lparr>favored := False\<rparr>) q0 \<and>
     (\<forall>i < length tops. traceRecord ! i \<longleftrightarrow>
        (\<exists>k < length q. \<exists>t. favored (q ! k) \<and> trace (q ! k) = Some t \<and> t ! i)) \<and>
     (\<forall>i < n. tops ! i \<noteq> None \<longrightarrow> traceRecord ! i) \<and>
     (\<forall>k < length q. favored (q ! k) \<longrightarrow> Some k \<in> set tops) \<and>
     (pend \<longleftrightarrow> (\<exists>k < length q. favored (q ! k) \<and> \<not> wasFuzzed (q ! k))))"

definition favored_hit :: "seed list \<Rightarrow> nat \<Rightarrow> bool" where
  "favored_hit q i \<longleftrightarrow> (\<exists>sd \<in> set q. favored sd \<and> (case trace sd of None \<Rightarrow> False | Some t \<Rightarrow> t ! i))"

lemma favored_hit_iff:
  "favored_hit q i \<longleftrightarrow> (\<exists>k < length q. \<exists>t. favored (q ! k) \<and> trace (q ! k) = Some t \<and> t ! i)"
proof -
  have "(case trace sd of None \<Rightarrow> False | Some t \<Rightarrow> t ! i) \<longleftrightarrow> (\<exists>t. trace sd = Some t \<and> t ! i)" for sd
    by (cases "trace sd") simp_all
  then show ?thesis by (auto simp: favored_hit_def set_conv_nth)
qed

lemma unfavored_eqD:
  assumes "map (\<lambda>sd. sd\<lparr>favored := False\<rparr>) q = map (\<lambda>sd. sd\<lparr>favored := False\<rparr>) q0"
  shows "length q = length q0"
    and "k < length q \<Longrightarrow> trace (q ! k) = trace (q0 ! k)"
    and "k < length q \<Longrightarrow> wasFuzzed (q ! k) = wasFuzzed (q0 ! k)"
proof -
  show len: "length q = length q0" using assms by (metis length_map)
  assume "k < length q"
  then have "(q ! k)\<lparr>favored := False\<rparr> = (q0 ! k)\<lparr>favored := False\<rparr>"
    using assms len by (metis nth_map)
  then show "trace (q ! k) = trace (q0 ! k)" "wasFuzzed (q ! k) = wasFuzzed (q0 ! k)"
    by (metis seed.update_convs(2) seed.surjective seed.select_convs(8) seed.ext_inject,
        metis seed.update_convs(2) seed.surjective seed.select_convs(1) seed.ext_inject)
qed

lemma set_favored_nth:
  fixes q :: "seed list"
  assumes "k < length q"
  shows "favored (q[k := (q ! k)\<lparr>favored := True\<rparr>] ! j) \<longleftrightarrow> j = k \<or> favored (q ! j)"
    and "trace (q[k := (q ! k)\<lparr>favored := True\<rparr>] ! j) = trace (q ! j)"
    and "wasFuzzed (q[k := (q ! k)\<lparr>favored := True\<rparr>] ! j) = wasFuzzed (q ! j)"
  using assms by (simp_all add: nth_update_iff)

lemma cull_step_inv:
  assumes inv: "queue_inv q0 tops" and n: "n < length tops" and st: "cull_inv tops q0 n (r, q, p)"
  shows "cull_inv tops q0 (Suc n) (cull_step trace tops n (r, q, p))"
proof (cases "tops ! n = None \<or> r ! n")
  case True
  then have "cull_step trace tops n (r, q, p) = (r, q, p)"
    by (auto simp: cull_step_def split: option.split)
  then show ?thesis using st True by (auto simp: cull_inv_def less_Suc_eq)
next
  case False
  then obtain k where k: "tops ! n = Some k" and nr: "\<not> r ! n" by auto
  have same: "map (\<lambda>sd. sd\<lparr>favored := False\<rparr>) q = map (\<lambda>sd. sd\<lparr>favored := False\<rparr>) q0"
    and rec: "\<forall>i < length tops. r ! i \<longleftrightarrow>
        (\<exists>k < length q. \<exists>t. favored (q ! k) \<and> trace (q ! k) = Some t \<and> t ! i)"
    and len: "length r = length tops" using st by (auto simp: cull_inv_def)
  have kt: "Some k \<in> set tops" using k n by (metis nth_mem)
  then have kq: "k < length q"
    using inv tops_okD(2) unfolding queue_inv_def by (metis unfavored_eqD(1) [OF same])
  obtain t where t: "trace (q0 ! k) = Some t" "length t = length tops" "t ! n"
    using inv k n unfolding queue_inv_def tops_cover_iff by blast
  then have tq: "trace (q ! k) = Some t" using unfavored_eqD(2) [OF same kq] by simp
  let ?q = "q[k := (q ! k)\<lparr>favored := True\<rparr>]" and ?r = "map2 (\<or>) r t"
  have step: "cull_step trace tops n (r, q, p) = (?r, ?q, p \<or> \<not> wasFuzzed (q ! k))"
    using k nr tq by (simp add: cull_step_def)
  have or: "?r ! i \<longleftrightarrow> r ! i \<or> t ! i" if "i < length tops" for i
    using that len t(2) by simp
  have "map (\<lambda>sd. sd\<lparr>favored := False\<rparr>) ?q = map (\<lambda>sd. sd\<lparr>favored := False\<rparr>) q"
    by (rule map_update_same) simp
  then have same': "map (\<lambda>sd. sd\<lparr>favored := False\<rparr>) ?q = map (\<lambda>sd. sd\<lparr>favored := False\<rparr>) q0"
    using same by simp
  have rec': "?r ! i \<longleftrightarrow> (\<exists>k < length ?q. \<exists>t. favored (?q ! k) \<and> trace (?q ! k) = Some t \<and> t ! i)"
    if i: "i < length tops" for i
  proof -
    have "(\<exists>j < length ?q. \<exists>t. favored (?q ! j) \<and> trace (?q ! j) = Some t \<and> t ! i) \<longleftrightarrow>
        (\<exists>j < length q. \<exists>t. (j = k \<or> favored (q ! j)) \<and> trace (q ! j) = Some t \<and> t ! i)"
      by (simp only: set_favored_nth [OF kq] length_list_update)
    also have "\<dots> \<longleftrightarrow> t ! i \<or> r ! i" using rec i tq kq by auto
    finally show ?thesis using or [OF i] by blast
  qed
  have pend': "p \<or> \<not> wasFuzzed (q ! k) \<longleftrightarrow> (\<exists>j < length ?q. favored (?q ! j) \<and> \<not> wasFuzzed (?q ! j))"
    using st kq unfolding set_favored_nth [OF kq] length_list_update by (auto simp: cull_inv_def)
  have top': "\<forall>j < length ?q. favored (?q ! j) \<longrightarrow> Some j \<in> set tops"
    using st kt unfolding set_favored_nth [OF kq] length_list_update by (auto simp: cull_inv_def)
  have done': "\<forall>i < Suc n. tops ! i \<noteq> None \<longrightarrow> ?r ! i"
    using st or t(3) n by (auto simp: cull_inv_def less_Suc_eq)
  show ?thesis
    unfolding step cull_inv_def using same' rec' pend' top' done' len t(2) by simp
qed

lemma cull_loop_inv:
  assumes "queue_inv q0 tops" "n \<le> length tops" "cull_inv tops q0 0 st"
  shows "cull_inv tops q0 n (cull_loop trace tops [0..<n] st)"
  using assms(2)
proof (induction n)
  case (Suc n)
  obtain r q p where "cull_loop trace tops [0..<n] st = (r, q, p)" by (metis prod_cases3)
  then show ?case
    using Suc cull_step_inv [OF assms(1), of n r q p] by (simp add: cull_loop_def)
qed (use assms(3) in \<open>simp add: cull_loop_def\<close>)

lemma CullQueue_spec:
  assumes inv: "queue_inv (queue s) (queueTop s)" and change: "scoreChange s"
    and build: "NO_CONCURRENCY_FUZZ E"
  shows "\<exists>r. cull_inv (queueTop s) (queue s) (length (queueTop s))
           (r, queue (CullQueue E s), pendFavor (CullQueue E s))"
proof -
  let ?n = "length (queueTop s)" and ?q = "map (\<lambda>sd. sd\<lparr>favored := False\<rparr>) (queue s)"
  obtain r q p where loop: "cull_loop trace (queueTop s) [0..<?n] (replicate ?n False, ?q, False) = (r, q, p)"
    by (metis prod_cases3)
  have "cull_inv (queueTop s) (queue s) 0 (replicate ?n False, ?q, False)"
    by (auto simp: cull_inv_def)
  from cull_loop_inv [OF inv order_refl this] show ?thesis
    using loop change build by (auto simp: CullQueue_def)
qed

lemma CullQueue_favored:
  assumes "queue_inv (queue s) (queueTop s)" and "scoreChange s" and "NO_CONCURRENCY_FUZZ E"
  shows "(\<forall>i < length (queueTop s). queueTop s ! i \<noteq> None \<longrightarrow> favored_hit (queue (CullQueue E s)) i) \<and>
    (\<forall>k < length (queue (CullQueue E s)). favored (queue (CullQueue E s) ! k) \<longrightarrow> Some k \<in> set (queueTop s)) \<and>
    (pendFavor (CullQueue E s) \<longleftrightarrow> (\<exists>sd \<in> set (queue (CullQueue E s)). favored sd \<and> \<not> wasFuzzed sd))"
proof -
  obtain r where r: "cull_inv (queueTop s) (queue s) (length (queueTop s))
      (r, queue (CullQueue E s), pendFavor (CullQueue E s))" using CullQueue_spec [OF assms] by blast
  let ?q = "queue (CullQueue E s)"
  have rec: "\<forall>i < length (queueTop s). r ! i \<longleftrightarrow> favored_hit ?q i"
    and tops: "\<forall>i < length (queueTop s). queueTop s ! i \<noteq> None \<longrightarrow> r ! i"
    and own: "\<forall>k < length ?q. favored (?q ! k) \<longrightarrow> Some k \<in> set (queueTop s)"
    and pend: "pendFavor (CullQueue E s) \<longleftrightarrow> (\<exists>k < length ?q. favored (?q ! k) \<and> \<not> wasFuzzed (?q ! k))"
    using r unfolding cull_inv_def prod.case favored_hit_iff by - (elim conjE, assumption)+
  have "(\<exists>k < length ?q. favored (?q ! k) \<and> \<not> wasFuzzed (?q ! k)) \<longleftrightarrow>
      (\<exists>sd \<in> set ?q. favored sd \<and> \<not> wasFuzzed sd)" by (metis in_set_conv_nth)
  then show ?thesis using rec tops own pend by blast
qed

lemma favored_cover_indices:
  assumes "queue_inv (queue s) (queueTop s)" and "scoreChange s" and "NO_CONCURRENCY_FUZZ E"
  shows "\<forall>i < length (queueTop s). queueTop s ! i \<noteq> None \<longrightarrow> favored_hit (queue (CullQueue E s)) i"
  using CullQueue_favored [OF assms] by blast

section \<open>The best seed of every index\<close>

text \<open>
  After the traces of several seeds have been processed, starting with an empty table, the
  slot of an index names a seed of least score among those that hit the index.
\<close>

definition best_for :: "seed list \<Rightarrow> (nat \<times> u8 list) list \<Rightarrow> nat \<Rightarrow> nat option \<Rightarrow> bool" where
  "best_for q cals i slot \<longleftrightarrow>
     (case slot of
        None \<Rightarrow> (\<forall>(_, g) \<in> set cals. g ! i = 0)
      | Some k \<Rightarrow> (\<exists>(k', g) \<in> set cals. k' = k \<and> g ! i \<noteq> 0) \<and>
                  (\<forall>(k', g) \<in> set cals. g ! i \<noteq> 0 \<longrightarrow> seed_score (q ! k) \<le> seed_score (q ! k')))"

lemma best_for_better_top:
  "best_for q cals i slot \<Longrightarrow> best_for q (cals @ [(sd, g)]) i (better_top sd q (g ! i) slot)"
  by (cases "g ! i = 0"; cases slot)
    (auto simp: best_for_def better_top_def split: prod.splits intro: order_trans less_imp_le)

lemma best_for_scores:
  assumes "map seed_score q' = map seed_score q" "\<forall>(k, g) \<in> set cals. k < length q"
  shows "best_for q' cals i slot = best_for q cals i slot"
proof -
  have len: "length q' = length q" using assms(1) by (metis length_map)
  have sc: "seed_score (q' ! k) = seed_score (q ! k)" if "k < length q" for k
    using that assms(1) len by (metis nth_map)
  show ?thesis
  proof (cases slot)
    case (Some k)
    have "(\<forall>(k', g) \<in> set cals. g ! i \<noteq> 0 \<longrightarrow> seed_score (q' ! k) \<le> seed_score (q' ! k')) \<longleftrightarrow>
        (\<forall>(k', g) \<in> set cals. g ! i \<noteq> 0 \<longrightarrow> seed_score (q ! k) \<le> seed_score (q ! k'))"
      if "k < length q" using that assms(2) sc by (intro ball_cong refl) auto
    moreover have "k < length q" if "\<exists>(k', g) \<in> set cals. k' = k \<and> g ! i \<noteq> 0"
      using that assms(2) by auto
    ultimately show ?thesis unfolding Some best_for_def option.case by blast
  qed (simp add: best_for_def)
qed

definition update_tops :: "(nat \<times> u8 list) list \<Rightarrow> fuzzer \<Rightarrow> fuzzer" where
  "update_tops cals s = fold (\<lambda>(sd, g). UpdateQueueTop sd g) cals s"

definition tops_empty :: "fuzzer \<Rightarrow> bool" where
  "tops_empty s \<longleftrightarrow>
     length (queueTop s) < 2 ^ 32 \<and> (\<forall>x \<in> set (queueTop s). x = None) \<and>
     (\<forall>sd \<in> set (queue s). topCount sd = 0 \<and> trace sd = None)"

definition cals_ok :: "fuzzer \<Rightarrow> (nat \<times> u8 list) list \<Rightarrow> bool" where
  "cals_ok s cals \<longleftrightarrow> distinct (map fst cals) \<and>
     (\<forall>(k, g) \<in> set cals. k < length (queue s) \<and> length g = length (queueTop s))"

lemma tops_empty_inv: "tops_empty s \<Longrightarrow> queue_inv (queue s) (queueTop s)"
proof -
  assume e: "tops_empty s"
  have none: "Some k \<notin> set (queueTop s)" for k using e by (auto simp: tops_empty_def)
  then have "count_list (queueTop s) (Some k) = 0" for k by (metis count_list_pos neq0_conv)
  then have "tops_ok (queue s) (queueTop s)"
    using e none by (intro tops_okI) (auto simp: tops_empty_def)
  moreover have "tops_cover (queue s) (queueTop s)"
    unfolding tops_cover_iff using none by (metis nth_mem)
  ultimately show ?thesis by (simp add: queue_inv_def)
qed

lemma update_tops_best_aux:
  assumes "tops_empty s" "cals_ok s cals"
  shows "queue_inv (queue (update_tops cals s)) (queueTop (update_tops cals s)) \<and>
    map seed_score (queue (update_tops cals s)) = map seed_score (queue s) \<and>
    length (queueTop (update_tops cals s)) = length (queueTop s) \<and>
    (\<forall>i < length (queueTop s). best_for (queue s) cals i (queueTop (update_tops cals s) ! i))"
  using assms(2)
proof (induction cals rule: rev_induct)
  case Nil
  then show ?case
    using assms(1) tops_empty_inv [OF assms(1)]
    by (auto simp: update_tops_def best_for_def tops_empty_def all_set_conv_all_nth)
next
  case (snoc c cals)
  obtain sd g where c: "c = (sd, g)" by (cases c)
  let ?t = "update_tops cals s"
  have pre: "cals_ok s cals" and sd: "sd < length (queue s)" "length g = length (queueTop s)"
    and fresh: "sd \<notin> fst ` set cals" using snoc.prems by (auto simp: cals_ok_def c)
  note IH = snoc.IH [OF pre]
  have len: "length (queue ?t) = length (queue s)" using IH by (metis length_map)
  have new: "Some sd \<notin> set (queueTop ?t)"
  proof
    assume "Some sd \<in> set (queueTop ?t)"
    then obtain i where "i < length (queueTop s)" "queueTop ?t ! i = Some sd"
      using IH by (metis in_set_conv_nth)
    then have "best_for (queue s) cals i (Some sd)" using IH by metis
    then show False using fresh by (force simp: best_for_def)
  qed
  have sp: "queue_inv (queue (UpdateQueueTop sd g ?t)) (queueTop (UpdateQueueTop sd g ?t))"
    "queueTop (UpdateQueueTop sd g ?t) = map2 (better_top sd (queue ?t)) g (queueTop ?t)"
    "map seed_score (queue (UpdateQueueTop sd g ?t)) = map seed_score (queue ?t)"
    using UpdateQueueTop_spec [of ?t sd g] IH new sd len by auto
  have ks: "\<forall>(k, g) \<in> set (cals @ [c]). k < length (queue s)"
    using snoc.prems by (auto simp: cals_ok_def)
  have "best_for (queue s) (cals @ [c]) i (better_top sd (queue ?t) (g ! i) (queueTop ?t ! i))"
    if i: "i < length (queueTop s)" for i
  proof -
    have "best_for (queue ?t) cals i (queueTop ?t ! i)"
      using best_for_scores [of "queue ?t" "queue s" cals] IH i ks by auto
    then have "best_for (queue ?t) (cals @ [c]) i (better_top sd (queue ?t) (g ! i) (queueTop ?t ! i))"
      unfolding c by (rule best_for_better_top)
    then show ?thesis using best_for_scores [of "queue ?t" "queue s" "cals @ [c]"] IH ks by blast
  qed
  then show ?case
    using sp IH sd by (simp add: update_tops_def c)
qed

section \<open>Bounds of the timeouts\<close>

lemma init_stats_hang: "hang_tmout (init_stats s) \<le> EXEC_TIMEOUT"
  by (simp add: init_stats_def Let_def)

lemma calibrated_tmout_bounds:
  "calibrated_tmout avg_us max_us \<le> EXEC_TIMEOUT" "EXEC_TM_ROUND dvd calibrated_tmout avg_us max_us"
proof -
  define t where "t x = to_u32 (to_u32 (x + EXEC_TM_ROUND) div EXEC_TM_ROUND * EXEC_TM_ROUND)" for x
  have "to_u32 y div EXEC_TM_ROUND * EXEC_TM_ROUND \<le> to_u32 y" for y
    by simp
  then have "t x = to_u32 (x + EXEC_TM_ROUND) div EXEC_TM_ROUND * EXEC_TM_ROUND" for x
    unfolding t_def using to_u32_less order_le_less_trans by (intro to_u32_small) blast
  then have dvd: "EXEC_TM_ROUND dvd t x" for x by simp
  obtain x where x: "calibrated_tmout avg_us max_us = (if t x > EXEC_TIMEOUT then EXEC_TIMEOUT else t x)"
    unfolding t_def calibrated_tmout_def Let_def by blast
  show "calibrated_tmout avg_us max_us \<le> EXEC_TIMEOUT" unfolding x by simp
  have "EXEC_TM_ROUND dvd EXEC_TIMEOUT" by (simp add: EXEC_TIMEOUT_def EXEC_TM_ROUND_def)
  then show "EXEC_TM_ROUND dvd calibrated_tmout avg_us max_us" unfolding x using dvd [of x] by simp
qed

lemma init_stats_tmouts:
  "if timeout_given s then exec_tmout (init_stats s) = exec_tmout s
   else \<exists>a m. exec_tmout (init_stats s) = calibrated_tmout a m"
  by (simp add: init_stats_def Let_def) blast

section \<open>Properties\<close>

text \<open>A small state for concrete inputs: two seeds, a map of four indices, an empty table.\<close>

definition two_seeds :: fuzzer where
  "two_seeds =
     (initial_fuzzer 4 0 0 0 0 Map.empty (\<lambda>_. 0) (\<lambda>_. 0))
       \<lparr>queue := [(new_seed ''a'' 3)\<lparr>execTime := 5\<rparr>, (new_seed ''b'' 2)\<lparr>execTime := 6\<rparr>]\<rparr>"

lemma two_seeds_simps:
  "queue two_seeds = [(new_seed ''a'' 3)\<lparr>execTime := 5\<rparr>, (new_seed ''b'' 2)\<lparr>execTime := 6\<rparr>]"
  "queueTop two_seeds = [None, None, None, None]"
  "concurrent_queue_top two_seeds = [None, None, None, None]"
  "scoreChange two_seeds = False"
proof -
  have four: "replicate 4 None = [None, None, None, None]" by (simp add: numeral_eq_Suc)
  show "queue two_seeds = [(new_seed ''a'' 3)\<lparr>execTime := 5\<rparr>, (new_seed ''b'' 2)\<lparr>execTime := 6\<rparr>]"
    "queueTop two_seeds = [None, None, None, None]"
    "concurrent_queue_top two_seeds = [None, None, None, None]"
    "scoreChange two_seeds = False"
    by (simp_all add: two_seeds_def initial_fuzzer_def four)
qed

lemma two_seeds_empty: "tops_empty two_seeds"
  by (simp add: tops_empty_def two_seeds_simps new_seed_def)

definition culled_example :: fuzzer where
  "culled_example = two_seeds\<lparr>queueTop := [None, Some 1, None, Some 1],
      queue := [new_seed ''a'' 3, (new_seed ''b'' 2)\<lparr>topCount := 2, trace := Some [False, True, False, True]\<rparr>],
      scoreChange := True\<rparr>"

text \<open>
  C6: processing the trace of a seed that has no slot yet keeps the table consistent.  Every
  slot names a seed of the queue, the counters are the numbers of slots, the stored traces
  (freed exactly when the counter reaches zero) are those of seeds with a slot, and they
  contain the indices the seed is best at.
\<close>

theorem UpdateQueueTop_keeps_queue_inv:
  assumes "queue_inv (queue s) (queueTop s)" and "Some sd \<notin> set (queueTop s)"
    and "sd < length (queue s)" and "length g = length (queueTop s)"
  shows "queue_inv (queue (UpdateQueueTop sd g s)) (queueTop (UpdateQueueTop sd g s))"
  using UpdateQueueTop_spec(1) [OF assms] .

theorem UpdateQueueTop_keeps_queue_inv_witness:
  "queue_inv (queue (UpdateQueueTop 1 [1, 0, 4, 0] two_seeds))
     (queueTop (UpdateQueueTop 1 [1, 0, 4, 0] two_seeds))"
  by (rule UpdateQueueTop_keeps_queue_inv)
    (rule tops_empty_inv [OF two_seeds_empty], simp_all add: two_seeds_simps)

text \<open>
  C7: after the traces of distinct seeds have been processed from an empty table, every index
  hit by one of them holds a seed that hits it and has the least score
  (execution time times length) among those that do; the other slots stay empty.
\<close>

theorem queueTop_holds_best_seed:
  assumes "tops_empty s" and "cals_ok s cals" and "i < length (queueTop s)"
  shows "best_for (queue s) cals i (queueTop (update_tops cals s) ! i)"
  using update_tops_best_aux [OF assms(1,2)] assms(3) by blast

theorem queueTop_holds_best_seed_witness:
  "best_for (queue two_seeds) [(0, [1, 1, 0, 0]), (1, [0, 1, 1, 0])] 1
     (queueTop (update_tops [(0, [1, 1, 0, 0]), (1, [0, 1, 1, 0])] two_seeds) ! 1)"
  by (rule queueTop_holds_best_seed) (simp_all add: two_seeds_empty cals_ok_def two_seeds_simps)

text \<open>
  C8: after culling, the favored seeds together cover every index that has a best seed, only
  best seeds are favored, and \<open>pendFavor\<close> says whether a favored seed is still to be fuzzed.
\<close>

theorem CullQueue_favored_cover:
  assumes "queue_inv (queue s) (queueTop s)" and "scoreChange s" and "NO_CONCURRENCY_FUZZ E"
  shows "(\<forall>i < length (queueTop s). queueTop s ! i \<noteq> None \<longrightarrow> favored_hit (queue (CullQueue E s)) i) \<and>
    (\<forall>k < length (queue (CullQueue E s)). favored (queue (CullQueue E s) ! k) \<longrightarrow> Some k \<in> set (queueTop s)) \<and>
    (pendFavor (CullQueue E s) \<longleftrightarrow> (\<exists>sd \<in> set (queue (CullQueue E s)). favored sd \<and> \<not> wasFuzzed sd))"
  by (rule CullQueue_favored [OF assms])

theorem CullQueue_favored_cover_witness:
  "favored_hit (queue (CullQueue plain_env culled_example)) 3"
proof -
  have "queue_inv (queue culled_example) (queueTop culled_example)"
    by (simp add: culled_example_def queue_inv_def tops_ok_def tops_cover_def new_seed_def upt_rec)
  then show ?thesis
    using CullQueue_favored_cover [of culled_example plain_env]
    by (simp add: culled_example_def plain_env_def)
qed

text \<open>
  The timeouts stay within the configured maximum.  A timeout derived from the calibration
  is a multiple of the rounding step, and the timeout that tells a hang from a slow run never
  exceeds the maximum.
\<close>

theorem init_stats_bounds:
  "hang_tmout (init_stats s) \<le> EXEC_TIMEOUT \<and>
   (if timeout_given s then exec_tmout (init_stats s) = exec_tmout s
    else exec_tmout (init_stats s) \<le> EXEC_TIMEOUT \<and> EXEC_TM_ROUND dvd exec_tmout (init_stats s))"
  using init_stats_hang [of s] init_stats_tmouts [of s] calibrated_tmout_bounds by metis

end
