(* ===== verification/Fault_Units.thy ===== *)
theory Fault_Units
  imports Seed_Queue
begin

text \<open>
  Fault injection points (\<open>FaultInjectionEngin.cpp\<close>): an error list has one byte per
  point, a fault unit is the set of points switched on, and the fault units that led to a crash
  are remembered so that only units containing none of them are tried again.
\<close>

section \<open>Error lists\<close>

definition are_errors_triggered :: "u8 list \<Rightarrow> u8 list \<Rightarrow> nat \<Rightarrow> bool" where
  "are_errors_triggered error_list error_trace len =
     list_ex (\<lambda>i. error_list ! i \<noteq> 0 \<and> error_trace ! i \<noteq> 0) [0..<len]"

definition show_bit :: "u8 list \<Rightarrow> nat \<Rightarrow> u8" where
  "show_bit mem bit_loc = mem ! bit_loc"

definition flip_bit :: "u8 list \<Rightarrow> nat \<Rightarrow> u8 list" where
  "flip_bit mem bit_loc = mem[bit_loc := 1 - mem ! bit_loc]"

definition fault_unit_of :: "u8 list \<Rightarrow> nat set" where
  "fault_unit_of error_list = fold (\<lambda>i fu. if error_list ! i = 1 then insert i fu else fu) [0..<length error_list] {}"

definition is_unique_fault :: "nat set list \<Rightarrow> u8 list \<Rightarrow> bool" where
  "is_unique_fault fus error_list =
     (let fu = fault_unit_of error_list
      in \<not> list_ex (\<lambda>fu_test. \<forall>num \<in> fu_test. num \<in> fu) fus)"

definition save_crashed_fu :: "u8 list \<Rightarrow> fuzzer \<Rightarrow> fuzzer" where
  "save_crashed_fu error_list s = s\<lparr>fu_list := fu_list s @ [fault_unit_of error_list]\<rparr>"

section \<open>Lemmas\<close>

lemma fold_insert_filter:
  "fold (\<lambda>i fu. if P i then insert i fu else fu) xs A = A \<union> {i \<in> set xs. P i}"
  by (induction xs arbitrary: A) auto

lemma fault_unit_of_eq: "fault_unit_of el = {i. i < length el \<and> el ! i = 1}"
  by (auto simp: fault_unit_of_def fold_insert_filter)

lemma is_unique_fault_iff:
  "is_unique_fault fus el \<longleftrightarrow> (\<forall>fu \<in> set fus. \<not> fu \<subseteq> fault_unit_of el)"
  by (auto simp: is_unique_fault_def Let_def list_ex_iff)

lemma flip_bit_twice [simp]: "flip_bit (flip_bit mem i) i = mem"
  by (cases "i < length mem") (simp_all add: flip_bit_def list_update_beyond)

lemma length_flip_bit [simp]: "length (flip_bit mem i) = length mem"
  by (simp add: flip_bit_def)

lemma fault_unit_of_flip:
  "i < length el \<Longrightarrow> el ! i = 0 \<Longrightarrow> fault_unit_of (flip_bit el i) = insert i (fault_unit_of el)"
  by (auto simp: fault_unit_of_eq flip_bit_def nth_list_update split: if_splits)

text \<open>
  Units are saved only when they are unique, so no saved unit contains one saved before it.
\<close>

definition fu_minimal :: "nat set list \<Rightarrow> bool" where
  "fu_minimal fus \<longleftrightarrow> (\<forall>j < length fus. \<forall>i < j. \<not> fus ! i \<subseteq> fus ! j)"

lemma fu_minimal_save:
  assumes "fu_minimal (fu_list s)" and "is_unique_fault (fu_list s) el"
  shows "fu_minimal (fu_list (save_crashed_fu el s))"
  using assms by (auto simp: fu_minimal_def save_crashed_fu_def is_unique_fault_iff nth_append less_Suc_eq)

lemma saved_not_unique:
  assumes "fault_unit_of el \<subseteq> fault_unit_of el'"
  shows "\<not> is_unique_fault (fu_list (save_crashed_fu el s)) el'"
  using assms by (auto simp: save_crashed_fu_def is_unique_fault_iff)

end
