(* ===== verification/Delay_Matrix.thy ===== *)
theory Delay_Matrix
  imports Fuzz_State
begin

text \<open>
  Thread schedules (\<open>DelayInsertionEngin.cpp\<close>): a matrix is a sequence of pairs of hashes
  of program points that ends at the first pair of zeros.  Two pairs are the same schedule when
  they have the same hashes in either order.
\<close>

section \<open>Hashes and matrices\<close>

function hash_fold :: "u64 \<Rightarrow> u64 \<Rightarrow> u64" where
  "hash_fold hash_sum new_hash =
     (if hash_sum \<noteq> 0 then hash_fold (drop_bit 4 hash_sum) (131 * new_hash + (hash_sum XOR 15)) else new_hash)"
  by pat_completeness auto

lemma drop_bit_less_u64: "(w :: u64) \<noteq> 0 \<Longrightarrow> unat (drop_bit 4 w) < unat w"
proof -
  assume "w \<noteq> 0"
  then have "0 < unat w" by (simp add: unat_gt_0)
  then show ?thesis by (simp add: unat_drop_bit_eq drop_bit_nat_def)
qed

termination hash_fold
  by (relation "measure (\<lambda>(h, _). unat h)") (simp_all add: drop_bit_less_u64)

declare hash_fold.simps [simp del]

definition hashes2hash :: "u64 \<Rightarrow> u64 \<Rightarrow> u64" where
  "hashes2hash h1 h2 = hash_fold (h1 + h2) 0"

definition is_zero_element :: "matrix_element \<Rightarrow> bool" where
  "is_zero_element m \<longleftrightarrow> hash_1 m = 0 \<and> hash_2 m = 0"

primrec num_of_matrix_elemet :: "matrix_element list \<Rightarrow> nat" where
  "num_of_matrix_elemet [] = 0"
| "num_of_matrix_elemet (m # ms) = (if is_zero_element m then 0 else Suc (num_of_matrix_elemet ms))"

definition compare_matrix_element :: "matrix_element \<Rightarrow> matrix_element \<Rightarrow> bool" where
  "compare_matrix_element m1 m2 \<longleftrightarrow>
     hash_1 m1 = hash_1 m2 \<and> hash_2 m1 = hash_2 m2 \<or> hash_1 m1 = hash_2 m2 \<and> hash_2 m1 = hash_1 m2"

text \<open>The part of a matrix that a loop which stops at the first pair of zeros visits.\<close>

definition used_part :: "matrix_element list \<Rightarrow> matrix_element list" where
  "used_part ms = takeWhile (\<lambda>m. \<not> is_zero_element m) ms"

text \<open>
  The outer loop stops on a test that mixes the travel matrix and the control matrix, as in the
  code.
\<close>

fun control_triggered_loop :: "matrix_element list \<Rightarrow> matrix_element list \<Rightarrow> matrix_element list \<Rightarrow> bool" where
  "control_triggered_loop (c # cs) (t # ts) travel =
     (if hash_1 t = 0 \<and> hash_2 c = 0 then False
      else if list_ex (compare_matrix_element c) (used_part travel) then True
      else control_triggered_loop cs ts travel)"
| "control_triggered_loop _ _ travel = False"

definition is_control_matrix_triggered :: "matrix_element list \<Rightarrow> matrix_element list \<Rightarrow> bool" where
  "is_control_matrix_triggered tmp_control_matrix travel = control_triggered_loop tmp_control_matrix travel travel"

definition has_new_travel_matrix_element :: "matrix_element list \<Rightarrow> u64 set \<Rightarrow> bool \<times> u64 set" where
  "has_new_travel_matrix_element travel visited =
     fold (\<lambda>m (flag, visited).
        let hash = hashes2hash (hash_1 m) (hash_2 m)
        in if hash \<in> visited then (flag, visited) else (True, insert hash visited))
       (used_part travel) (False, visited)"

text \<open>The bytes of a matrix in memory.\<close>

definition matrix_bytes :: "matrix_element list \<Rightarrow> u8 list" where
  "matrix_bytes ms = concat (map (\<lambda>m. le_bytes 8 (hash_1 m) @ le_bytes 8 (hash_2 m)) ms)"

section \<open>Lemmas\<close>

lemma compare_matrix_element_equiv:
  "compare_matrix_element a a" "compare_matrix_element a b \<longleftrightarrow> compare_matrix_element b a"
  "compare_matrix_element a b \<Longrightarrow> compare_matrix_element b c \<Longrightarrow> compare_matrix_element a c"
  by (auto simp: compare_matrix_element_def)

lemma hashes2hash_symmetric: "compare_matrix_element a b \<Longrightarrow>
    hashes2hash (hash_1 a) (hash_2 a) = hashes2hash (hash_1 b) (hash_2 b)"
  by (auto simp: compare_matrix_element_def hashes2hash_def add.commute)

lemma num_of_matrix_elemet_eq: "num_of_matrix_elemet ms = length (used_part ms)"
  by (induction ms) (simp_all add: used_part_def)

definition travel_hashes :: "matrix_element list \<Rightarrow> u64 set" where
  "travel_hashes travel = set (map (\<lambda>m. hashes2hash (hash_1 m) (hash_2 m)) (used_part travel))"

lemma has_new_travel_matrix_element_eq:
  "has_new_travel_matrix_element travel visited =
     (\<not> travel_hashes travel \<subseteq> visited, visited \<union> travel_hashes travel)"
proof -
  have "fold (\<lambda>m (flag, visited).
        let hash = hashes2hash (hash_1 m) (hash_2 m)
        in if hash \<in> visited then (flag, visited) else (True, insert hash visited)) ms (b, T) =
      (b \<or> \<not> (\<lambda>m. hashes2hash (hash_1 m) (hash_2 m)) ` set ms \<subseteq> T,
       T \<union> (\<lambda>m. hashes2hash (hash_1 m) (hash_2 m)) ` set ms)" for ms b T
    by (induction ms arbitrary: b T) (auto simp: Let_def)
  from this [of "used_part travel" False visited] show ?thesis
    unfolding has_new_travel_matrix_element_def travel_hashes_def by simp
qed

lemma control_triggered_sound:
  "control_triggered_loop cs ts travel \<Longrightarrow>
     \<exists>c \<in> set cs. \<exists>t \<in> set (used_part travel). compare_matrix_element c t"
  by (induction cs ts travel rule: control_triggered_loop.induct) (auto simp: list_ex_iff split: if_splits)

end
