(* ===== verification/Test_Running.thy ===== *)
theory Test_Running
  imports Fault_Units Delay_Matrix "HOL-Library.Sublist"
begin

text \<open>
  Running test cases (\<open>TestRunning.cpp\<close>): one execution of the target
  (\<open>ExecuteCase\<close>, the \<open>no_forkserver\<close> path that the program always takes),
  calibration of the initial seeds (\<open>CalibrateCase\<close>, \<open>DryRunning\<close>), the
  bookkeeping of crashes and hangs, the decision to keep a test case
  (\<open>AddInterestingSeed\<close>) and the unit every fuzzing stage is made of (\<open>FuzzUnit\<close>).
\<close>

section \<open>One execution\<close>

definition clear_low_u32 :: "u64 \<Rightarrow> u64" where
  "clear_low_u32 w = w AND NOT 0xffffffff"

definition reset_before_run :: "fuzz_env \<Rightarrow> fuzzer \<Rightarrow> fuzzer" where
  "reset_before_run E s =
     (let s = s\<lparr>variableStateChangeCount := clear_low_u32 (variableStateChangeCount s),
               concurrentFunctionCountVar := 0, tickNum := 0,
               globalTraceBit := replicate (length (globalTraceBit s)) 0,
               errorTraced := replicate (length (errorTraced s)) 0,
               branchTraceBit := replicate (length (branchTraceBit s)) 0\<rparr>
      in if NO_CONCURRENCY_FUZZ E then s
         else s\<lparr>adjacency_matrix := replicate (length (adjacency_matrix s)) zero_element,
                travel_matrix := replicate (length (travel_matrix s)) zero_element\<rparr>)"

definition run_verdict :: "exec_result \<Rightarrow> fault" where
  "run_verdict r =
     (case er_status r of
        Signaled killSignal \<Rightarrow> if er_timed_out r \<and> killSignal = 9 then FAULT_TMOUT else FAULT_CRASH
      | _ \<Rightarrow> FAULT_NONE)"

definition after_run :: "exec_result \<Rightarrow> fuzzer \<Rightarrow> fuzzer" where
  "after_run r s =
     s\<lparr>globalTraceBit := classify_counts (apply_stores (er_trace r) (globalTraceBit s)),
       branchTraceBit := apply_stores (er_branch r) (branchTraceBit s),
       errorTraced := apply_stores (er_errors r) (errorTraced s),
       adjacency_matrix := apply_stores (er_adjacency r) (adjacency_matrix s),
       travel_matrix := apply_stores (er_travel r) (travel_matrix s),
       exec_count := inc64 (exec_count s)\<rparr>"

definition ExecuteCase :: "fuzz_env \<Rightarrow> nat \<Rightarrow> fuzzer \<Rightarrow> (fault \<times> fuzzer) option" where
  "ExecuteCase E timeout s =
     do {
       let s = reset_before_run E s;
       input \<leftarrow> files s (testfile E);
       r \<leftarrow> target E (exec_count s) input (errorList s) (control_matrix s) timeout;
       Some (run_verdict r, after_run r s)
     }"

section \<open>Calibration\<close>

definition CAL_CYCLES :: nat where "CAL_CYCLES = 1"

definition add_calibration :: "nat \<Rightarrow> nat \<Rightarrow> nat \<Rightarrow> fuzzer \<Rightarrow> fuzzer" where
  "add_calibration time_begin time_end cycles s =
     s\<lparr>total_cal_us := (total_cal_us s + usub64 time_end time_begin) mod 2 ^ 64,
       total_cal_cycles := (total_cal_cycles s + cycles) mod 2 ^ 64\<rparr>"

text \<open>The flag of the result says that the loop returned from the function.\<close>

fun calibrate_loop ::
  "fuzz_env \<Rightarrow> nat \<Rightarrow> u8 list \<Rightarrow> nat \<Rightarrow> nat \<Rightarrow> nat \<Rightarrow> nat \<Rightarrow> fault \<Rightarrow> fuzzer \<Rightarrow> (bool \<times> fault \<times> fuzzer) option" where
  "calibrate_loop E q mem use_tmout time_begin i 0 run_status s = Some (False, run_status, s)"
| "calibrate_loop E q mem use_tmout time_begin i (Suc n) run_status s =
     do {
       s \<leftarrow> WriteToTestcase E mem (fileLen (queue s ! q)) s;
       (run_status, s) \<leftarrow> ExecuteCase E use_tmout s;
       if run_status \<noteq> FAULT_NONE then
         let (time_end, s) = GetCurTimeUs s
         in Some (True, run_status, add_calibration time_begin time_end (i + 1) s)
       else
         let s = (if cksum (queue s ! q) = 0
                  then s\<lparr>queue := (queue s)[q := (queue s ! q)\<lparr>cksum := trace_cksum (globalTraceBit s)\<rparr>]\<rparr>
                  else s)
         in calibrate_loop E q mem use_tmout time_begin (i + 1) n run_status s
     }"

definition finish_calibration :: "nat \<Rightarrow> nat \<Rightarrow> fuzzer \<Rightarrow> fuzzer" where
  "finish_calibration q time_begin s =
     (let (time_end, s) = GetCurTimeUs s;
          s = add_calibration time_begin time_end CAL_CYCLES s;
          s = s\<lparr>queue := (queue s)[q := (queue s ! q)\<lparr>execTime := usub64 time_end time_begin div CAL_CYCLES\<rparr>]\<rparr>
      in UpdateQueueTop q (globalTraceBit s) s)"

definition CalibrateCase :: "fuzz_env \<Rightarrow> nat \<Rightarrow> u8 list \<Rightarrow> fuzzer \<Rightarrow> (fault \<times> fuzzer) option" where
  "CalibrateCase E q mem s =
     do {
       let use_tmout = exec_tmout s;
       let (time_begin, s) = GetCurTimeUs s;
       (returned, run_status, s) \<leftarrow> calibrate_loop E q mem use_tmout time_begin 0 CAL_CYCLES FAULT_NONE s;
       Some (run_status, if returned then s else finish_calibration q time_begin s)
     }"

definition CheckMapSize :: "fuzzer \<Rightarrow> bool" where
  "CheckMapSize s \<longleftrightarrow> CountBytes (globalTraceBit s) > length (globalTraceBit s) div 10"

text \<open>
  The buffer of a seed is filled from its file; bytes beyond the end of a file that became
  shorter are indeterminate in the code and an error here.
\<close>

definition DryRunning :: "fuzz_env \<Rightarrow> fuzzer \<Rightarrow> fuzzer option" where
  "DryRunning E s =
     foldM (\<lambda>q s. do {
         contents \<leftarrow> files s (fileName (queue s ! q));
         if \<not> io_ok E (fileName (queue s ! q)) then None
         else do {
           (_, s) \<leftarrow> CalibrateCase E q (take (fileLen (queue s ! q)) contents) s;
           Some s } })
       [0..<length (queue s)] s"

section \<open>Crashes and hangs\<close>

definition trace_news :: "bool list \<Rightarrow> bool list \<Rightarrow> bool" where
  "trace_news trc old \<longleftrightarrow> list_ex id (map2 (\<lambda>t c. t \<and> \<not> c) trc old)"

definition crash_handler :: "fuzz_env \<Rightarrow> bool \<Rightarrow> u8 list \<Rightarrow> nat \<Rightarrow> fuzzer \<Rightarrow> (bool \<times> fuzzer) option" where
  "crash_handler E keeping mem len s =
     do {
       let s = s\<lparr>total_crash_count := inc32 (total_crash_count s)\<rparr>;
       num \<leftarrow> num2str_Keep6bit (total_crash_count s);
       let (now, s) = GetCurTimeUs s;
       s \<leftarrow> WriteMem2File E (outputDir E @ ''total_crash/'' @ num @ ''-'' @ to_string now) mem len s;
       let trc = MinimizeBit (globalTraceBit s);
       let new_bit = trace_news trc (crashTrace s);
       if \<not> new_bit then Some (keeping, s)
       else do {
         let s = s\<lparr>crashTrace := map2 (\<or>) (crashTrace s) trc,
                   unique_crash_count := inc32 (unique_crash_count s)\<rparr>;
         unum \<leftarrow> num2str_Keep6bit (unique_crash_count s);
         tnum \<leftarrow> num2str_Keep6bit (total_crash_count s);
         let (now, s) = GetCurTimeUs s;
         s \<leftarrow> WriteMem2File E (outputDir E @ ''crash/'' @ unum @ ''-'' @ tnum @ ''-'' @ to_string now) mem len s;
         Some (True, if keeping then s else s\<lparr>usefule_input := inc64 (usefule_input s)\<rparr>)
       }
     }"

definition ex_crash_handler :: "fuzz_env \<Rightarrow> bool \<Rightarrow> u8 list \<Rightarrow> nat \<Rightarrow> fuzzer \<Rightarrow> (bool \<times> fuzzer) option" where
  "ex_crash_handler E keeping mem len s =
     do {
       let unique_fault = is_unique_fault (fu_list s) (errorList s);
       let trc = MinimizeBit (globalTraceBit s);
       let new_bit = trace_news trc (crashTrace s);
       if \<not> unique_fault \<and> \<not> new_bit then Some (keeping, s)
       else do {
         let s = (if unique_fault then save_crashed_fu (errorList s) s else s);
         let s = (if new_bit then s\<lparr>crashTrace := map2 (\<or>) (crashTrace s) trc\<rparr> else s);
         let s = s\<lparr>unique_ex_crash_count := inc32 (unique_ex_crash_count s)\<rparr>;
         num \<leftarrow> num2str_Keep6bit (unique_ex_crash_count s);
         let (now, s) = GetCurTimeUs s;
         let crash_name = num @ ''-'' @ to_string now;
         s \<leftarrow> WriteMem2File E (outputDir E @ ''ex_crash/files/'' @ crash_name) mem len s;
         s \<leftarrow> (if are_errors_triggered (errorList s) (errorTraced s) (length (errorList s))
              then WriteMem2File E (outputDir E @ ''ex_crash/errorlists/'' @ crash_name)
                     (errorList s) (length (errorList s)) s
              else Some s);
         Some (True, if \<not> keeping \<and> unique_fault then s\<lparr>useful_error_seq := inc64 (useful_error_seq s)\<rparr> else s)
       }
     }"

definition hang_handler :: "fuzz_env \<Rightarrow> bool \<Rightarrow> u8 list \<Rightarrow> nat \<Rightarrow> fuzzer \<Rightarrow> (bool \<times> fuzzer) option" where
  "hang_handler E keeping mem len s =
     do {
       let s = s\<lparr>total_timeout_count := inc32 (total_timeout_count s)\<rparr>;
       let trc = MinimizeBit (globalTraceBit s);
       let new_bit = trace_news trc (timeoutTrace s);
       if \<not> new_bit then Some (keeping, s)
       else do {
         (new_status, s) \<leftarrow>
           (if exec_tmout s < hang_tmout s
            then do { s \<leftarrow> WriteToTestcase E mem len s; ExecuteCase E (hang_tmout s) s }
            else Some (FAULT_TMOUT, s));
         if new_status = FAULT_CRASH then crash_handler E keeping mem len s
         else if new_status \<noteq> FAULT_TMOUT then Some (keeping, s)
         else do {
           let s = s\<lparr>timeoutTrace := map2 (\<or>) (timeoutTrace s) trc,
                     unique_hang_count := inc32 (unique_hang_count s)\<rparr>;
           num \<leftarrow> num2str_Keep6bit (unique_hang_count s);
           let (now, s) = GetCurTimeUs s;
           s \<leftarrow> WriteMem2File E (outputDir E @ ''hang/'' @ num @ ''-'' @ to_string now) mem len s;
           Some (True, if keeping then s else s\<lparr>usefule_input := inc64 (usefule_input s)\<rparr>)
         }
       }
     }"

definition ex_hang_handler :: "fuzz_env \<Rightarrow> bool \<Rightarrow> u8 list \<Rightarrow> nat \<Rightarrow> fuzzer \<Rightarrow> (bool \<times> fuzzer) option" where
  "ex_hang_handler E keeping mem len s =
     do {
       let s = s\<lparr>total_ex_timeout_count := inc32 (total_ex_timeout_count s)\<rparr>;
       let trc = MinimizeBit (globalTraceBit s);
       let new_bit = trace_news trc (timeoutTrace s);
       if \<not> new_bit then Some (keeping, s)
       else do {
         (new_status, s) \<leftarrow>
           (if exec_tmout s < hang_tmout s
            then do { s \<leftarrow> WriteToTestcase E mem len s; ExecuteCase E (hang_tmout s) s }
            else Some (FAULT_TMOUT, s));
         if new_status = FAULT_CRASH then ex_crash_handler E keeping mem len s
         else if new_status \<noteq> FAULT_TMOUT then Some (keeping, s)
         else do {
           let s = s\<lparr>timeoutTrace := map2 (\<or>) (timeoutTrace s) trc,
                     unique_ex_hang_count := inc32 (unique_ex_hang_count s)\<rparr>;
           num \<leftarrow> num2str_Keep6bit (unique_ex_hang_count s);
           let (now, s) = GetCurTimeUs s;
           let hang_name = num @ ''-'' @ to_string now;
           s \<leftarrow> WriteMem2File E (outputDir E @ ''ex_hang/files/'' @ hang_name) mem len s;
           s \<leftarrow> (if are_errors_triggered (errorList s) (errorTraced s) (length (errorList s))
                then WriteMem2File E (outputDir E @ ''ex_hang/errorlists/'' @ hang_name)
                       (errorList s) (length (errorList s)) s
                else Some s);
           Some (True, if keeping then s else s\<lparr>useful_error_seq := inc64 (useful_error_seq s)\<rparr>)
         }
       }
     }"

section \<open>Keeping interesting test cases\<close>

text \<open>The novelty verdict: with branch coverage only a new branch counts.\<close>

definition novelty_verdict :: "fuzz_env \<Rightarrow> fuzzer \<Rightarrow> nat \<times> fuzzer" where
  "novelty_verdict E s =
     (let (branchBitFlag, vb) = has_new_bits (branchTraceBit s) (virginMapForBranchTraceBit s);
          (newBitFlag, v) = has_new_bits (globalTraceBit s) (virginMap s)
      in (if isBranchCoverage E then (if branchBitFlag = 2 then 2 else 0) else newBitFlag,
          s\<lparr>virginMapForBranchTraceBit := vb, virginMap := v\<rparr>))"

definition travel_verdict :: "fuzz_env \<Rightarrow> fuzzer \<Rightarrow> bool \<times> fuzzer" where
  "travel_verdict E s =
     (if NO_CONCURRENCY_FUZZ E then (False, s)
      else let (flag, visited) = has_new_travel_matrix_element (travel_matrix s) (total_travel s)
           in (flag, s\<lparr>total_travel := visited\<rparr>))"

definition errors_flag :: "fuzz_env \<Rightarrow> fuzzer \<Rightarrow> bool" where
  "errors_flag E s \<longleftrightarrow>
     \<not> NO_FUZZING_ERROR E \<and> are_errors_triggered (errorList s) (errorTraced s) (length (errorList s))"

definition control_flag :: "fuzz_env \<Rightarrow> fuzzer \<Rightarrow> bool" where
  "control_flag E s \<longleftrightarrow>
     \<not> NO_CONCURRENCY_FUZZ E \<and> is_control_matrix_triggered (control_matrix s) (travel_matrix s)"

definition keep_seed :: "fuzz_env \<Rightarrow> u8 list \<Rightarrow> nat \<Rightarrow> nat \<Rightarrow> bool \<Rightarrow> bool \<Rightarrow> fuzzer \<Rightarrow> fuzzer option" where
  "keep_seed E mem len newBitFlag eflag cflag s =
     do {
       num \<leftarrow> num2str_Keep6bit (to_u32 (length (queue s)));
       let name = num @ (if newBitFlag = 2 then ''+cov'' else ''+tup'');
       let filename = outputDir E @ ''queue/'' @ name;
       let error_list_filename = (if eflag then Some (outputDir E @ ''errorList/'' @ name) else None);
       let control_matrix_filename = (if cflag then Some (outputDir E @ ''delayList/'' @ name) else None);
       s \<leftarrow> (case error_list_filename of
               None \<Rightarrow> Some s
             | Some f \<Rightarrow> do {
                 s \<leftarrow> WriteMem2File E f (errorList s) (length (errorList s)) s;
                 Some (s\<lparr>useful_error_seq := inc64 (useful_error_seq s)\<rparr>) });
       s \<leftarrow> (case control_matrix_filename of
               None \<Rightarrow> Some s
             | Some f \<Rightarrow> WriteMem2File E f (matrix_bytes (control_matrix s))
                           (length (matrix_bytes (control_matrix s))) s);
       let s = (if \<not> eflag \<and> \<not> cflag then s\<lparr>usefule_input := inc64 (usefule_input s)\<rparr> else s);
       let s = AddToQueue filename len error_list_filename control_matrix_filename s;
       s \<leftarrow> WriteMem2File E filename mem len s;
       let q = length (queue s) - 1;
       Some (s\<lparr>queue := (queue s)[q := (queue s ! q)\<lparr>cksum := trace_cksum (globalTraceBit s), execTime := 1\<rparr>]\<rparr>)
     }"

definition AddInterestingSeed :: "fuzz_env \<Rightarrow> u8 list \<Rightarrow> nat \<Rightarrow> fault \<Rightarrow> fuzzer \<Rightarrow> (bool \<times> fuzzer) option" where
  "AddInterestingSeed E mem len run_status s =
     do {
       let (newBitFlag, s) = novelty_verdict E s;
       let (new_travel_element, s) = travel_verdict E s;
       let eflag = errors_flag E s;
       let cflag = control_flag E s;
       (keeping, s) \<leftarrow>
         (if newBitFlag \<noteq> 0 \<or> new_travel_element
          then do { s \<leftarrow> keep_seed E mem len newBitFlag eflag cflag s; Some (True, s) }
          else Some (False, s));
       case run_status of
         FAULT_TMOUT \<Rightarrow> if eflag \<or> cflag then ex_hang_handler E keeping mem len s else hang_handler E keeping mem len s
       | FAULT_CRASH \<Rightarrow> if eflag \<or> cflag then ex_crash_handler E keeping mem len s else crash_handler E keeping mem len s
       | _ \<Rightarrow> Some (keeping, s)
     }"

section \<open>The unit of fuzzing\<close>

text \<open>
  Synchronising coverage with the other instances on every \<open>sync_cycle\<close>-th call.  The
  segments exist only in an instance started as a master or a slave; without them, or without
  the lock file, the process dies.
\<close>

definition sync_now :: "fuzz_env \<Rightarrow> fuzzer \<Rightarrow> fuzzer option" where
  "sync_now E s =
     (if files s ''file_lock'' = None \<or> \<not> io_ok E ''file_lock'' then None
      else do {
        p \<leftarrow> sync_cov_ptr s;
        (v, p) \<leftarrow> sync_coverage (virginMap s) p (length (virginMap s));
        pb \<leftarrow> sync_branch_cov_ptr s;
        (vb, pb) \<leftarrow> sync_coverage (virginMapForBranchTraceBit s) pb (length (virginMapForBranchTraceBit s));
        Some (s\<lparr>virginMap := v, sync_cov_ptr := Some p,
                virginMapForBranchTraceBit := vb, sync_branch_cov_ptr := Some pb\<rparr>)
      })"

definition sync_instances :: "fuzz_env \<Rightarrow> fuzzer \<Rightarrow> fuzzer option" where
  "sync_instances E s =
     (let sync_cycle = (if sync_state E = ''MASTER'' then master_sync_cycle E else slave_sync_cycle E)
      in if \<not> sync_cov E then Some s
         else if sync_cycle = 0 then None
         else
           let s = s\<lparr>fuzz_time := (fuzz_time s + 1) mod sync_cycle\<rparr>
           in if fuzz_time s = 0 then sync_now E s else Some s)"

definition FuzzUnit ::
  "fuzz_env \<Rightarrow> u8 list \<Rightarrow> nat \<Rightarrow> u8 list option \<Rightarrow> matrix_element list option \<Rightarrow> fuzzer \<Rightarrow> (nat \<times> fuzzer) option" where
  "FuzzUnit E filemap len error_list tmp_cm s =
     do {
       s \<leftarrow> sync_instances E s;
       s \<leftarrow> (case error_list of
               Some el \<Rightarrow> do {
                 xs \<leftarrow> mem_read 0 (length (errorList s)) el;
                 Some (s\<lparr>total_error_seq := inc64 (total_error_seq s), errorList := xs\<rparr>) }
             | None \<Rightarrow> Some (s\<lparr>total_input := inc64 (total_input s)\<rparr>));
       let s = (case tmp_cm of
                  Some cm \<Rightarrow> if NO_CONCURRENCY_FUZZ E then s else s\<lparr>control_matrix := cm\<rparr>
                | None \<Rightarrow> s);
       s \<leftarrow> WriteToTestcase E filemap len s;
       (run_status, s) \<leftarrow> ExecuteCase E (exec_tmout s) s;
       (_, s) \<leftarrow> AddInterestingSeed E filemap (to_u32 len) run_status s;
       Some (0, print_result E ''temp stage'' s)
     }"

section \<open>What a unit of fuzzing leaves unchanged\<close>

text \<open>
  \<open>maps_ok n\<close>: all maps have the map size \<open>n\<close>.  \<open>grows\<close>: coverage, crash and
  hang records, the queue, the saved fault units and the log only grow, the table of best seeds
  and the timeouts stay, and no existing file but the test case changes.
\<close>

definition maps_ok :: "nat \<Rightarrow> fuzzer \<Rightarrow> bool" where
  "maps_ok n s \<longleftrightarrow>
     8 dvd n \<and> length (globalTraceBit s) = n \<and> length (virginMap s) = n \<and>
     length (branchTraceBit s) = n \<and> length (virginMapForBranchTraceBit s) = n \<and>
     length (timeoutTrace s) = n \<and> length (crashTrace s) = n \<and>
     (case sync_cov_ptr s of None \<Rightarrow> True | Some p \<Rightarrow> length p = n) \<and>
     (case sync_branch_cov_ptr s of None \<Rightarrow> True | Some p \<Rightarrow> length p = n)"

definition implied_by :: "bool list \<Rightarrow> bool list \<Rightarrow> bool" where
  "implied_by xs ys \<longleftrightarrow> list_all2 (\<longrightarrow>) xs ys"

text \<open>The seeds behind the first \<open>n\<close> are fresh: neither fuzzed nor favored, and in no slot of the table.\<close>

definition fresh_from :: "nat \<Rightarrow> seed list \<Rightarrow> bool" where
  "fresh_from n q \<longleftrightarrow>
     list_all (\<lambda>sd. \<not> wasFuzzed sd \<and> \<not> favored sd \<and> topCount sd = 0 \<and> trace sd = None) (drop n q)"

definition grows :: "fuzz_env \<Rightarrow> fuzzer \<Rightarrow> fuzzer \<Rightarrow> bool" where
  "grows E s s' \<longleftrightarrow>
     prefix (queue s) (queue s') \<and> queueTop s' = queueTop s \<and>
     concurrent_queue_top s' = concurrent_queue_top s \<and> queueCur s' = queueCur s \<and>
     queueCycle s' = queueCycle s \<and> pendFavor s' = pendFavor s \<and> scoreChange s' = scoreChange s \<and>
     seen (virginMap s) \<subseteq> seen (virginMap s') \<and>
     seen (virginMapForBranchTraceBit s) \<subseteq> seen (virginMapForBranchTraceBit s') \<and>
     implied_by (crashTrace s) (crashTrace s') \<and> implied_by (timeoutTrace s) (timeoutTrace s') \<and>
     prefix (fu_list s) (fu_list s') \<and> prefix (plot s) (plot s') \<and>
     exec_tmout s' = exec_tmout s \<and> hang_tmout s' = hang_tmout s \<and> havoc_div s' = havoc_div s \<and>
     length (errorList s') = length (errorList s) \<and> length (errorTraced s') = length (errorTraced s) \<and>
     autoToken s' = autoToken s \<and> pointedToken s' = pointedToken s \<and> rand_tape s' = rand_tape s \<and>
     (\<forall>f. f \<noteq> testfile E \<longrightarrow> files s f \<noteq> None \<longrightarrow> files s' f = files s f) \<and>
     fresh_from (length (queue s)) (queue s')"

definition fuzz_rel :: "fuzz_env \<Rightarrow> nat \<Rightarrow> fuzzer \<Rightarrow> fuzzer \<Rightarrow> bool" where
  "fuzz_rel E n s s' \<longleftrightarrow> maps_ok n s \<and> maps_ok n s' \<and> grows E s s'"

lemma implied_by_refl [simp]: "implied_by xs xs"
  by (simp add: implied_by_def list_all2_refl)

lemma implied_by_trans: "implied_by xs ys \<Longrightarrow> implied_by ys zs \<Longrightarrow> implied_by xs zs"
  by (auto simp: implied_by_def list_all2_conv_all_nth)

lemma implied_by_or: "length xs = length ys \<Longrightarrow> implied_by xs (map2 (\<or>) xs ys)"
  by (auto simp: implied_by_def list_all2_conv_all_nth)

lemma fresh_from_same [simp]: "fresh_from (length q) q"
  by (simp add: fresh_from_def)

lemma fresh_from_trans:
  assumes "prefix q q'" and "fresh_from (length q) q'" and "prefix q' q''" and "fresh_from (length q') q''"
  shows "fresh_from (length q) q''"
  using assms by (auto simp: fresh_from_def prefix_def)

lemma grows_refl [simp]: "grows E s s"
  by (simp add: grows_def)

lemma grows_trans: "grows E s s' \<Longrightarrow> grows E s' s'' \<Longrightarrow> grows E s s''"
  unfolding grows_def
  apply (elim conjE)
  apply (intro conjI)
  subgoal by (rule prefix_order.trans)
  subgoal by simp
  subgoal by simp
  subgoal by simp
  subgoal by simp
  subgoal by simp
  subgoal by simp
  subgoal by (rule subset_trans)
  subgoal by (rule subset_trans)
  subgoal by (rule implied_by_trans)
  subgoal by (rule implied_by_trans)
  subgoal by (rule prefix_order.trans)
  subgoal by (rule prefix_order.trans)
  subgoal by simp
  subgoal by simp
  subgoal by simp
  subgoal by simp
  subgoal by simp
  subgoal by simp
  subgoal by simp
  subgoal by simp
  subgoal by metis
  subgoal by (rule fresh_from_trans)
  done

lemma fuzz_rel_refl: "maps_ok n s \<Longrightarrow> fuzz_rel E n s s"
  by (simp add: fuzz_rel_def)

lemma fuzz_rel_trans: "fuzz_rel E n s s' \<Longrightarrow> fuzz_rel E n s' s'' \<Longrightarrow> fuzz_rel E n s s''"
  unfolding fuzz_rel_def by (blast intro: grows_trans)

text \<open>Counters, clocks and similar fields are not part of the relation.\<close>

lemma fuzz_rel_fields [simp]:
  "fuzz_rel E n s (s'\<lparr>unique_crash_count := a\<rparr>) = fuzz_rel E n s s'"
  "fuzz_rel E n s (s'\<lparr>unique_hang_count := a\<rparr>) = fuzz_rel E n s s'"
  "fuzz_rel E n s (s'\<lparr>total_crash_count := a\<rparr>) = fuzz_rel E n s s'"
  "fuzz_rel E n s (s'\<lparr>total_timeout_count := a\<rparr>) = fuzz_rel E n s s'"
  "fuzz_rel E n s (s'\<lparr>unique_ex_hang_count := a\<rparr>) = fuzz_rel E n s s'"
  "fuzz_rel E n s (s'\<lparr>total_ex_timeout_count := a\<rparr>) = fuzz_rel E n s s'"
  "fuzz_rel E n s (s'\<lparr>unique_ex_crash_count := a\<rparr>) = fuzz_rel E n s s'"
  "fuzz_rel E n s (s'\<lparr>exec_count := a\<rparr>) = fuzz_rel E n s s'"
  "fuzz_rel E n s (s'\<lparr>total_input := a\<rparr>) = fuzz_rel E n s s'"
  "fuzz_rel E n s (s'\<lparr>usefule_input := a\<rparr>) = fuzz_rel E n s s'"
  "fuzz_rel E n s (s'\<lparr>total_error_seq := a\<rparr>) = fuzz_rel E n s s'"
  "fuzz_rel E n s (s'\<lparr>useful_error_seq := a\<rparr>) = fuzz_rel E n s s'"
  "fuzz_rel E n s (s'\<lparr>fuzz_time := a\<rparr>) = fuzz_rel E n s s'"
  "fuzz_rel E n s (s'\<lparr>control_matrix := cm\<rparr>) = fuzz_rel E n s s'"
  "fuzz_rel E n s (s'\<lparr>adjacency_matrix := cm\<rparr>) = fuzz_rel E n s s'"
  "fuzz_rel E n s (s'\<lparr>travel_matrix := cm\<rparr>) = fuzz_rel E n s s'"
  "fuzz_rel E n s (s'\<lparr>total_travel := h\<rparr>) = fuzz_rel E n s s'"
  "fuzz_rel E n s (s'\<lparr>clock := c\<rparr>) = fuzz_rel E n s s'"
  "fuzz_rel E n s (s'\<lparr>variableStateChangeCount := w\<rparr>) = fuzz_rel E n s s'"
  "fuzz_rel E n s (s'\<lparr>concurrentFunctionCountVar := w\<rparr>) = fuzz_rel E n s s'"
  "fuzz_rel E n s (s'\<lparr>tickNum := w\<rparr>) = fuzz_rel E n s s'"
  by (simp_all add: fuzz_rel_def maps_ok_def grows_def)

named_theorems rel_intros \<open>updates that stay within the relation\<close>

lemma fuzz_relD:
  assumes "fuzz_rel E n s s'"
  shows "maps_ok n s'" "8 dvd n" "length (globalTraceBit s') = n" "length (virginMap s') = n"
    "length (branchTraceBit s') = n" "length (virginMapForBranchTraceBit s') = n"
    "length (timeoutTrace s') = n" "length (crashTrace s') = n"
    "length (errorList s') = length (errorList s)" "length (errorTraced s') = length (errorTraced s)"
  using assms by (simp_all add: fuzz_rel_def maps_ok_def grows_def)

lemma rel_step:
  assumes "fuzz_rel E n s0 s" and "maps_ok n s \<Longrightarrow> maps_ok n s'" and "maps_ok n s \<Longrightarrow> grows E s s'"
  shows "fuzz_rel E n s0 s'"
  using assms fuzz_rel_trans [of E n s0 s s'] by (auto simp: fuzz_rel_def)

lemma files_rel:
  assumes "fuzz_rel E n s0 s" and "f = testfile E \<or> files s f = None"
  shows "fuzz_rel E n s0 (s\<lparr>files := (files s)(f \<mapsto> xs)\<rparr>)"
  using assms by (intro rel_step [OF assms(1)]) (auto simp: maps_ok_def grows_def)

lemma crashTrace_rel [rel_intros]:
  assumes "fuzz_rel E n s0 s" and "implied_by (crashTrace s) ct"
  shows "fuzz_rel E n s0 (s\<lparr>crashTrace := ct\<rparr>)"
proof (rule rel_step [OF assms(1)])
  have "length ct = length (crashTrace s)"
    using assms(2) by (simp add: implied_by_def list_all2_lengthD)
  then show "maps_ok n s \<Longrightarrow> maps_ok n (s\<lparr>crashTrace := ct\<rparr>)" by (simp add: maps_ok_def)
  show "grows E s (s\<lparr>crashTrace := ct\<rparr>)" using assms(2) by (simp add: grows_def)
qed

lemma timeoutTrace_rel [rel_intros]:
  assumes "fuzz_rel E n s0 s" and "implied_by (timeoutTrace s) ct"
  shows "fuzz_rel E n s0 (s\<lparr>timeoutTrace := ct\<rparr>)"
proof (rule rel_step [OF assms(1)])
  have "length ct = length (timeoutTrace s)"
    using assms(2) by (simp add: implied_by_def list_all2_lengthD)
  then show "maps_ok n s \<Longrightarrow> maps_ok n (s\<lparr>timeoutTrace := ct\<rparr>)" by (simp add: maps_ok_def)
  show "grows E s (s\<lparr>timeoutTrace := ct\<rparr>)" using assms(2) by (simp add: grows_def)
qed

lemma fu_list_rel [rel_intros]:
  assumes "fuzz_rel E n s0 s" and "prefix (fu_list s) fus"
  shows "fuzz_rel E n s0 (s\<lparr>fu_list := fus\<rparr>)"
  using assms(2) by (intro rel_step [OF assms(1)]) (simp_all add: maps_ok_def grows_def)

lemma plot_rel [rel_intros]:
  assumes "fuzz_rel E n s0 s" and "prefix (plot s) p"
  shows "fuzz_rel E n s0 (s\<lparr>plot := p\<rparr>)"
  using assms(2) by (intro rel_step [OF assms(1)]) (simp_all add: maps_ok_def grows_def)

lemma queue_rel [rel_intros]:
  assumes "fuzz_rel E n s0 s" and "prefix (queue s) q" and "fresh_from (length (queue s)) q"
  shows "fuzz_rel E n s0 (s\<lparr>queue := q\<rparr>)"
  using assms(2,3) by (intro rel_step [OF assms(1)]) (simp_all add: maps_ok_def grows_def)

lemma save_crashed_fu_rel [rel_intros]:
  "fuzz_rel E n s0 s \<Longrightarrow> fuzz_rel E n s0 (save_crashed_fu el s)"
  unfolding save_crashed_fu_def by (rule fu_list_rel) simp_all

lemma print_result_rel [rel_intros]:
  "fuzz_rel E n s0 s \<Longrightarrow> fuzz_rel E n s0 (print_result E stage s)"
  unfolding print_result_def GetTimeStr_def GetCurTimeUs_def Let_def prod.case
  by (rule plot_rel) simp_all

text \<open>The operations, as rules for \<^const>\<open>ensures\<close>.\<close>

lemma num2str_ens [ens_rules]: "ensures (num2str_Keep6bit k) (\<lambda>_. True)"
  by (rule ensures_True)

lemma mem_read_ens [ens_rules]: "ensures (mem_read i k m) (\<lambda>xs. length xs = k)"
  by (auto simp: ensures_def mem_read_def)

lemma WriteMem2File_ens [ens_rules]:
  "fuzz_rel E n s0 s \<Longrightarrow> ensures (WriteMem2File E f mem len s) (fuzz_rel E n s0)"
  unfolding WriteMem2File_def by (rule ens_binds ens_rules files_rel | simp)+

lemma WriteToTestcase_ens [ens_rules]:
  "fuzz_rel E n s0 s \<Longrightarrow> ensures (WriteToTestcase E mem len s) (fuzz_rel E n s0)"
  unfolding WriteToTestcase_def by (rule ens_binds ens_rules files_rel | simp)+

lemma ExecuteCase_ens [ens_rules]:
  assumes "fuzz_rel E n s0 s"
  shows "ensures (ExecuteCase E timeout s) (\<lambda>(st, s'). fuzz_rel E n s0 s')"
proof (rule ensuresI)
  fix x assume "ExecuteCase E timeout s = Some x"
  then obtain r where "snd x = after_run r (reset_before_run E s)"
    by (auto simp: ExecuteCase_def Let_def bind_eq_Some_conv)
  moreover have "fuzz_rel E n s0 (after_run r (reset_before_run E s))"
    by (rule rel_step [OF assms])
      (simp_all add: after_run_def reset_before_run_def Let_def maps_ok_def grows_def)
  ultimately show "case x of (st, s') \<Rightarrow> fuzz_rel E n s0 s'" by (simp add: case_prod_beta)
qed

lemma trace_or_rel [rel_intros]:
  assumes "fuzz_rel E n s0 s" and "fuzz_rel E n s0 s1"
  shows "implied_by (crashTrace s) (map2 (\<or>) (crashTrace s) (MinimizeBit (globalTraceBit s1)))"
    and "implied_by (timeoutTrace s) (map2 (\<or>) (timeoutTrace s) (MinimizeBit (globalTraceBit s1)))"
  using fuzz_relD [OF assms(1)] fuzz_relD [OF assms(2)] by (simp_all add: implied_by_or)

lemma crash_handler_ens [ens_rules]:
  "fuzz_rel E n s0 s \<Longrightarrow> ensures (crash_handler E keeping mem len s) (\<lambda>(k, s'). fuzz_rel E n s0 s')"
  unfolding crash_handler_def GetCurTimeUs_def
  by (rule ens_binds ens_rules | (auto intro: rel_intros)[1])+

lemma ex_crash_handler_ens [ens_rules]:
  "fuzz_rel E n s0 s \<Longrightarrow> ensures (ex_crash_handler E keeping mem len s) (\<lambda>(k, s'). fuzz_rel E n s0 s')"
  unfolding ex_crash_handler_def GetCurTimeUs_def
  by (rule ens_binds ens_rules | (auto intro: rel_intros)[1])+

lemma hang_handler_ens [ens_rules]:
  "fuzz_rel E n s0 s \<Longrightarrow> ensures (hang_handler E keeping mem len s) (\<lambda>(k, s'). fuzz_rel E n s0 s')"
  unfolding hang_handler_def GetCurTimeUs_def
  by (rule ens_binds ens_rules | (auto intro: rel_intros)[1])+

lemma ex_hang_handler_ens [ens_rules]:
  "fuzz_rel E n s0 s \<Longrightarrow> ensures (ex_hang_handler E keeping mem len s) (\<lambda>(k, s'). fuzz_rel E n s0 s')"
  unfolding ex_hang_handler_def GetCurTimeUs_def
  by (rule ens_binds ens_rules | (auto intro: rel_intros)[1])+

lemma virgin_rel:
  assumes "fuzz_rel E n s0 s" "length v = n" "length vb = n"
    "seen (virginMap s) \<subseteq> seen v" "seen (virginMapForBranchTraceBit s) \<subseteq> seen vb"
  shows "fuzz_rel E n s0 (s\<lparr>virginMap := v, virginMapForBranchTraceBit := vb\<rparr>)"
  using assms by (intro rel_step [OF assms(1)]) (simp_all add: maps_ok_def grows_def)

lemma novelty_verdict_rel [rel_intros]:
  assumes "fuzz_rel E n s0 s"
  shows "fuzz_rel E n s0 (snd (novelty_verdict E s))"
proof -
  note len = fuzz_relD [OF assms]
  let ?v = "snd (has_new_bits (globalTraceBit s) (virginMap s))"
  let ?vb = "snd (has_new_bits (branchTraceBit s) (virginMapForBranchTraceBit s))"
  have "snd (novelty_verdict E s) = s\<lparr>virginMap := ?v, virginMapForBranchTraceBit := ?vb\<rparr>"
    by (simp add: novelty_verdict_def case_prod_beta Let_def)
  moreover have "length ?v = n" "length ?vb = n" "seen (virginMap s) \<subseteq> seen ?v"
    "seen (virginMapForBranchTraceBit s) \<subseteq> seen ?vb"
    using len by (simp_all add: has_new_bits_bytewise seen_virgin_after)
  ultimately show ?thesis using virgin_rel [OF assms] by simp
qed

lemma travel_verdict_rel [rel_intros]:
  "fuzz_rel E n s0 s \<Longrightarrow> fuzz_rel E n s0 (snd (travel_verdict E s))"
  by (simp add: travel_verdict_def case_prod_beta Let_def)

text \<open>The seed added by \<open>keep_seed\<close>: its file is the test case and it is appended to the queue.\<close>

definition kept_seed :: "string \<Rightarrow> nat \<Rightarrow> string option \<Rightarrow> string option \<Rightarrow> u32 \<Rightarrow> seed" where
  "kept_seed f len el cm ck =
     (new_seed f len)\<lparr>elistFileName := (case el of None \<Rightarrow> [] | Some e \<Rightarrow> e),
       control_matrix_file := (case cm of None \<Rightarrow> [] | Some c \<Rightarrow> c), cksum := ck, execTime := 1\<rparr>"

lemma AddToQueue_eq:
  "AddToQueue f len el cm s =
     s\<lparr>queue := queue s @ [(new_seed f len)\<lparr>elistFileName := (case el of None \<Rightarrow> [] | Some e \<Rightarrow> e),
       control_matrix_file := (case cm of None \<Rightarrow> [] | Some c \<Rightarrow> c)\<rparr>]\<rparr>"
  by (cases el; cases cm) (simp_all add: AddToQueue_def new_seed_def)

lemma AddToQueue_rel [rel_intros]: "fuzz_rel E n s0 s \<Longrightarrow> fuzz_rel E n s0 (AddToQueue f len el cm s)"
  unfolding AddToQueue_eq by (rule queue_rel) (simp_all add: fresh_from_def new_seed_def)

lemma WriteMem2File_Some:
  "WriteMem2File E f mem len s = Some s' \<longleftrightarrow>
     files s f = None \<and> io_ok E f \<and> to_u32 len \<le> length mem \<and>
     s' = s\<lparr>files := (files s)(f \<mapsto> take (to_u32 len) mem)\<rparr>"
  by (auto simp: WriteMem2File_def bind_eq_Some_conv mem_read_def split: if_splits)

text \<open>The file name of a kept test case.\<close>

definition seed_name :: "fuzzer \<Rightarrow> nat \<Rightarrow> string option" where
  "seed_name s newBitFlag =
     do { num \<leftarrow> num2str_Keep6bit (to_u32 (length (queue s)));
          Some (num @ (if newBitFlag = 2 then ''+cov'' else ''+tup'')) }"

lemma WriteMem2File_keeps:
  assumes "WriteMem2File E f mem len s = Some s'"
  shows "s' = s\<lparr>files := files s'\<rparr>" and "\<forall>g. files s g \<noteq> None \<longrightarrow> files s' g = files s g"
  using assms by (simp_all add: WriteMem2File_Some)

lemma keep_seed_steps:
  assumes "keep_seed E mem len nb ef cf s = Some s'"
  obtains name el cm s1 s2 s3 where "seed_name s nb = Some name"
    and "el = (if ef then Some (outputDir E @ ''errorList/'' @ name) else None)"
    and "cm = (if cf then Some (outputDir E @ ''delayList/'' @ name) else None)"
    and "(case el of None \<Rightarrow> Some s | Some f \<Rightarrow> do {
        s \<leftarrow> WriteMem2File E f (errorList s) (length (errorList s)) s;
        Some (s\<lparr>useful_error_seq := inc64 (useful_error_seq s)\<rparr>) }) = Some s1"
    and "(case cm of None \<Rightarrow> Some s1 | Some f \<Rightarrow> WriteMem2File E f (matrix_bytes (control_matrix s1))
        (length (matrix_bytes (control_matrix s1))) s1) = Some s2"
    and "WriteMem2File E (outputDir E @ ''queue/'' @ name) mem len
        (AddToQueue (outputDir E @ ''queue/'' @ name) len el cm
          (if \<not> ef \<and> \<not> cf then s2\<lparr>usefule_input := inc64 (usefule_input s2)\<rparr> else s2)) = Some s3"
    and "s3\<lparr>queue := (queue s3)[length (queue s3) - 1 := (queue s3 ! (length (queue s3) - 1))
        \<lparr>cksum := trace_cksum (globalTraceBit s3), execTime := 1\<rparr>]\<rparr> = s'"
proof -
  obtain num where num: "num2str_Keep6bit (to_u32 (length (queue s))) = Some num"
    using assms unfolding keep_seed_def bind_eq_Some_conv by blast
  define name where "name = num @ (if nb = 2 then ''+cov'' else ''+tup'')"
  define el where "el = (if ef then Some (outputDir E @ ''errorList/'' @ name) else None)"
  define cm where "cm = (if cf then Some (outputDir E @ ''delayList/'' @ name) else None)"
  have "seed_name s nb = Some name" using num by (simp add: seed_name_def name_def)
  then show ?thesis
    using assms unfolding keep_seed_def num bind.bind_lunit Let_def bind_eq_Some_conv option.inject
      name_def [symmetric] el_def [symmetric] cm_def [symmetric] by - (elim exE conjE, rule that [OF _ el_def cm_def])
qed

lemma keep_seed_spec:
  assumes "keep_seed E mem len nb ef cf s = Some s'"
  shows "\<exists>name fs a b. seed_name s nb = Some name \<and> to_u32 len \<le> length mem \<and>
    s' = s\<lparr>files := fs, useful_error_seq := a, usefule_input := b,
      queue := queue s @ [kept_seed (outputDir E @ ''queue/'' @ name) len
        (if ef then Some (outputDir E @ ''errorList/'' @ name) else None)
        (if cf then Some (outputDir E @ ''delayList/'' @ name) else None) (trace_cksum (globalTraceBit s))]\<rparr> \<and>
    fs (outputDir E @ ''queue/'' @ name) = Some (take (to_u32 len) mem) \<and>
    (\<forall>f. files s f \<noteq> None \<longrightarrow> fs f = files s f)"
proof -
  obtain name el cm s1 s2 s3 where name: "seed_name s nb = Some name"
    and el_def: "el = (if ef then Some (outputDir E @ ''errorList/'' @ name) else None)"
    and cm_def: "cm = (if cf then Some (outputDir E @ ''delayList/'' @ name) else None)"
    and s1: "(case el of None \<Rightarrow> Some s | Some f \<Rightarrow> do {
        s \<leftarrow> WriteMem2File E f (errorList s) (length (errorList s)) s;
        Some (s\<lparr>useful_error_seq := inc64 (useful_error_seq s)\<rparr>) }) = Some s1"
    and s2: "(case cm of None \<Rightarrow> Some s1 | Some f \<Rightarrow> WriteMem2File E f (matrix_bytes (control_matrix s1))
        (length (matrix_bytes (control_matrix s1))) s1) = Some s2"
    and s3: "WriteMem2File E (outputDir E @ ''queue/'' @ name) mem len
        (AddToQueue (outputDir E @ ''queue/'' @ name) len el cm
          (if \<not> ef \<and> \<not> cf then s2\<lparr>usefule_input := inc64 (usefule_input s2)\<rparr> else s2)) = Some s3"
    and s': "s3\<lparr>queue := (queue s3)[length (queue s3) - 1 := (queue s3 ! (length (queue s3) - 1))
        \<lparr>cksum := trace_cksum (globalTraceBit s3), execTime := 1\<rparr>]\<rparr> = s'"
    using keep_seed_steps [OF assms] .
  define fs1 where "fs1 = files s1"
  define a where "a = useful_error_seq s1"
  define fs2 where "fs2 = files s2"
  have e1: "s1 = s\<lparr>files := fs1, useful_error_seq := a\<rparr>"
    and p1: "\<forall>f. files s f \<noteq> None \<longrightarrow> fs1 f = files s f"
    using s1 WriteMem2File_keeps [of E _ _ _ s] unfolding fs1_def a_def
    by (cases el; simp add: bind_eq_Some_conv; fastforce)+
  have "s2 = s1\<lparr>files := fs2\<rparr> \<and> (\<forall>f. fs1 f \<noteq> None \<longrightarrow> fs2 f = fs1 f)"
  proof (cases cm)
    case None
    then show ?thesis using s2 by (simp add: fs1_def fs2_def)
  next
    case (Some f)
    with s2 have w: "WriteMem2File E f (matrix_bytes (control_matrix s1))
        (length (matrix_bytes (control_matrix s1))) s1 = Some s2" by simp
    show ?thesis using WriteMem2File_keeps [OF w] unfolding fs1_def fs2_def by blast
  qed
  then have e2: "s2 = s1\<lparr>files := fs2\<rparr>" and p2: "\<forall>f. fs1 f \<noteq> None \<longrightarrow> fs2 f = fs1 f" by blast+
  define b where "b = (if \<not> ef \<and> \<not> cf then inc64 (usefule_input s) else usefule_input s)"
  let ?f = "outputDir E @ ''queue/'' @ name"
  have s2': "(if \<not> ef \<and> \<not> cf then s2\<lparr>usefule_input := inc64 (usefule_input s2)\<rparr> else s2) =
      s\<lparr>files := fs2, useful_error_seq := a, usefule_input := b\<rparr>"
    by (simp add: e1 e2 b_def)
  have new: "fs2 ?f = None" and len: "to_u32 len \<le> length mem"
    and e3: "s3 = (AddToQueue ?f len el cm (s\<lparr>files := fs2, useful_error_seq := a, usefule_input := b\<rparr>))
        \<lparr>files := fs2(?f \<mapsto> take (to_u32 len) mem)\<rparr>"
    using s3 unfolding s2' by (simp_all add: WriteMem2File_Some AddToQueue_eq)
  have "s' = s\<lparr>files := fs2(?f \<mapsto> take (to_u32 len) mem), useful_error_seq := a, usefule_input := b,
      queue := queue s @ [kept_seed ?f len el cm (trace_cksum (globalTraceBit s))]\<rparr>"
    unfolding s' [symmetric] e3 AddToQueue_eq by (simp add: kept_seed_def)
  moreover have "\<forall>f. files s f \<noteq> None \<longrightarrow> (fs2(?f \<mapsto> take (to_u32 len) mem)) f = files s f"
    using p1 p2 new by (metis fun_upd_other)
  ultimately show ?thesis using len name unfolding el_def cm_def
    by (intro exI [of _ name] exI [of _ "fs2(?f \<mapsto> take (to_u32 len) mem)"] exI [of _ a] exI [of _ b]) simp
qed

lemma keep_seed_ens [ens_rules]:
  assumes "fuzz_rel E n s0 s"
  shows "ensures (keep_seed E mem len nb ef cf s) (fuzz_rel E n s0)"
proof (rule ensuresI)
  fix s' assume run: "keep_seed E mem len nb ef cf s = Some s'"
  obtain fs a b f l el cm ck
    where s': "s' = s\<lparr>files := fs, useful_error_seq := a, usefule_input := b, queue := queue s @ [kept_seed f l el cm ck]\<rparr>"
    and keep: "\<forall>f. files s f \<noteq> None \<longrightarrow> fs f = files s f"
    using keep_seed_spec [OF run] by (elim exE conjE) (rule that)
  have fresh: "fresh_from (length (queue s)) (queue s @ [kept_seed f l el cm ck])"
    by (simp add: fresh_from_def kept_seed_def new_seed_def)
  show "fuzz_rel E n s0 s'"
    unfolding s' by (rule rel_step [OF assms]) (use keep in \<open>auto simp: maps_ok_def grows_def fresh\<close>)
qed

lemma ensures_case_fault:
  assumes "ensures a P" "ensures b P" "ensures c P" "ensures d P" "ensures e P" "ensures f P"
  shows "ensures (case st of FAULT_NONE \<Rightarrow> a | FAULT_TMOUT \<Rightarrow> b | FAULT_CRASH \<Rightarrow> c
    | FAULT_ERROR \<Rightarrow> d | FAULT_NOINST \<Rightarrow> e | FAULT_NOBITS \<Rightarrow> f) P"
  using assms by (cases st) simp_all

lemma AddInterestingSeed_ens [ens_rules]:
  assumes "fuzz_rel E n s0 s"
  shows "ensures (AddInterestingSeed E mem len st s) (\<lambda>(k, s'). fuzz_rel E n s0 s')"
proof -
  obtain nb s1 where nv: "novelty_verdict E s = (nb, s1)" by fastforce
  obtain nt s2 where tv: "travel_verdict E s1 = (nt, s2)" by fastforce
  have rel: "fuzz_rel E n s0 s2"
    using assms nv tv novelty_verdict_rel [of E n s0 s] travel_verdict_rel [of E n s0 s1] by simp
  have "ensures (if nb \<noteq> 0 \<or> nt
      then do { s \<leftarrow> keep_seed E mem len nb (errors_flag E s2) (control_flag E s2) s2; Some (True, s) }
      else Some (False, s2)) (\<lambda>(k, s'). fuzz_rel E n s0 s')"
    using rel by (auto intro!: ensures_if ensures_bind [OF keep_seed_ens] ensures_Some)
  then show ?thesis
    unfolding AddInterestingSeed_def nv Let_def prod.case tv
    by (rule ensures_bind_pair) (rule ens_rules ensures_case_fault | simp)+
qed

lemma sync_rel:
  assumes "fuzz_rel E n s0 s" "length v = n" "length vb = n" "length p = n" "length pb = n"
    "seen (virginMap s) \<subseteq> seen v" "seen (virginMapForBranchTraceBit s) \<subseteq> seen vb"
  shows "fuzz_rel E n s0 (s\<lparr>virginMap := v, sync_cov_ptr := Some p,
    virginMapForBranchTraceBit := vb, sync_branch_cov_ptr := Some pb\<rparr>)"
  using assms by (intro rel_step [OF assms(1)]) (simp_all add: maps_ok_def grows_def)

lemma sync_now_ens [ens_rules]:
  assumes "fuzz_rel E n s0 s"
  shows "ensures (sync_now E s) (fuzz_rel E n s0)"
proof (rule ensuresI)
  fix s' assume *: "sync_now E s = Some s'"
  note len = fuzz_relD [OF assms]
  from * obtain p where p: "sync_cov_ptr s = Some p"
    by (auto simp: sync_now_def bind_eq_Some_conv split: if_splits)
  from * obtain pb where pb: "sync_branch_cov_ptr s = Some pb"
    by (auto simp: sync_now_def bind_eq_Some_conv split: if_splits)
  have lp: "length p = n" "length pb = n" using len(1) p pb by (simp_all add: maps_ok_def)
  have eq: "s' = s\<lparr>virginMap := map2 (AND) p (virginMap s), sync_cov_ptr := Some (map2 (AND) p (virginMap s)),
      virginMapForBranchTraceBit := map2 (AND) pb (virginMapForBranchTraceBit s),
      sync_branch_cov_ptr := Some (map2 (AND) pb (virginMapForBranchTraceBit s))\<rparr>"
    using * len lp p pb by (simp add: sync_now_def sync_coverage_eq split: if_splits)
  show "fuzz_rel E n s0 s'"
    unfolding eq using len(4,6) lp by (intro sync_rel [OF assms]) (simp_all add: seen_and)
qed

lemma sync_instances_ens [ens_rules]:
  "fuzz_rel E n s0 s \<Longrightarrow> ensures (sync_instances E s) (fuzz_rel E n s0)"
  unfolding sync_instances_def
  by (rule ens_binds ens_rules | simp)+

lemma errorList_rel:
  "fuzz_rel E n s0 s \<Longrightarrow> length el = length (errorList s) \<Longrightarrow> fuzz_rel E n s0 (s\<lparr>errorList := el\<rparr>)"
  by (erule rel_step) (simp_all add: maps_ok_def grows_def)

lemma set_error_list_ens:
  assumes "fuzz_rel E n s0 s"
  shows "ensures (case el of Some el \<Rightarrow> do {
        xs \<leftarrow> mem_read 0 (length (errorList s)) el;
        Some (s\<lparr>total_error_seq := inc64 (total_error_seq s), errorList := xs\<rparr>) }
      | None \<Rightarrow> Some (s\<lparr>total_input := inc64 (total_input s)\<rparr>)) (fuzz_rel E n s0)"
proof (cases el)
  case (Some e)
  show ?thesis
    unfolding Some option.case
    by (rule ensures_bind [OF mem_read_ens], rule ensures_Some, rule errorList_rel) (simp_all add: assms)
qed (simp add: assms ensures_Some)

lemma FuzzUnit_ens [ens_rules]:
  assumes "fuzz_rel E n s0 s"
  shows "ensures (FuzzUnit E filemap len el cm s) (\<lambda>(r, s'). r = 0 \<and> fuzz_rel E n s0 s')"
  unfolding FuzzUnit_def
proof (rule ensures_bind [OF sync_instances_ens [OF assms]], rule ensures_bind [OF set_error_list_ens], assumption)
  fix s1 s2 assume "fuzz_rel E n s0 s2"
  then have "fuzz_rel E n s0 (case cm of None \<Rightarrow> s2
      | Some cm \<Rightarrow> if NO_CONCURRENCY_FUZZ E then s2 else s2\<lparr>control_matrix := cm\<rparr>)"
    by (simp split: option.split)
  then show "ensures (let s = (case cm of None \<Rightarrow> s2
        | Some cm \<Rightarrow> if NO_CONCURRENCY_FUZZ E then s2 else s2\<lparr>control_matrix := cm\<rparr>) in
      do { s \<leftarrow> WriteToTestcase E filemap len s;
           (run_status, s) \<leftarrow> ExecuteCase E (exec_tmout s) s;
           (_, s) \<leftarrow> AddInterestingSeed E filemap (to_u32 len) run_status s;
           Some (0, print_result E ''temp stage'' s) }) (\<lambda>(r, s'). r = 0 \<and> fuzz_rel E n s0 s')"
    by - (rule ens_binds ens_rules | assumption | simp add: print_result_rel)+
qed

end
