(* ===== verification/Unit_Properties.thy ===== *)
theory Unit_Properties
  imports Test_Running
begin

text \<open>
  Properties of the unit of fuzzing (\<open>FuzzUnit\<close>) and of its parts: what a unit can and
  cannot change, which crashes count as new, that every seed of the queue has its file, and
  where the synchronisation of coverage ends the process.
\<close>

section \<open>Crash accounting\<close>

lemma trace_news_iff:
  assumes "length old = n" "length g = n"
  shows "trace_news (MinimizeBit g) old \<longleftrightarrow> (\<exists>i < n. g ! i \<noteq> 0 \<and> \<not> old ! i)"
  using assms by (auto simp: trace_news_def MinimizeBit_def list_ex_length)

lemma MinimizeBit_nth: "i < length g \<Longrightarrow> MinimizeBit g ! i \<longleftrightarrow> g ! i \<noteq> 0"
  by (simp add: MinimizeBit_def)

lemma WriteMem2File_files:
  "ensures (WriteMem2File E f mem len s) (\<lambda>s'. \<exists>fs. s' = s\<lparr>files := fs\<rparr>)"
  by (auto simp: ensures_def WriteMem2File_Some)

lemma crash_handler_cases:
  "ensures (crash_handler E keeping mem len s) (\<lambda>(k, s').
    total_crash_count s' = inc32 (total_crash_count s) \<and>
    (if trace_news (MinimizeBit (globalTraceBit s)) (crashTrace s)
     then k \<and> unique_crash_count s' = inc32 (unique_crash_count s) \<and>
       crashTrace s' = map2 (\<or>) (crashTrace s) (MinimizeBit (globalTraceBit s))
     else k = keeping \<and> unique_crash_count s' = unique_crash_count s \<and> crashTrace s' = crashTrace s))"
  unfolding crash_handler_def GetCurTimeUs_def Let_def prod.case
  by (cases keeping)
    (rule ensures_bind [OF num2str_ens] ensures_bind [OF WriteMem2File_files] ensures_if ensures_Some
      | (elim exE, simp split del: if_split)[1])+

section \<open>Every seed has its file\<close>

definition queue_files_ok :: "fuzz_env \<Rightarrow> fuzzer \<Rightarrow> bool" where
  "queue_files_ok E s \<longleftrightarrow>
     (\<forall>sd \<in> set (queue s). fileName sd \<noteq> testfile E \<and>
        (case files s (fileName sd) of None \<Rightarrow> False | Some c \<Rightarrow> length c = fileLen sd))"

lemma queue_files_ok_iff:
  "queue_files_ok E s \<longleftrightarrow>
     (\<forall>sd \<in> set (queue s). fileName sd \<noteq> testfile E \<and>
        (\<exists>c. files s (fileName sd) = Some c \<and> length c = fileLen sd))"
proof -
  have "(case x of None \<Rightarrow> False | Some c \<Rightarrow> length c = n) \<longleftrightarrow> (\<exists>c. x = Some c \<and> length c = n)"
    for x :: "u8 list option" and n by (cases x) simp_all
  then show ?thesis by (simp add: queue_files_ok_def)
qed

lemma queue_files_ok_same:
  assumes "queue_files_ok E s" and "queue s' = queue s"
    and "\<And>f. f \<noteq> testfile E \<Longrightarrow> files s f \<noteq> None \<Longrightarrow> files s' f = files s f"
  shows "queue_files_ok E s'"
  unfolding queue_files_ok_iff
proof
  fix sd assume "sd \<in> set (queue s')"
  then obtain c where c: "fileName sd \<noteq> testfile E" "files s (fileName sd) = Some c" "length c = fileLen sd"
    using assms(1,2) unfolding queue_files_ok_iff by auto
  then have "files s' (fileName sd) = Some c" using assms(3) [of "fileName sd"] by simp
  then show "fileName sd \<noteq> testfile E \<and> (\<exists>c. files s' (fileName sd) = Some c \<and> length c = fileLen sd)"
    using c by blast
qed

lemma queue_files_ok_fields [simp]:
  "queue_files_ok E (s\<lparr>unique_crash_count := a\<rparr>) = queue_files_ok E s"
  "queue_files_ok E (s\<lparr>unique_hang_count := a\<rparr>) = queue_files_ok E s"
  "queue_files_ok E (s\<lparr>total_crash_count := a\<rparr>) = queue_files_ok E s"
  "queue_files_ok E (s\<lparr>total_timeout_count := a\<rparr>) = queue_files_ok E s"
  "queue_files_ok E (s\<lparr>unique_ex_hang_count := a\<rparr>) = queue_files_ok E s"
  "queue_files_ok E (s\<lparr>total_ex_timeout_count := a\<rparr>) = queue_files_ok E s"
  "queue_files_ok E (s\<lparr>unique_ex_crash_count := a\<rparr>) = queue_files_ok E s"
  "queue_files_ok E (s\<lparr>total_input := a\<rparr>) = queue_files_ok E s"
  "queue_files_ok E (s\<lparr>usefule_input := a\<rparr>) = queue_files_ok E s"
  "queue_files_ok E (s\<lparr>total_error_seq := a\<rparr>) = queue_files_ok E s"
  "queue_files_ok E (s\<lparr>useful_error_seq := a\<rparr>) = queue_files_ok E s"
  "queue_files_ok E (s\<lparr>fuzz_time := a\<rparr>) = queue_files_ok E s"
  "queue_files_ok E (s\<lparr>clock := c\<rparr>) = queue_files_ok E s"
  "queue_files_ok E (s\<lparr>plot := p\<rparr>) = queue_files_ok E s"
  "queue_files_ok E (s\<lparr>errorList := el\<rparr>) = queue_files_ok E s"
  "queue_files_ok E (s\<lparr>control_matrix := cm\<rparr>) = queue_files_ok E s"
  "queue_files_ok E (s\<lparr>total_travel := h\<rparr>) = queue_files_ok E s"
  "queue_files_ok E (s\<lparr>crashTrace := bt\<rparr>) = queue_files_ok E s"
  "queue_files_ok E (s\<lparr>timeoutTrace := bt\<rparr>) = queue_files_ok E s"
  "queue_files_ok E (s\<lparr>fu_list := fl\<rparr>) = queue_files_ok E s"
  "queue_files_ok E (s\<lparr>virginMap := v\<rparr>) = queue_files_ok E s"
  "queue_files_ok E (s\<lparr>virginMapForBranchTraceBit := v\<rparr>) = queue_files_ok E s"
  "queue_files_ok E (s\<lparr>sync_cov_ptr := po\<rparr>) = queue_files_ok E s"
  "queue_files_ok E (s\<lparr>sync_branch_cov_ptr := po\<rparr>) = queue_files_ok E s"
  by (simp_all add: queue_files_ok_def)

named_theorems qf_rules \<open>operations that keep the seeds' files\<close>

lemmas [qf_rules] = ensures_Some ensures_None ensures_if ensures_case_option ensures_Let
  ensures_case_prod num2str_ens

lemma WriteMem2File_qf [qf_rules]:
  "queue_files_ok E s \<Longrightarrow> ensures (WriteMem2File E f mem len s) (queue_files_ok E)"
  by (rule ensuresI, erule queue_files_ok_same) (auto simp: WriteMem2File_Some)

lemma WriteToTestcase_qf [qf_rules]:
  "queue_files_ok E s \<Longrightarrow> ensures (WriteToTestcase E mem len s) (queue_files_ok E)"
  by (rule ensuresI, erule queue_files_ok_same)
    (auto simp: WriteToTestcase_def bind_eq_Some_conv split: if_splits)

lemma ExecuteCase_qf [qf_rules]:
  assumes "queue_files_ok E s"
  shows "ensures (ExecuteCase E t s) (\<lambda>(st, s'). queue_files_ok E s')"
proof (rule ensuresI)
  fix x assume "ExecuteCase E t s = Some x"
  then obtain r where "snd x = after_run r (reset_before_run E s)"
    by (auto simp: ExecuteCase_def Let_def bind_eq_Some_conv)
  then have "queue (snd x) = queue s" "files (snd x) = files s"
    by (simp_all add: after_run_def reset_before_run_def Let_def)
  then show "case x of (st, s') \<Rightarrow> queue_files_ok E s'"
    using queue_files_ok_same [OF assms, of "snd x"] by (simp add: case_prod_beta)
qed

lemma crash_handler_qf [qf_rules]:
  "queue_files_ok E s \<Longrightarrow> ensures (crash_handler E keeping mem len s) (\<lambda>(k, s'). queue_files_ok E s')"
  unfolding crash_handler_def GetCurTimeUs_def by (rule ens_binds qf_rules | simp)+

lemma ex_crash_handler_qf [qf_rules]:
  "queue_files_ok E s \<Longrightarrow> ensures (ex_crash_handler E keeping mem len s) (\<lambda>(k, s'). queue_files_ok E s')"
  unfolding ex_crash_handler_def GetCurTimeUs_def save_crashed_fu_def by (rule ens_binds qf_rules | simp)+

lemma hang_handler_qf [qf_rules]:
  "queue_files_ok E s \<Longrightarrow> ensures (hang_handler E keeping mem len s) (\<lambda>(k, s'). queue_files_ok E s')"
  unfolding hang_handler_def GetCurTimeUs_def by (rule ens_binds qf_rules | simp)+

lemma ex_hang_handler_qf [qf_rules]:
  "queue_files_ok E s \<Longrightarrow> ensures (ex_hang_handler E keeping mem len s) (\<lambda>(k, s'). queue_files_ok E s')"
  unfolding ex_hang_handler_def GetCurTimeUs_def by (rule ens_binds qf_rules | simp)+

lemma keep_seed_qf:
  assumes ok: "queue_files_ok E s" and dir: "\<not> prefix (outputDir E) (testfile E)" and len: "len < 2 ^ 32"
  shows "ensures (keep_seed E mem len nb ef cf s) (queue_files_ok E)"
proof (rule ensuresI)
  fix s' assume "keep_seed E mem len nb ef cf s = Some s'"
  then obtain name fs a b where mem: "to_u32 len \<le> length mem"
    and s': "s' = s\<lparr>files := fs, useful_error_seq := a, usefule_input := b,
      queue := queue s @ [kept_seed (outputDir E @ ''queue/'' @ name) len
        (if ef then Some (outputDir E @ ''errorList/'' @ name) else None)
        (if cf then Some (outputDir E @ ''delayList/'' @ name) else None) (trace_cksum (globalTraceBit s))]\<rparr>"
    and new: "fs (outputDir E @ ''queue/'' @ name) = Some (take (to_u32 len) mem)"
    and old: "\<forall>f. files s f \<noteq> None \<longrightarrow> fs f = files s f"
    using keep_seed_spec [of E mem len nb ef cf s s'] by blast
  have "queue_files_ok E (s\<lparr>files := fs\<rparr>)"
    using old by (intro queue_files_ok_same [OF ok]) auto
  moreover have "outputDir E @ ''queue/'' @ name \<noteq> testfile E" using dir by (metis prefixI)
  ultimately show "queue_files_ok E s'"
    using new mem len unfolding s' queue_files_ok_iff by (auto simp: kept_seed_def new_seed_def)
qed

lemma AddInterestingSeed_qf:
  assumes ok: "queue_files_ok E s" and dir: "\<not> prefix (outputDir E) (testfile E)" and len: "len < 2 ^ 32"
  shows "ensures (AddInterestingSeed E mem len st s) (\<lambda>(k, s'). queue_files_ok E s')"
proof -
  obtain nb s1 where nv: "novelty_verdict E s = (nb, s1)" by fastforce
  obtain nt s2 where tv: "travel_verdict E s1 = (nt, s2)" by fastforce
  have "queue_files_ok E s1"
    using ok nv by (auto simp: novelty_verdict_def Let_def case_prod_beta)
  then have s2: "queue_files_ok E s2"
    using tv by (auto simp: travel_verdict_def Let_def case_prod_beta split: if_splits)
  have "ensures (if nb \<noteq> 0 \<or> nt
      then do { s \<leftarrow> keep_seed E mem len nb (errors_flag E s2) (control_flag E s2) s2; Some (True, s) }
      else Some (False, s2)) (\<lambda>(k, s'). queue_files_ok E s')"
    using s2 by (auto intro!: ensures_if ensures_bind [OF keep_seed_qf [OF s2 dir len]] ensures_Some)
  then show ?thesis
    unfolding AddInterestingSeed_def nv Let_def prod.case tv
    by (rule ensures_bind_pair) (rule qf_rules ensures_case_fault | simp)+
qed

lemma ensures_True_pair: "ensures m (\<lambda>(a, b). True)"
  by (simp add: ensures_def)

lemma sync_instances_qf:
  "queue_files_ok E s \<Longrightarrow> ensures (sync_instances E s) (queue_files_ok E)"
  unfolding sync_instances_def sync_now_def
  by (rule ensures_bind_pair [OF ensures_True_pair] ensures_bind [OF ensures_True] qf_rules | simp)+

lemma FuzzUnit_qf:
  assumes ok: "queue_files_ok E s" and dir: "\<not> prefix (outputDir E) (testfile E)"
  shows "ensures (FuzzUnit E filemap len el cm s) (\<lambda>(r, s'). queue_files_ok E s')"
proof -
  have el: "ensures (case el of Some el \<Rightarrow> do {
        xs \<leftarrow> mem_read 0 (length (errorList s)) el;
        Some (s\<lparr>total_error_seq := inc64 (total_error_seq s), errorList := xs\<rparr>) }
      | None \<Rightarrow> Some (s\<lparr>total_input := inc64 (total_input s)\<rparr>)) (queue_files_ok E)"
    if "queue_files_ok E s" for s
    using that by (auto simp: ensures_def bind_eq_Some_conv split: option.splits)
  have add: "ensures (AddInterestingSeed E mem (to_u32 l) st s) (\<lambda>(k, s'). queue_files_ok E s')"
    if "queue_files_ok E s" for mem l st s
    by (rule AddInterestingSeed_qf [OF that dir]) (use to_u32_less [of l] in simp)
  have cm: "queue_files_ok E (case cm of None \<Rightarrow> s2
      | Some cm \<Rightarrow> if NO_CONCURRENCY_FUZZ E then s2 else s2\<lparr>control_matrix := cm\<rparr>)"
    if "queue_files_ok E s2" for s2 using that by (simp split: option.split)
  have pr: "queue_files_ok E (print_result E st s) = queue_files_ok E s" for st s
    by (simp add: print_result_def GetTimeStr_def GetCurTimeUs_def Let_def)
  show ?thesis
    unfolding FuzzUnit_def
    by (rule ensures_bind [OF sync_instances_qf [OF ok]], rule ensures_bind [OF el], assumption)
      (rule ens_binds qf_rules add cm | assumption | simp add: pr)+
qed

section \<open>Fault units\<close>

lemma WriteMem2File_fu:
  "errorList s = el \<Longrightarrow> fu_list s = fl \<Longrightarrow>
   ensures (WriteMem2File E f mem len s) (\<lambda>s'. errorList s' = el \<and> fu_list s' = fl)"
  by (auto simp: ensures_def WriteMem2File_Some)

lemma ex_crash_handler_cases:
  "ensures (ex_crash_handler E keeping mem len s) (\<lambda>(k, s').
    errorList s' = errorList s \<and>
    fu_list s' = (if is_unique_fault (fu_list s) (errorList s)
      then fu_list s @ [fault_unit_of (errorList s)] else fu_list s))"
  unfolding ex_crash_handler_def GetCurTimeUs_def save_crashed_fu_def
  by (rule ens_binds WriteMem2File_fu num2str_ens ensures_if ensures_Some ensures_Let ensures_case_prod
      | simp)+

section \<open>Properties\<close>

lemma first_number: "\<exists>d. num2str_Keep6bit (inc32 0) = Some d"
  by (simp add: num2str_Keep6bit_def inc32_def dec_digits.simps Let_def)

lemma quiet_unit_returns: "\<exists>r s'. FuzzUnit plain_env [1, 2] 2 None None one_seed = Some (r, s')"
proof -
  have "has_new_bits (replicate 8 0) (replicate 8 255) = (0, replicate 8 255)"
    by (simp add: has_new_bits_bytewise novelty_def virgin_after_def zip_replicate)
  moreover have "classify_counts (replicate 8 0) = replicate 8 0"
    by (simp add: classify_counts_map count_class_lookup8_def)
  ultimately show ?thesis
    by (simp add: FuzzUnit_def plain_env_def quiet_run_def one_seed_def initial_fuzzer_def sync_instances_def
        WriteToTestcase_def mem_read_def ExecuteCase_def reset_before_run_def run_verdict_def after_run_def
        apply_stores_def AddInterestingSeed_def novelty_verdict_def travel_verdict_def errors_flag_def
        control_flag_def)
qed

text \<open>
  C9: a unit of fuzzing never loses anything.  The queue, the coverage seen, the records of
  crashing and hanging traces, the saved fault units and the log only grow; the table of best
  seeds, the timeouts and the dictionaries stay; every file but the test case keeps its
  contents; and the unit reports no failure.
\<close>

theorem FuzzUnit_only_grows:
  assumes "maps_ok n s" and "FuzzUnit E filemap len el cm s = Some (r, s')"
  shows "r = 0 \<and> maps_ok n s' \<and> grows E s s'"
  using ensuresD [OF FuzzUnit_ens [OF fuzz_rel_refl [OF assms(1)]] assms(2)] by (simp add: fuzz_rel_def)

theorem FuzzUnit_only_grows_witness:
  "\<exists>r s'. FuzzUnit plain_env [1, 2] 2 None None one_seed = Some (r, s') \<and> maps_ok 8 s' \<and> grows plain_env one_seed s'"
proof -
  obtain r s' where run: "FuzzUnit plain_env [1, 2] 2 None None one_seed = Some (r, s')"
    using quiet_unit_returns by blast
  have "maps_ok 8 one_seed" by (simp add: maps_ok_def one_seed_def initial_fuzzer_def)
  from FuzzUnit_only_grows [OF this run] run show ?thesis by blast
qed

text \<open>
  C12: a crash counts as new exactly when its trace hits an index that no earlier counted crash
  hit; afterwards every index of its trace is recorded, so the same trace is never counted
  again.
\<close>

theorem crash_handler_counts_new_traces:
  assumes "maps_ok n s" and "crash_handler E keeping mem len s = Some (k, s')"
  shows "unique_crash_count s' =
      (if \<exists>i < n. globalTraceBit s ! i \<noteq> 0 \<and> \<not> crashTrace s ! i
       then inc32 (unique_crash_count s) else unique_crash_count s) \<and>
    total_crash_count s' = inc32 (total_crash_count s) \<and>
    (\<forall>i < n. crashTrace s' ! i \<longleftrightarrow> crashTrace s ! i \<or> globalTraceBit s ! i \<noteq> 0)"
proof -
  have len: "length (crashTrace s) = n" "length (globalTraceBit s) = n" using assms(1) by (simp_all add: maps_ok_def)
  note c = ensuresD [OF crash_handler_cases assms(2), unfolded prod.case]
  show ?thesis
  proof (cases "trace_news (MinimizeBit (globalTraceBit s)) (crashTrace s)")
    case True
    then show ?thesis using c len by (simp add: trace_news_iff [OF len] MinimizeBit_nth)
  next
    case False
    then show ?thesis using c len by (auto simp: trace_news_iff [OF len])
  qed
qed

theorem crash_handler_counts_new_traces_witness:
  "\<exists>k s'. crash_handler plain_env False [1] 1 (one_seed\<lparr>globalTraceBit := [1, 0, 0, 0, 0, 0, 0, 0]\<rparr>) = Some (k, s') \<and>
    unique_crash_count s' = inc32 0 \<and> crashTrace s' ! 0"
proof -
  let ?s = "one_seed\<lparr>globalTraceBit := [1, 0, 0, 0, 0, 0, 0, 0]\<rparr>"
  obtain d where digits: "num2str_Keep6bit (inc32 0) = Some d" using first_number by blast
  have ok: "maps_ok 8 ?s" by (simp add: maps_ok_def one_seed_def initial_fuzzer_def dvd8_eight)
  have "\<exists>k s'. crash_handler plain_env False [1] 1 ?s = Some (k, s')"
    by (simp add: crash_handler_def one_seed_def initial_fuzzer_def plain_env_def digits GetCurTimeUs_def
        WriteMem2File_def mem_read_def Let_def) auto
  then obtain k s' where run: "crash_handler plain_env False [1] 1 ?s = Some (k, s')" by blast
  have "\<exists>i < 8. globalTraceBit ?s ! i \<noteq> 0 \<and> \<not> crashTrace ?s ! i"
    by (intro exI [of _ 0]) (simp add: one_seed_def initial_fuzzer_def)
  moreover have "unique_crash_count ?s = 0" by (simp add: one_seed_def initial_fuzzer_def)
  ultimately show ?thesis using crash_handler_counts_new_traces [OF ok run] run by auto
qed

text \<open>
  C10: every seed of the queue always has its file, holding as many bytes as the seed records,
  so reading or mapping a seed never runs short.  A unit of fuzzing keeps this, provided the
  test case file lies outside the output directory.
\<close>

theorem FuzzUnit_keeps_seed_files:
  assumes "queue_files_ok E s" and "\<not> prefix (outputDir E) (testfile E)"
    and "FuzzUnit E filemap len el cm s = Some (r, s')"
  shows "queue_files_ok E s'"
  using ensuresD [OF FuzzUnit_qf [OF assms(1,2)] assms(3)] by simp

theorem FuzzUnit_keeps_seed_files_witness:
  "\<exists>r s'. FuzzUnit plain_env [1, 2] 2 None None one_seed = Some (r, s') \<and> queue_files_ok plain_env s'"
proof -
  obtain r s' where run: "FuzzUnit plain_env [1, 2] 2 None None one_seed = Some (r, s')"
    using quiet_unit_returns by blast
  have "queue_files_ok plain_env one_seed" "\<not> prefix (outputDir plain_env) (testfile plain_env)"
    by (simp_all add: queue_files_ok_def one_seed_def initial_fuzzer_def new_seed_def plain_env_def)
  from FuzzUnit_keeps_seed_files [OF this run] run show ?thesis by blast
qed



text \<open>
  An instance started without \<open>-M\<close> or \<open>-S\<close> has no shared coverage, but coverage
  synchronisation is on by default: its tenth unit of fuzzing ends the process.
\<close>

theorem standalone_unit_dies:
  assumes "sync_cov E" and "sync_state E \<noteq> ''MASTER''" and "slave_sync_cycle E = 10"
    and "fuzz_time s = 9" and "sync_cov_ptr s = None"
  shows "FuzzUnit E filemap len el cm s = None"
  using assms by (simp add: FuzzUnit_def sync_instances_def sync_now_def Let_def)

theorem standalone_unit_dies_witness:
  "FuzzUnit plain_env [1, 2] 2 None None (one_seed\<lparr>fuzz_time := 9\<rparr>) = None"
  by (rule standalone_unit_dies) (simp_all add: plain_env_def one_seed_def initial_fuzzer_def)

end
