(* ===== verification/Trim.thy ===== *)
theory Trim
  imports Unit_Properties
begin

text \<open>
  Trimming a seed (\<open>Trim.cpp\<close>): blocks are cut out of the test case as long as the
  checksum of the trace stays the same.  The three loops of the code are
  \<open>partial_function\<close>s, so that a loop that never ends has the value \<^term>\<open>None\<close>,
  and the theorems show that they return.

  Positions and lengths stay below the size of an allocated buffer plus one step, so the
  additions on \<open>u64\<close> do not wrap; arguments of type \<open>u32\<close> are truncated as in the code.
\<close>

section \<open>Powers of two\<close>

partial_function (option) min_pow2_loop :: "u64 \<Rightarrow> u64 \<Rightarrow> u64 option" where
  "min_pow2_loop len ret = (if len > ret then min_pow2_loop len (push_bit 1 ret) else Some ret)"

definition min_pow2 :: "u64 \<Rightarrow> u64 option" where
  "min_pow2 len = min_pow2_loop len 1"

section \<open>The loops of TrimCase\<close>

definition TRIM_MIN_BYTES :: nat where "TRIM_MIN_BYTES = 4"
definition TRIM_START_STEP :: nat where "TRIM_START_STEP = 16"
definition TRIM_END_STEP :: nat where "TRIM_END_STEP = 1024"

definition WriteGapTestcase :: "fuzz_env \<Rightarrow> u8 list \<Rightarrow> nat \<Rightarrow> nat \<Rightarrow> nat \<Rightarrow> fuzzer \<Rightarrow> fuzzer option" where
  "WriteGapTestcase E mem len skip_at skip_len s =
     (let len = to_u32 len; skip_at = to_u32 skip_at; skip_len = to_u32 skip_len;
          tail = usub32 (usub32 len skip_at) skip_len
      in if \<not> io_ok E (testfile E) then None
         else do {
           head \<leftarrow> (if skip_at \<noteq> 0 then mem_read 0 skip_at mem else Some []);
           rest \<leftarrow> (if skip_len \<noteq> 0 then mem_read (skip_at + skip_len) tail mem else Some []);
           Some (s\<lparr>files := (files s)(testfile E \<mapsto> head @ rest)\<rparr>) })"

record trim =
  min_pow2_of_file_size :: nat
  trim_pos :: nat
  inBuf :: "u8 list"
  should_be_write :: bool
  TrimTrace :: "u8 list"
  trim_fault :: "fault option"
  fuzz :: fuzzer

definition trim_len :: "nat \<Rightarrow> trim \<Rightarrow> nat" where
  "trim_len q t = fileLen (queue (fuzz t) ! q)"

definition set_fileLen :: "nat \<Rightarrow> nat \<Rightarrow> fuzzer \<Rightarrow> fuzzer" where
  "set_fileLen q n s = s\<lparr>queue := (queue s)[q := (queue s ! q)\<lparr>fileLen := n\<rparr>]\<rparr>"

definition trim_accept :: "nat \<Rightarrow> nat \<Rightarrow> nat \<Rightarrow> trim \<Rightarrow> trim option" where
  "trim_accept q flen avail t =
     do {
       let move_tail = to_u32 (flen - trim_pos t - avail);
       let t = t\<lparr>fuzz := set_fileLen q (flen - avail) (fuzz t)\<rparr>;
       p2 \<leftarrow> min_pow2 (of_nat (flen - avail));
       buf \<leftarrow> memmove (trim_pos t) (trim_pos t + avail) move_tail (inBuf t);
       let t = t\<lparr>min_pow2_of_file_size := unat p2, inBuf := buf\<rparr>;
       Some (if should_be_write t then t
             else t\<lparr>should_be_write := True, TrimTrace := globalTraceBit (fuzz t)\<rparr>)
     }"

definition trim_step :: "fuzz_env \<Rightarrow> nat \<Rightarrow> nat \<Rightarrow> trim \<Rightarrow> trim option" where
  "trim_step E q trim_size t =
     do {
       let flen = trim_len q t;
       let trim_avail_size = min trim_size (flen - trim_pos t);
       s \<leftarrow> WriteGapTestcase E (inBuf t) flen (trim_pos t) trim_avail_size (fuzz t);
       (fault, s) \<leftarrow> ExecuteCase E (exec_tmout s) s;
       let t = t\<lparr>fuzz := s\<rparr>;
       if fault = FAULT_ERROR then Some (t\<lparr>trim_fault := Some fault\<rparr>)
       else if trace_cksum (globalTraceBit s) = cksum (queue s ! q) then trim_accept q flen trim_avail_size t
       else Some (t\<lparr>trim_pos := trim_pos t + trim_size\<rparr>)
     }"

partial_function (option) trim_inner :: "fuzz_env \<Rightarrow> nat \<Rightarrow> nat \<Rightarrow> trim \<Rightarrow> trim option" where
  "trim_inner E q trim_size t =
     (if trim_fault t = None \<and> trim_pos t < trim_len q t
      then do { t \<leftarrow> trim_step E q trim_size t; trim_inner E q trim_size t }
      else Some t)"

partial_function (option) trim_outer :: "fuzz_env \<Rightarrow> nat \<Rightarrow> nat \<Rightarrow> trim \<Rightarrow> trim option" where
  "trim_outer E q trim_size t =
     (if trim_fault t = None \<and> trim_size \<ge> max (min_pow2_of_file_size t div TRIM_END_STEP) TRIM_MIN_BYTES
      then do {
        t \<leftarrow> trim_inner E q trim_size (t\<lparr>trim_pos := trim_size\<rparr>);
        trim_outer E q (trim_size div 2) t }
      else Some t)"

definition trim_save :: "fuzz_env \<Rightarrow> nat \<Rightarrow> trim \<Rightarrow> fuzzer option" where
  "trim_save E q t =
     (let s = fuzz t; name = fileName (queue s ! q); flen = trim_len q t
      in if \<not> io_ok E name \<or> flen \<ge> 2 ^ 31 then None
         else do {
           xs \<leftarrow> mem_read 0 flen (inBuf t);
           let s = s\<lparr>files := (files s)(name \<mapsto> xs), globalTraceBit := TrimTrace t\<rparr>;
           Some (UpdateQueueTop q (globalTraceBit s) s) })"

definition TrimCase :: "fuzz_env \<Rightarrow> nat \<Rightarrow> u8 list \<Rightarrow> fuzzer \<Rightarrow> (fault \<times> u8 list \<times> fuzzer) option" where
  "TrimCase E q buf s =
     (let flen = fileLen (queue s ! q)
      in if flen < 5 then Some (FAULT_NONE, buf, s)
         else do {
           p2 \<leftarrow> min_pow2 (of_nat flen);
           t \<leftarrow> trim_outer E q (max (unat p2 div TRIM_START_STEP) TRIM_MIN_BYTES)
                  \<lparr>min_pow2_of_file_size = unat p2, trim_pos = 0, inBuf = buf, should_be_write = False,
                   TrimTrace = [], trim_fault = None, fuzz = s\<rparr>;
           case trim_fault t of
             Some f \<Rightarrow> Some (f, inBuf t, fuzz t)
           | None \<Rightarrow>
               if should_be_write t then do { s \<leftarrow> trim_save E q t; Some (FAULT_NONE, inBuf t, s) }
               else Some (FAULT_NONE, inBuf t, fuzz t) })"

section \<open>The power of two above a length\<close>

lemma unat_2_power: "k < 64 \<Longrightarrow> unat (2 ^ k :: u64) = 2 ^ k"
proof -
  assume "k < 64"
  then have "(2 :: nat) ^ k < 2 ^ 64" by (intro power_strict_increasing) simp_all
  moreover have "(2 ^ k :: u64) = of_nat (2 ^ k)" by simp
  ultimately show ?thesis using unat_of_nat [of "2 ^ k", where 'a = 64] by simp
qed

lemma push_bit_2_power: "push_bit 1 (2 ^ k :: u64) = 2 ^ Suc k"
  by (simp add: push_bit_eq_mult)

lemma min_pow2_loop_unfold:
  assumes "k < 64"
  shows "2 ^ k < unat len \<Longrightarrow> min_pow2_loop len (2 ^ k) = min_pow2_loop len (2 ^ Suc k)"
    and "unat len \<le> 2 ^ k \<Longrightarrow> min_pow2_loop len (2 ^ k) = Some (2 ^ k)"
proof -
  have cmp: "2 ^ k < len \<longleftrightarrow> 2 ^ k < unat len"
    unfolding word_less_nat_alt unat_2_power [OF assms] ..
  show "min_pow2_loop len (2 ^ k) = min_pow2_loop len (2 ^ Suc k)" if "2 ^ k < unat len"
    using that unfolding cmp [symmetric] by (subst min_pow2_loop.simps) (simp only: push_bit_2_power if_True)
  show "min_pow2_loop len (2 ^ k) = Some (2 ^ k)" if "unat len \<le> 2 ^ k"
    using that unfolding not_less [symmetric] cmp [symmetric]
    by (subst min_pow2_loop.simps) (simp only: if_False)
qed

lemma min_pow2_loop_returns:
  assumes "k \<le> 63" and "unat len \<le> 2 ^ 63" and "k = 0 \<or> 2 ^ (k - 1) < unat len"
  shows "\<exists>m \<le> 63. min_pow2_loop len (2 ^ k) = Some (2 ^ m) \<and> unat len \<le> 2 ^ m \<and> (m = 0 \<or> 2 ^ (m - 1) < unat len)"
  using assms(1,3)
proof (induction "63 - k" arbitrary: k)
  case 0
  then have "k = 63" by simp
  with 0 show ?case using min_pow2_loop_unfold(2) [of k len] assms(2) by auto
next
  case (Suc n)
  have k: "k < 64" "Suc k \<le> 63" "n = 63 - Suc k" using Suc.hyps(2) by simp_all
  show ?case
  proof (cases "2 ^ k < unat len")
    case True
    then have "Suc k = 0 \<or> 2 ^ (Suc k - 1) < unat len" by simp
    from Suc.hyps(1) [OF k(3,2) this] show ?thesis
      unfolding min_pow2_loop_unfold(1) [OF k(1) True] .
  next
    case False
    then show ?thesis using min_pow2_loop_unfold(2) [OF k(1), of len] Suc.prems by (auto simp: not_less)
  qed
qed

lemma min_pow2_spec:
  assumes "unat len \<le> 2 ^ 63"
  shows "\<exists>m \<le> 63. min_pow2 len = Some (2 ^ m) \<and> unat len \<le> 2 ^ m \<and> (m = 0 \<or> 2 ^ (m - 1) < unat len)"
  using min_pow2_loop_returns [of 0 len] assms by (simp add: min_pow2_def)

text \<open>From a power of two the doubling reaches only powers of two and, by overflow, zero.\<close>

definition pow2_or_0 :: "u64 \<Rightarrow> bool" where
  "pow2_or_0 w \<longleftrightarrow> w = 0 \<or> (\<exists>k < 64. w = 2 ^ k)"

lemma pow2_or_0_double: "pow2_or_0 w \<Longrightarrow> pow2_or_0 (push_bit 1 w)"
proof (cases "w = 0 \<or> w = 2 ^ 63")
  case True
  then show ?thesis by (auto simp: pow2_or_0_def push_bit_eq_mult)
next
  case False
  moreover assume "pow2_or_0 w"
  ultimately obtain k where k: "k < 64" "w = 2 ^ k" unfolding pow2_or_0_def by blast
  with False have "k \<noteq> 63" by blast
  with k have "Suc k < 64" by simp
  then show ?thesis unfolding pow2_or_0_def k(2) push_bit_2_power by blast
qed

lemma min_pow2_loop_result:
  assumes "min_pow2_loop len ret = Some y"
  shows "pow2_or_0 ret \<longrightarrow> len \<le> y \<and> pow2_or_0 y"
  using assms
proof (rule min_pow2_loop.raw_induct [rotated], goal_cases)
  case (1 loop len ret y)
  then show ?case
    using pow2_or_0_double [of ret] by (cases "ret < len") auto
qed

lemma min_pow2_diverges:
  assumes "2 ^ 63 < unat len"
  shows "min_pow2 len = None"
proof (rule ccontr)
  assume "min_pow2 len \<noteq> None"
  then obtain y where "min_pow2_loop len 1 = Some y" by (auto simp: min_pow2_def)
  moreover have "pow2_or_0 1" unfolding pow2_or_0_def by (intro disjI2 exI [of _ 0]) simp
  ultimately have "len \<le> y" and "pow2_or_0 y" using min_pow2_loop_result by blast+
  then consider "unat y = 0" | k where "k < 64" "unat y = 2 ^ k"
    unfolding pow2_or_0_def using unat_2_power by auto
  then have "unat y \<le> 2 ^ 63"
  proof cases
    case (2 k)
    then show ?thesis using power_increasing [of k 63 "2 :: nat"] by simp
  qed simp
  then show False using \<open>len \<le> y\<close> assms by (simp add: word_le_nat_alt)
qed

section \<open>Trimming returns, and what it returns\<close>

text \<open>
  The invariant of the loops: the buffer starts with the first four bytes of the original and
  its current contents are the original with some bytes left out; once a cut has been
  accepted, the trace that goes with it has the checksum of the seed.
\<close>

definition trim_inv :: "nat \<Rightarrow> u8 list \<Rightarrow> fuzzer \<Rightarrow> trim \<Rightarrow> bool" where
  "trim_inv q buf s0 t \<longleftrightarrow>
     trim_fault t = None \<and> length (inBuf t) = length buf \<and>
     q < length (queue (fuzz t)) \<and> map fileName (queue (fuzz t)) = map fileName (queue s0) \<and>
     map cksum (queue (fuzz t)) = map cksum (queue s0) \<and>
     4 \<le> trim_len q t \<and> trim_len q t \<le> fileLen (queue s0 ! q) \<and>
     take 4 (inBuf t) = take 4 buf \<and>
     subseq (take (trim_len q t) (inBuf t)) (take (fileLen (queue s0 ! q)) buf) \<and>
     (should_be_write t \<longleftrightarrow> trim_len q t < fileLen (queue s0 ! q)) \<and>
     (should_be_write t \<longrightarrow> trace_cksum (TrimTrace t) = cksum (queue s0 ! q))"

lemma ExecuteCase_total:
  assumes "env_ok E" and "files s (testfile E) \<noteq> None"
  shows "\<exists>st r. ExecuteCase E tm s = Some (st, after_run r (reset_before_run E s)) \<and> st \<noteq> FAULT_ERROR"
proof -
  let ?s = "reset_before_run E s"
  obtain input where "files ?s (testfile E) = Some input"
    using assms(2) by (auto simp: reset_before_run_def Let_def)
  moreover obtain r where "target E (exec_count ?s) input (errorList ?s) (control_matrix ?s) tm = Some r"
    using assms(1) unfolding env_ok_def by blast
  moreover have "run_verdict r \<noteq> FAULT_ERROR" by (simp add: run_verdict_def split: wait_status.split)
  ultimately show ?thesis by (auto simp: ExecuteCase_def)
qed

lemma after_run_queue [simp]: "queue (after_run r (reset_before_run E s)) = queue s"
  by (simp add: after_run_def reset_before_run_def Let_def)

lemma WriteGapTestcase_total:
  assumes "env_ok E" and "flen \<le> length mem" and "flen < 2 ^ 31" and "pos + avail \<le> flen"
  shows "\<exists>xs. WriteGapTestcase E mem flen pos avail s = Some (s\<lparr>files := (files s)(testfile E \<mapsto> xs)\<rparr>)"
proof -
  have u: "to_u32 flen = flen" "to_u32 pos = pos" "to_u32 avail = avail" using assms by simp_all
  have sub: "usub32 (usub32 flen pos) avail = flen - pos - avail"
    using assms usub32_le [of pos flen] usub32_le [of avail "flen - pos"] by simp
  obtain h where h: "(if pos \<noteq> 0 then mem_read 0 pos mem else Some []) = Some h"
    using assms by (cases "pos = 0") (simp_all add: mem_read_def)
  obtain r where r:
    "(if avail \<noteq> 0 then mem_read (pos + avail) (flen - pos - avail) mem else Some []) = Some r"
    using assms by (cases "avail = 0") (simp_all add: mem_read_def)
  have "io_ok E (testfile E)" using assms(1) by (simp add: env_ok_def)
  then show ?thesis unfolding WriteGapTestcase_def Let_def u sub h r by auto
qed

lemma subseq_cut: "subseq (take p xs @ take m (drop (p + a) xs)) (take (p + a + m) xs)"
proof -
  have "take (p + a + m) xs = take p xs @ take a (drop p xs) @ take m (drop (p + a) xs)"
    by (simp only: take_add append_assoc)
  then show ?thesis by (simp add: subseq_append' subseq_drop_many)
qed

lemma trim_accept_inv:
  assumes inv: "trim_inv q buf s0 t" and avail: "0 < avail" "trim_pos t + avail \<le> trim_len q t"
    and pos: "4 \<le> trim_pos t" and len: "fileLen (queue s0 ! q) \<le> length buf" "length buf < 2 ^ 31"
    and ck: "trace_cksum (globalTraceBit (fuzz t)) = cksum (queue s0 ! q)"
  shows "\<exists>t'. trim_accept q (trim_len q t) avail t = Some t' \<and> trim_inv q buf s0 t' \<and>
    trim_pos t' = trim_pos t \<and> trim_len q t' = trim_len q t - avail"
proof -
  let ?f = "trim_len q t" and ?p = "trim_pos t"
  let ?m = "?f - ?p - avail"
  have f: "?f \<le> length buf" "?f < 2 ^ 31" and lb: "length (inBuf t) = length buf" and q: "q < length (queue (fuzz t))"
    using inv len by (auto simp: trim_inv_def)
  have "unat (of_nat (?f - avail) :: u64) \<le> 2 ^ 63"
    using f(2) by (simp add: unat_of_nat)
  then obtain p2 where p2: "min_pow2 (of_nat (?f - avail)) = Some p2" using min_pow2_spec by blast
  define b' where "b' = take ?p (inBuf t) @ take ?m (drop (?p + avail) (inBuf t)) @ drop (?p + ?m) (inBuf t)"
  have mv: "memmove ?p (?p + avail) (to_u32 ?m) (inBuf t) = Some b'"
    using f lb avail by (simp add: memmove_def mem_read_def mem_write_def b'_def)
  define t1 where "t1 = t\<lparr>fuzz := set_fileLen q (?f - avail) (fuzz t), min_pow2_of_file_size := unat p2, inBuf := b'\<rparr>"
  define t' where "t' = (if should_be_write t1 then t1
    else t1\<lparr>should_be_write := True, TrimTrace := globalTraceBit (fuzz t1)\<rparr>)"
  have run: "trim_accept q ?f avail t = Some t'"
    unfolding trim_accept_def Let_def using p2 mv by (simp add: t'_def t1_def)
  have len': "trim_len q t' = ?f - avail" "trim_pos t' = ?p"
    using q by (simp_all add: t'_def t1_def trim_len_def set_fileLen_def)
  have buf': "inBuf t' = b'" "length b' = length buf" "take 4 b' = take 4 (inBuf t)"
    using f lb avail pos by (auto simp: t'_def t1_def b'_def min_def)
  have "length (take ?p (inBuf t)) = ?p" "length (take ?m (drop (?p + avail) (inBuf t))) = ?m" "?f - avail = ?p + ?m"
    using f lb avail by simp_all
  then have "take (?f - avail) b' = take ?p (inBuf t) @ take ?m (drop (?p + avail) (inBuf t))"
    unfolding b'_def by simp
  moreover have "?p + avail + ?m = ?f" using avail by simp
  ultimately have "subseq (take (?f - avail) b') (take ?f (inBuf t))"
    using subseq_cut [of ?p "inBuf t" ?m avail] by simp
  then have sub: "subseq (take (?f - avail) b') (take (fileLen (queue s0 ! q)) buf)"
    using inv unfolding trim_inv_def by (meson subseq_order.order_trans)
  have q': "map fileName (queue (fuzz t')) = map fileName (queue (fuzz t))"
    "map cksum (queue (fuzz t')) = map cksum (queue (fuzz t))" "length (queue (fuzz t')) = length (queue (fuzz t))"
    by (simp_all add: t'_def t1_def set_fileLen_def map_update_same)
  have tr: "should_be_write t'" "trace_cksum (TrimTrace t') = cksum (queue s0 ! q)" "trim_fault t' = None"
    using inv ck by (auto simp: t'_def t1_def trim_inv_def set_fileLen_def)
  have "trim_inv q buf s0 t'"
    using inv avail pos len' buf' sub q' tr by (auto simp: trim_inv_def)
  then show ?thesis using run len' by blast
qed

lemma trim_step_inv:
  assumes env: "env_ok E" and inv: "trim_inv q buf s0 t" and sz: "0 < sz"
    and pos: "4 \<le> trim_pos t" "trim_pos t < trim_len q t"
    and len: "fileLen (queue s0 ! q) \<le> length buf" "length buf < 2 ^ 31"
  shows "\<exists>t'. trim_step E q sz t = Some t' \<and> trim_inv q buf s0 t' \<and> 4 \<le> trim_pos t' \<and>
    trim_len q t' - trim_pos t' < trim_len q t - trim_pos t"
proof -
  let ?f = "trim_len q t"
  define avail where "avail = min sz (?f - trim_pos t)"
  have av: "0 < avail" "trim_pos t + avail \<le> ?f" using sz pos by (auto simp: avail_def)
  have f: "?f \<le> length (inBuf t)" "?f < 2 ^ 31" using inv len by (auto simp: trim_inv_def)
  obtain xs where gap: "WriteGapTestcase E (inBuf t) ?f (trim_pos t) avail (fuzz t) =
      Some ((fuzz t)\<lparr>files := (files (fuzz t))(testfile E \<mapsto> xs)\<rparr>)"
    using WriteGapTestcase_total [OF env f av(2)] by blast
  let ?s1 = "(fuzz t)\<lparr>files := (files (fuzz t))(testfile E \<mapsto> xs)\<rparr>"
  obtain st r where ex: "ExecuteCase E (exec_tmout ?s1) ?s1 = Some (st, after_run r (reset_before_run E ?s1))"
    and st: "st \<noteq> FAULT_ERROR"
    using ExecuteCase_total [OF env, of ?s1 "exec_tmout ?s1"] by auto
  define s2 where "s2 = after_run r (reset_before_run E ?s1)"
  have q2: "queue s2 = queue (fuzz t)" by (simp add: s2_def)
  let ?t = "t\<lparr>fuzz := s2\<rparr>"
  have inv2: "trim_inv q buf s0 ?t" and len2: "trim_len q ?t = ?f"
    using inv by (simp_all add: trim_inv_def trim_len_def q2)
  have ck: "cksum (queue s2 ! q) = cksum (queue s0 ! q)"
    using inv unfolding trim_inv_def q2 by (metis nth_map length_map)
  have step: "trim_step E q sz t = (if trace_cksum (globalTraceBit s2) = cksum (queue s0 ! q)
      then trim_accept q ?f avail ?t else Some (?t\<lparr>trim_pos := trim_pos t + sz\<rparr>))"
    unfolding trim_step_def Let_def avail_def [symmetric] gap using ex st ck by (simp add: s2_def)
  show ?thesis
  proof (cases "trace_cksum (globalTraceBit s2) = cksum (queue s0 ! q)")
    case True
    then obtain t' where t': "trim_accept q ?f avail ?t = Some t'" "trim_inv q buf s0 t'"
      "trim_pos t' = trim_pos t" "trim_len q t' = ?f - avail"
      using trim_accept_inv [OF inv2, of avail] av pos len len2 by auto
    then show ?thesis using step True av pos by auto
  next
    case False
    have "trim_inv q buf s0 (?t\<lparr>trim_pos := trim_pos t + sz\<rparr>)"
      using inv2 by (simp add: trim_inv_def trim_len_def)
    moreover have "trim_len q (?t\<lparr>trim_pos := trim_pos t + sz\<rparr>) = ?f"
      using len2 by (simp add: trim_len_def)
    ultimately show ?thesis using step False pos sz by auto
  qed
qed

lemma trim_inner_returns:
  assumes env: "env_ok E" and sz: "0 < sz" and len: "fileLen (queue s0 ! q) \<le> length buf" "length buf < 2 ^ 31"
    and "trim_inv q buf s0 t" "4 \<le> trim_pos t"
  shows "\<exists>t'. trim_inner E q sz t = Some t' \<and> trim_inv q buf s0 t'"
  using assms(5,6)
proof (induction "trim_len q t - trim_pos t" arbitrary: t rule: less_induct)
  case less
  show ?case
  proof (cases "trim_pos t < trim_len q t")
    case True
    then obtain t' where t': "trim_step E q sz t = Some t'" "trim_inv q buf s0 t'" "4 \<le> trim_pos t'"
      "trim_len q t' - trim_pos t' < trim_len q t - trim_pos t"
      using trim_step_inv [OF env less.prems(1) sz less.prems(2) _ len] by blast
    have "trim_inner E q sz t = trim_inner E q sz t'"
      using True t'(1) less.prems(1) by (subst trim_inner.simps) (simp add: trim_inv_def)
    then show ?thesis using less.hyps [OF t'(4,2,3)] by simp
  next
    case False
    then show ?thesis using less.prems(1) by (subst trim_inner.simps) simp
  qed
qed

lemma trim_outer_returns:
  assumes env: "env_ok E" and len: "fileLen (queue s0 ! q) \<le> length buf" "length buf < 2 ^ 31"
    and "trim_inv q buf s0 t"
  shows "\<exists>t'. trim_outer E q sz t = Some t' \<and> trim_inv q buf s0 t'"
  using assms(4)
proof (induction sz arbitrary: t rule: less_induct)
  case (less sz)
  show ?case
  proof (cases "sz \<ge> max (min_pow2_of_file_size t div TRIM_END_STEP) TRIM_MIN_BYTES")
    case True
    then have sz: "4 \<le> sz" by (simp add: TRIM_MIN_BYTES_def)
    have "trim_inv q buf s0 (t\<lparr>trim_pos := sz\<rparr>)"
      using less.prems by (simp add: trim_inv_def trim_len_def)
    then obtain t' where t': "trim_inner E q sz (t\<lparr>trim_pos := sz\<rparr>) = Some t'" "trim_inv q buf s0 t'"
      using trim_inner_returns [OF env _ len, of sz "t\<lparr>trim_pos := sz\<rparr>"] sz by auto
    have "trim_outer E q sz t = trim_outer E q (sz div 2) t'"
      using True t'(1) less.prems by (subst trim_outer.simps) (simp add: trim_inv_def)
    then show ?thesis using less.IH [of "sz div 2" t'] t'(2) sz by simp
  next
    case False
    then show ?thesis using less.prems by (subst trim_outer.simps) auto
  qed
qed

lemma trim_save_spec:
  assumes env: "env_ok E" and inv: "trim_inv q buf s0 t"
    and len: "fileLen (queue s0 ! q) \<le> length buf" "length buf < 2 ^ 31"
  shows "\<exists>s'. trim_save E q t = Some s' \<and> fileLen (queue s' ! q) = trim_len q t \<and>
    map fileName (queue s') = map fileName (queue s0) \<and> globalTraceBit s' = TrimTrace t \<and>
    files s' (fileName (queue s0 ! q)) = Some (take (trim_len q t) (inBuf t))"
proof -
  let ?name = "fileName (queue (fuzz t) ! q)" and ?xs = "take (trim_len q t) (inBuf t)"
  define s1 where "s1 = (fuzz t)\<lparr>files := (files (fuzz t))(?name \<mapsto> ?xs), globalTraceBit := TrimTrace t\<rparr>"
  let ?s' = "UpdateQueueTop q (TrimTrace t) s1"
  have run: "trim_save E q t = Some ?s'"
    using env inv len by (simp add: trim_save_def Let_def env_ok_def trim_inv_def mem_read_def s1_def)
  have q: "q < length (queue s1)" and name: "?name = fileName (queue s0 ! q)"
    using inv unfolding trim_inv_def s1_def by (simp, metis nth_map length_map)
  have maps: "map fileLen (queue ?s') = map fileLen (queue s1)" "map fileName (queue ?s') = map fileName (queue s1)"
    by (rule UpdateQueueTop_map, simp)+
  then have "fileLen (queue ?s' ! q) = fileLen (queue s1 ! q)" using q by (metis nth_map length_map)
  moreover have "files ?s' = files s1" "globalTraceBit ?s' = globalTraceBit s1"
    by (simp_all add: UpdateQueueTop_def Let_def split: prod.split)
  ultimately show ?thesis using run maps name inv by (auto simp: s1_def trim_len_def trim_inv_def)
qed

lemma trim_start_inv:
  assumes "q < length (queue s)" and "\<not> fileLen (queue s ! q) < 5"
  shows "trim_inv q buf s \<lparr>min_pow2_of_file_size = m, trim_pos = 0, inBuf = buf, should_be_write = False,
    TrimTrace = [], trim_fault = None, fuzz = s\<rparr>"
  using assms by (simp add: trim_inv_def trim_len_def)



text \<open>
  C15: the search for a power of two above a length ends exactly for the lengths up to
  \<open>2\<^sup>6\<^sup>3\<close>, and then finds the least one; above that, the doubling overflows to zero and the
  loop never ends.
\<close>

theorem min_pow2_ends_iff:
  "min_pow2 len = (if unat len \<le> 2 ^ 63 then Some (2 ^ (LEAST m. unat len \<le> 2 ^ m)) else None)"
proof (cases "unat len \<le> 2 ^ 63")
  case True
  obtain m where m: "min_pow2 len = Some (2 ^ m)" "unat len \<le> 2 ^ m" "m = 0 \<or> 2 ^ (m - 1) < unat len"
    using min_pow2_spec [OF True] by blast
  have "(LEAST m. unat len \<le> 2 ^ m) = m"
  proof (rule Least_equality)
    show "unat len \<le> 2 ^ m" by (rule m(2))
  next
    fix k assume "unat len \<le> 2 ^ k"
    show "m \<le> k"
    proof (rule ccontr)
      assume "\<not> m \<le> k"
      then have "(2 :: nat) ^ k \<le> 2 ^ (m - 1)" by (intro power_increasing) simp_all
      also have "2 ^ (m - 1) < unat len" using m(3) \<open>\<not> m \<le> k\<close> by auto
      finally show False using \<open>unat len \<le> 2 ^ k\<close> by simp
    qed
  qed
  then show ?thesis using True m(1) by simp
next
  case False
  then show ?thesis using min_pow2_diverges [of len] by simp
qed

end
