(* ===== verification/Mutation_Filters.thy ===== *)
theory Mutation_Filters
  imports Fuzz_State
begin

text \<open>
  The arithmetic of the deterministic mutations (\<open>FuzzOne.cpp\<close>): the macros \<open>FLIP_BIT\<close>,
  \<open>SWAP16\<close> and \<open>SWAP32\<close>, the tables of interesting values, and the three filters
  \<open>could_be_bitflip\<close>, \<open>could_be_arith\<close> and \<open>could_be_interest\<close> that keep a later
  stage from repeating what an earlier one has tried.  The lemmas compare the filters with
  the values the earlier stages really try.
\<close>

unbundle bit_operations_syntax

section \<open>Macros and tables\<close>

definition FLIP_BIT :: "nat \<Rightarrow> u8 list \<Rightarrow> u8 list option" where
  "FLIP_BIT b ar =
     (let bf = to_u32 b
      in do { x \<leftarrow> get_byte (bf div 8) ar; set_byte (bf div 8) (x XOR drop_bit (bf mod 8) 128) ar })"

definition flip_bits :: "nat \<Rightarrow> nat \<Rightarrow> u8 list \<Rightarrow> u8 list option" where
  "flip_bits flipnum stageCur filemap = foldM (\<lambda>i fm. FLIP_BIT (stageCur + i) fm) [0..<flipnum] filemap"

definition SWAP16 :: "u16 \<Rightarrow> u16" where
  "SWAP16 x = push_bit 8 x OR drop_bit 8 x"

definition SWAP32 :: "u32 \<Rightarrow> u32" where
  "SWAP32 x = push_bit 24 x OR drop_bit 24 x OR (push_bit 8 x AND 0x00FF0000) OR (drop_bit 8 x AND 0x0000FF00)"

definition INTERESTING_8 :: "int list" where
  "INTERESTING_8 = [-128, -1, 0, 1, 16, 32, 64, 100, 127]"

definition INTERESTING_16 :: "int list" where
  "INTERESTING_16 = [-32768, -129, 128, 255, 256, 512, 1000, 1024, 4096, 32767]"

definition INTERESTING_32 :: "int list" where
  "INTERESTING_32 = [-2147483648, -100663046, -32769, 32768, 65535, 65536, 100663045, 2147483647]"

definition interesting_8 :: "int list" where
  "interesting_8 = INTERESTING_8"

definition interesting_16 :: "int list" where
  "interesting_16 = INTERESTING_8 @ INTERESTING_16"

definition interesting_32 :: "int list" where
  "interesting_32 = INTERESTING_8 @ INTERESTING_16 @ INTERESTING_32"

definition ARITH_MAX :: nat where "ARITH_MAX = 35"

section \<open>Filters\<close>

text \<open>The loop that counts and removes trailing zeros; its argument is not zero.\<close>

function strip_zeros :: "u32 \<Rightarrow> nat \<Rightarrow> u32 \<times> nat" where
  "strip_zeros xor_val sh =
     (if xor_val AND 1 = 0 \<and> xor_val \<noteq> 0 then strip_zeros (drop_bit 1 xor_val) (sh + 1) else (xor_val, sh))"
  by auto
termination
proof (relation "measure (\<lambda>(x, _). unat x)")
  fix x :: u32 and sh :: nat
  assume "x AND 1 = 0 \<and> x \<noteq> 0"
  then have "0 < unat x" by (simp add: unat_gt_0)
  then show "((drop_bit 1 x, sh + 1), (x, sh)) \<in> measure (\<lambda>(x, _). unat x)"
    by (simp add: drop_bit_Suc unat_div)
qed simp

declare strip_zeros.simps [simp del]

definition could_be_bitflip :: "u32 \<Rightarrow> bool" where
  "could_be_bitflip xor_val \<longleftrightarrow>
     (if xor_val = 0 then True
      else let (x, sh) = strip_zeros xor_val 0
           in if x = 1 \<or> x = 3 \<or> x = 15 then True
              else if sh mod 8 \<noteq> 0 then False
              else x = 0xff \<or> x = 0xffff \<or> x = 0xffffffff)"

text \<open>
  \<open>diff_parts\<close> is the comparison loop over the parts of \<open>bits\<close> bits: the number of
  differing parts and the last differing pair; \<open>within\<close> is the test on that pair, cut off
  to the width of a part.
\<close>

definition diff_parts :: "nat \<Rightarrow> nat \<Rightarrow> u32 \<Rightarrow> u32 \<Rightarrow> nat \<times> u32 \<times> u32" where
  "diff_parts bits n old_val new_val =
     fold (\<lambda>i (diffs, ov, nv).
         let a = take_bit bits (drop_bit (bits * i) old_val); b = take_bit bits (drop_bit (bits * i) new_val)
         in if a \<noteq> b then (diffs + 1, a, b) else (diffs, ov, nv))
       [0..<n] (0, 0, 0)"

definition within :: "nat \<Rightarrow> u32 \<Rightarrow> u32 \<Rightarrow> bool" where
  "within bits ov nv \<longleftrightarrow>
     unat (take_bit bits (ov - nv)) \<le> ARITH_MAX \<or> unat (take_bit bits (nv - ov)) \<le> ARITH_MAX"

definition could_be_arith :: "u32 \<Rightarrow> u32 \<Rightarrow> nat \<Rightarrow> bool" where
  "could_be_arith old_val new_val blen \<longleftrightarrow>
     (if old_val = new_val then True
      else let (diffs, ov, nv) = diff_parts 8 blen old_val new_val
           in if diffs = 1 \<and> within 8 ov nv then True
              else if blen = 1 then False
              else let (diffs, ov, nv) = diff_parts 16 (blen div 2) old_val new_val
                   in if diffs = 1 \<and> (within 16 ov nv \<or>
                           within 16 (ucast (SWAP16 (ucast ov))) (ucast (SWAP16 (ucast nv)))) then True
                      else blen = 4 \<and> (within 32 old_val new_val \<or> within 32 (SWAP32 old_val) (SWAP32 new_val)))"

definition put_bits :: "nat \<Rightarrow> nat \<Rightarrow> u32 \<Rightarrow> u32 \<Rightarrow> u32" where
  "put_bits bits at v old_val = (old_val AND NOT (push_bit at (mask bits))) OR push_bit at v"

definition could_be_interest :: "u32 \<Rightarrow> u32 \<Rightarrow> nat \<Rightarrow> bool \<Rightarrow> bool" where
  "could_be_interest old_val new_val blen check_le \<longleftrightarrow>
     (if old_val = new_val then True
      else if list_ex (\<lambda>i. list_ex (\<lambda>x. new_val = put_bits 8 (i * 8) (ucast (word_of_int x :: u8)) old_val)
                        interesting_8) [0..<blen] then True
      else if blen = 2 \<and> \<not> check_le then False
      else if list_ex (\<lambda>i. list_ex (\<lambda>x.
                new_val = put_bits 16 (i * 8) (ucast (word_of_int x :: u16)) old_val \<or>
                (blen > 2 \<and> new_val = put_bits 16 (i * 8) (ucast (SWAP16 (word_of_int x))) old_val))
              interesting_16) [0..<blen - 1] then True
      else blen = 4 \<and> check_le \<and> list_ex (\<lambda>x. new_val = word_of_int x) interesting_32)"

section \<open>Values the arithmetic stages try\<close>

text \<open>The values \<open>Arithmetic8\<close>, \<open>Arithmetic16\<close> and \<open>Arithmetic32\<close> store over \<open>orig\<close>, in order.\<close>

definition arith8_values :: "u8 \<Rightarrow> u8 list" where
  "arith8_values orig =
     concat (map (\<lambda>j.
         (if \<not> could_be_bitflip (ucast (orig XOR (orig + of_nat j))) then [orig + of_nat j] else []) @
         (if \<not> could_be_bitflip (ucast (orig XOR (orig - of_nat j))) then [orig - of_nat j] else []))
       [1..<ARITH_MAX + 1])"

definition arith16_values :: "u16 \<Rightarrow> u16 list" where
  "arith16_values orig =
     concat (map (\<lambda>j.
         let v1 = orig + of_nat j; v2 = orig - of_nat j;
             v3 = SWAP16 (SWAP16 orig + of_nat j); v4 = SWAP16 (SWAP16 orig - of_nat j)
         in (if unat (orig AND 0xff) + j > 0xff \<and> \<not> could_be_bitflip (ucast (orig XOR v1)) then [v1] else []) @
            (if unat (orig AND 0xff) < j \<and> \<not> could_be_bitflip (ucast (orig XOR v2)) then [v2] else []) @
            (if unat (drop_bit 8 orig) + j > 0xff \<and> \<not> could_be_bitflip (ucast (orig XOR v3)) then [v3] else []) @
            (if unat (drop_bit 8 orig) < j \<and> \<not> could_be_bitflip (ucast (orig XOR v4)) then [v4] else []))
       [1..<ARITH_MAX + 1])"

definition arith32_values :: "u32 \<Rightarrow> u32 list" where
  "arith32_values orig =
     concat (map (\<lambda>j.
         let v1 = orig + of_nat j; v2 = orig - of_nat j;
             v3 = SWAP32 (SWAP32 orig + of_nat j); v4 = SWAP32 (SWAP32 orig - of_nat j)
         in (if unat (orig AND 0xffff) + j > 0xffff \<and> \<not> could_be_bitflip (orig XOR v1) then [v1] else []) @
            (if unat (orig AND 0xffff) < j \<and> \<not> could_be_bitflip (orig XOR v2) then [v2] else []) @
            (if unat (drop_bit 16 orig) + j > 0xff \<and> \<not> could_be_bitflip (orig XOR v3) then [v3] else []) @
            (if unat (drop_bit 16 orig) < j \<and> \<not> could_be_bitflip (orig XOR v4) then [v4] else []))
       [1..<ARITH_MAX + 1])"

text \<open>The values the stages \<open>InterestingReplace8\<close>, \<open>16\<close> and \<open>32\<close> store.\<close>

definition interest8_values :: "u8 \<Rightarrow> u8 list" where
  "interest8_values orig =
     filter (\<lambda>v. \<not> could_be_bitflip (ucast (orig XOR v)) \<and> \<not> could_be_arith (ucast orig) (ucast v) 1)
       (map word_of_int interesting_8)"

definition interest16_values :: "u16 \<Rightarrow> u16 list" where
  "interest16_values orig =
     filter (\<lambda>v. \<not> could_be_bitflip (ucast (orig XOR v)) \<and> \<not> could_be_arith (ucast orig) (ucast v) 2 \<and>
                 \<not> could_be_interest (ucast orig) (ucast v) 2 False)
       (map word_of_int interesting_16)"

definition interest32_values :: "u32 \<Rightarrow> u32 list" where
  "interest32_values orig =
     filter (\<lambda>v. \<not> could_be_bitflip (orig XOR v) \<and> \<not> could_be_arith orig v 4 \<and>
                 \<not> could_be_interest orig v 4 False)
       (map word_of_int interesting_32)"

section \<open>Flipping bits\<close>

lemma FLIP_BIT_Some:
  assumes "b < 8 * length ar" and "length ar < 2 ^ 29"
  shows "FLIP_BIT b ar = Some (ar[b div 8 := ar ! (b div 8) XOR drop_bit (b mod 8) 128])"
  using assms by (simp add: FLIP_BIT_def get_byte_Some set_byte_Some less_mult_imp_div_less mult.commute)

lemma flip_bits_Suc: "flip_bits (Suc n) k fm = flip_bits n k fm \<bind> FLIP_BIT (k + n)"
proof -
  have "foldM f [] = (Some :: u8 list \<Rightarrow> _)" for f :: "nat \<Rightarrow> _" by (rule ext) simp
  then show ?thesis by (simp add: flip_bits_def foldM_append)
qed

lemma FLIP_BIT_length: "FLIP_BIT b fm = Some fm' \<Longrightarrow> length fm' = length fm"
  by (auto simp: FLIP_BIT_def Let_def bind_eq_Some_conv dest: set_byte_length)

text \<open>
  Each flip exclusive-ors one byte, so a run of flips exclusive-ors every byte with a mask that
  does not depend on the contents, and doing it twice restores the buffer.
\<close>

definition xor_mask :: "nat \<Rightarrow> nat \<Rightarrow> nat \<Rightarrow> u8" where
  "xor_mask n k j = fold (\<lambda>i m. if (k + i) div 8 = j then m XOR drop_bit ((k + i) mod 8) 128 else m) [0..<n] 0"

lemma flip_bits_xor:
  assumes "k + n \<le> 8 * length fm" and "length fm < 2 ^ 29"
  shows "flip_bits n k fm = Some (map (\<lambda>j. fm ! j XOR xor_mask n k j) [0..<length fm])"
  using assms(1)
proof (induction n)
  case 0
  then show ?case by (simp add: flip_bits_def xor_mask_def map_nth)
next
  case (Suc n)
  let ?fm = "map (\<lambda>j. fm ! j XOR xor_mask n k j) [0..<length fm]"
  have k: "k + n < 8 * length ?fm" and len: "length ?fm < 2 ^ 29" using Suc.prems assms(2) by simp_all
  then have d: "(k + n) div 8 < length fm" by (simp add: less_mult_imp_div_less mult.commute)
  have "flip_bits (Suc n) k fm = FLIP_BIT (k + n) ?fm"
    using Suc by (simp add: flip_bits_Suc)
  also have "\<dots> = Some (map (\<lambda>j. fm ! j XOR xor_mask (Suc n) k j) [0..<length fm])"
    unfolding FLIP_BIT_Some [OF k len] using d
    by (auto intro!: nth_equalityI simp: nth_list_update xor_mask_def xor.assoc)
  finally show ?case .
qed

lemma flip_bits_twice:
  assumes "flip_bits n k fm = Some fm'" and "k + n \<le> 8 * length fm" and "length fm < 2 ^ 29"
  shows "flip_bits n k fm' = Some fm \<and> length fm' = length fm"
proof -
  have fm': "fm' = map (\<lambda>j. fm ! j XOR xor_mask n k j) [0..<length fm]"
    using assms by (simp add: flip_bits_xor)
  then have len: "length fm' = length fm" by simp
  have "map (\<lambda>j. fm' ! j XOR xor_mask n k j) [0..<length fm'] = fm"
    by (rule nth_equalityI) (simp_all add: fm' xor.assoc)
  then show ?thesis using assms len flip_bits_xor [of k n fm'] by simp
qed

section \<open>The filters on single bytes\<close>

definition byte_flips :: "u8 list" where
  "byte_flips = 0 # concat (map (\<lambda>n. map (\<lambda>p. xor_mask n p 0) [0..<9 - n]) [1, 2, 4, 8])"

lemma byte_flips_eq:
  "byte_flips = [0, 128, 64, 32, 16, 8, 4, 2, 1, 192, 96, 48, 24, 12, 6, 3, 240, 120, 60, 30, 15, 255]"
  by code_simp

text \<open>
  The loop splits its argument into an odd part and a power of two, and that splitting is
  unique; so the filter accepts exactly the shifted patterns it lists.
\<close>

lemma even_unat: "even (unat (x :: u32)) \<longleftrightarrow> x AND 1 = 0"
  by (simp add: and_one_eq even_iff_mod_2_eq_zero word_unat_eq_iff [of _ 0] unat_mod)

lemma strip_zeros_spec:
  assumes "x \<noteq> 0"
  shows "\<exists>y k. strip_zeros x sh = (y, sh + k) \<and> unat x = unat y * 2 ^ k \<and> odd (unat y)"
  using assms
proof (induction x sh rule: strip_zeros.induct)
  case (1 x sh)
  show ?case
  proof (cases "x AND 1 = 0")
    case True
    then have ev: "even (unat x)" by (simp add: even_unat)
    have half: "unat x = 2 * unat (drop_bit 1 x)" using ev by (simp add: drop_bit_Suc unat_div)
    then have "drop_bit 1 x \<noteq> 0" using "1.prems" by (metis mult_0_right unat_0 unsigned_word_eqI)
    with 1 True obtain y k where
      "strip_zeros (drop_bit 1 x) (sh + 1) = (y, sh + 1 + k)" "unat (drop_bit 1 x) = unat y * 2 ^ k" "odd (unat y)"
      by blast
    then show ?thesis
      using True "1.prems" half by (intro exI [of _ y] exI [of _ "Suc k"]) (simp add: strip_zeros.simps [of x])
  next
    case False
    then show ?thesis by (intro exI [of _ x] exI [of _ 0]) (simp add: strip_zeros.simps [of x] even_unat)
  qed
qed

lemma odd_times_power_unique:
  assumes "a * 2 ^ k = b * 2 ^ l" and "odd a" and "odd (b :: nat)"
  shows "a = b \<and> k = l"
  using assms
proof (induction k arbitrary: l)
  case 0
  then show ?case by (cases l) auto
next
  case (Suc k)
  then show ?case by (cases l) auto
qed

lemma could_be_bitflip_iff:
  "could_be_bitflip x \<longleftrightarrow> x = 0 \<or> (\<exists>k. \<exists>p \<in> {1, 3, 15}. unat x = p * 2 ^ k) \<or>
     (\<exists>k. \<exists>p \<in> {0xff, 0xffff, 0xffffffff}. unat x = p * 2 ^ (8 * k))"
proof (cases "x = 0")
  case False
  then obtain y k where y: "strip_zeros x 0 = (y, k)" "unat x = unat y * 2 ^ k" "odd (unat y)"
    using strip_zeros_spec [of x 0] by auto
  have uniq: "unat x = p * 2 ^ l \<longleftrightarrow> y = of_nat p \<and> k = l" if p: "odd p" "p < 2 ^ 32" for p l
  proof
    assume "unat x = p * 2 ^ l"
    then have "unat y * 2 ^ k = p * 2 ^ l" unfolding y(2) .
    then have "unat y = p \<and> k = l" using y(3) p(1) by (rule odd_times_power_unique)
    then show "y = of_nat p \<and> k = l" by auto
  next
    assume "y = of_nat p \<and> k = l"
    moreover have "unat (of_nat p :: u32) = p" using p(2) unat_of_nat [of p, where 'a = 32] by (simp add: take_bit_nat_eq_self)
    ultimately show "unat x = p * 2 ^ l" using y(2) by metis
  qed
  have k8: "k mod 8 = 0 \<longleftrightarrow> (\<exists>l. k = 8 * l)" by auto
  have small: "y = of_nat p \<longleftrightarrow> (\<exists>l. unat x = p * 2 ^ l)" if "odd p" "p < 2 ^ 32" for p
    using uniq [OF that] by simp
  have large: "k mod 8 = 0 \<and> y = of_nat p \<longleftrightarrow> (\<exists>l. unat x = p * 2 ^ (8 * l))" if "odd p" "p < 2 ^ 32" for p
    unfolding uniq [OF that] k8 by blast
  have s1: "y = of_nat 1 \<longleftrightarrow> (\<exists>l. unat x = 1 * 2 ^ l)" by (rule small) simp_all
  have s3: "y = of_nat 3 \<longleftrightarrow> (\<exists>l. unat x = 3 * 2 ^ l)" by (rule small) simp_all
  have s15: "y = of_nat 15 \<longleftrightarrow> (\<exists>l. unat x = 15 * 2 ^ l)" by (rule small) simp_all
  have l1: "k mod 8 = 0 \<and> y = of_nat 0xff \<longleftrightarrow> (\<exists>l. unat x = 0xff * 2 ^ (8 * l))" by (rule large) simp_all
  have l2: "k mod 8 = 0 \<and> y = of_nat 0xffff \<longleftrightarrow> (\<exists>l. unat x = 0xffff * 2 ^ (8 * l))" by (rule large) simp_all
  have l4: "k mod 8 = 0 \<and> y = of_nat 0xffffffff \<longleftrightarrow> (\<exists>l. unat x = 0xffffffff * 2 ^ (8 * l))" by (rule large) simp_all
  have "could_be_bitflip x \<longleftrightarrow> (y = of_nat 1 \<or> y = of_nat 3 \<or> y = of_nat 15) \<or>
      (k mod 8 = 0 \<and> y = of_nat 0xff \<or> k mod 8 = 0 \<and> y = of_nat 0xffff \<or> k mod 8 = 0 \<and> y = of_nat 0xffffffff)"
    unfolding could_be_bitflip_def y(1) using False by simp
  also have "\<dots> \<longleftrightarrow> (\<exists>k. \<exists>p \<in> {1, 3, 15}. unat x = p * 2 ^ k) \<or>
      (\<exists>k. \<exists>p \<in> {0xff, 0xffff, 0xffffffff}. unat x = p * 2 ^ (8 * k))"
    unfolding s1 s3 s15 l1 l2 l4 by blast
  finally show ?thesis using False by simp
qed (simp add: could_be_bitflip_def)

lemma byte_flips_bitflip: "list_all (\<lambda>b. could_be_bitflip (ucast b)) byte_flips"
  unfolding byte_flips_eq by code_simp

lemma small_power: "p * 2 ^ k < (256 :: nat) \<Longrightarrow> 0 < p \<Longrightarrow> k < 8"
proof (rule ccontr)
  assume h: "p * 2 ^ k < (256 :: nat)" "0 < p" and "\<not> k < 8"
  then have "(2 :: nat) ^ 8 \<le> 2 ^ k" by (intro power_increasing) simp_all
  also have "\<dots> \<le> p * 2 ^ k" using h(2) by simp
  finally show False using h(1) by simp
qed

lemma unat_ucast_u8: "unat (ucast (b :: u8) :: u32) = unat b"
  using unsigned_less [of b, where 'a = nat] by (simp add: unsigned_ucast_eq take_bit_nat_eq_self)

lemma could_be_bitflip_byte: "could_be_bitflip (ucast (b :: u8)) \<longleftrightarrow> b \<in> set byte_flips"
proof
  assume "could_be_bitflip (ucast b)"
  moreover have u: "unat (ucast b :: u32) = unat b" "unat b < 256"
    using unsigned_less [of b, where 'a = nat] by (simp_all add: unat_ucast_u8)
  moreover have "(ucast b :: u32) = 0 \<longleftrightarrow> b = 0" by (simp add: word_unat_eq_iff [of _ 0] u(1))
  ultimately consider "b = 0" | k p where "p \<in> {1, 3, 15}" "unat b = p * 2 ^ k"
    | k p where "p \<in> {0xff, 0xffff, 0xffffffff}" "unat b = p * 2 ^ (8 * k)"
    unfolding could_be_bitflip_iff u(1) by blast
  then have "unat b \<in> set (map unat byte_flips)"
  proof cases
    case 1
    then show ?thesis by (simp add: byte_flips_eq)
  next
    case (2 k p)
    then have "p * 2 ^ k < 256" "0 < p" using u(2) by auto
    then have "k \<in> {0, 1, 2, 3, 4, 5, 6, 7}" "p * 2 ^ k < 256" using small_power [of p k] by auto
    then show ?thesis using 2 by (auto simp: byte_flips_eq)
  next
    case (3 k p)
    then have "p * 2 ^ (8 * k) < 256" "0 < p" using u(2) by auto
    then have "8 * k < 8" using small_power [of p "8 * k"] by blast
    then show ?thesis using 3 u(2) by (auto simp: byte_flips_eq)
  qed
  then show "b \<in> set byte_flips" by (metis (no_types) imageE set_map word_unat_eq_iff)
next
  assume "b \<in> set byte_flips"
  then show "could_be_bitflip (ucast b)" using byte_flips_bitflip by (simp add: list_all_iff)
qed

lemma could_be_arith_byte:
  "could_be_arith (ucast o1) (ucast (v :: u8)) 1 \<longleftrightarrow> unat (o1 - v) \<le> ARITH_MAX \<or> unat (v - o1) \<le> ARITH_MAX"
proof -
  have t: "take_bit 8 (ucast a :: u32) = ucast a" for a :: u8
    by (simp add: unsigned_take_bit_eq [symmetric] take_bit_word_eq_self)
  have c: "(ucast a :: u32) = ucast b \<longleftrightarrow> a = b" for a b :: u8
    by (metis unat_ucast_u8 word_unat_eq_iff)
  have d: "unat (take_bit 8 (ucast a - ucast b :: u32)) = unat (a - b)" for a b :: u8
  proof -
    have u: "uint (ucast x :: u32) = uint x" for x :: u8
      unfolding uint_nat unat_ucast_u8 ..
    have "uint (take_bit 8 (ucast a - ucast b :: u32)) = uint (ucast a - ucast b :: u32) mod 2 ^ 8"
      unfolding unsigned_take_bit_eq by (rule take_bit_eq_mod)
    also have "uint (ucast a - ucast b :: u32) = (uint a - uint b) mod 2 ^ 32"
      by (simp add: uint_word_ariths u)
    also have "((uint a - uint b) mod 2 ^ 32) mod 2 ^ 8 = (uint a - uint b) mod 2 ^ 8"
      by (simp add: mod_mod_cancel)
    also have "\<dots> = uint (a - b)" by (simp add: uint_word_ariths)
    finally show ?thesis by (simp only: unat_eq_nat_uint)
  qed
  show ?thesis
    unfolding could_be_arith_def diff_parts_def
    by (simp add: t c within_def d)
qed

lemma arith8_values_iff:
  "v \<in> set (arith8_values o1) \<longleftrightarrow>
     \<not> could_be_bitflip (ucast (o1 XOR v)) \<and> v \<noteq> o1 \<and> (unat (o1 - v) \<le> ARITH_MAX \<or> unat (v - o1) \<le> ARITH_MAX)"
proof -
  have small: "ARITH_MAX < 256" by (simp add: ARITH_MAX_def)
  have near: "(\<exists>j \<in> {1..ARITH_MAX}. y = x + of_nat j) \<longleftrightarrow> y \<noteq> x \<and> unat (y - x) \<le> ARITH_MAX" for x y :: u8
  proof
    assume "\<exists>j \<in> {1..ARITH_MAX}. y = x + of_nat j"
    then obtain j where j: "1 \<le> j" "j \<le> ARITH_MAX" "y = x + of_nat j" by auto
    then have "unat (y - x) = j" using small by (simp add: unat_of_nat)
    then show "y \<noteq> x \<and> unat (y - x) \<le> ARITH_MAX" using j(1,2) by auto
  next
    assume h: "y \<noteq> x \<and> unat (y - x) \<le> ARITH_MAX"
    then have "unat (y - x) \<noteq> 0" by (simp add: word_unat_eq_iff [symmetric] unat_eq_zero)
    with h show "\<exists>j \<in> {1..ARITH_MAX}. y = x + of_nat j" by (intro bexI [of _ "unat (y - x)"]) auto
  qed
  have "v = o1 - of_nat j \<longleftrightarrow> o1 = v + of_nat j" for j by (auto simp: algebra_simps)
  then have down: "(\<exists>j \<in> {1..ARITH_MAX}. v = o1 - of_nat j) \<longleftrightarrow> v \<noteq> o1 \<and> unat (o1 - v) \<le> ARITH_MAX"
    using near [of o1 v] by auto
  have "v \<in> set (arith8_values o1) \<longleftrightarrow> \<not> could_be_bitflip (ucast (o1 XOR v)) \<and>
      ((\<exists>j \<in> {1..ARITH_MAX}. v = o1 + of_nat j) \<or> (\<exists>j \<in> {1..ARITH_MAX}. v = o1 - of_nat j))"
    unfolding arith8_values_def by (auto split: if_splits)
  then show ?thesis unfolding near down by blast
qed

lemma byte_flips_flip_bits:
  "o1 XOR v \<in> set byte_flips \<longleftrightarrow> v = o1 \<or> (\<exists>n p. n \<in> {1, 2, 4, 8} \<and> p + n \<le> 8 \<and> flip_bits n p [o1] = Some [v])"
proof -
  have in_masks: "m \<in> set (concat (map (\<lambda>n. map (\<lambda>p. xor_mask n p 0) [0..<9 - n]) ns)) \<longleftrightarrow>
      (\<exists>n p. n \<in> set ns \<and> p + n \<le> 8 \<and> m = xor_mask n p 0)" for m ns
  proof -
    have "p < 9 - n \<longleftrightarrow> p + n \<le> 8" for p n :: nat by arith
    moreover have "m \<in> set (concat (map (\<lambda>n. map (\<lambda>p. xor_mask n p 0) [0..<9 - n]) ns)) \<longleftrightarrow>
        (\<exists>n \<in> set ns. \<exists>p < 9 - n. m = xor_mask n p 0)"
      by (induction ns) (auto simp: image_iff)
    ultimately show ?thesis by auto
  qed
  have x: "o1 XOR v = m \<longleftrightarrow> v = o1 XOR m" for m by (auto simp flip: xor.assoc)
  have "flip_bits n p [o1] = Some [v] \<longleftrightarrow> o1 XOR v = xor_mask n p 0" if "p + n \<le> 8" for n p
    using flip_bits_xor [of p n "[o1]"] that by (auto simp: x)
  then have "(\<exists>n p. n \<in> {1, 2, 4, 8} \<and> p + n \<le> 8 \<and> flip_bits n p [o1] = Some [v]) \<longleftrightarrow>
      (\<exists>n p. n \<in> {1, 2, 4, 8} \<and> p + n \<le> 8 \<and> o1 XOR v = xor_mask n p 0)" by blast
  also have "\<dots> \<longleftrightarrow> o1 XOR v \<in> set (concat (map (\<lambda>n. map (\<lambda>p. xor_mask n p 0) [0..<9 - n]) [1, 2, 4, 8]))"
    unfolding in_masks by simp
  finally show ?thesis unfolding byte_flips_def using x [of 0] by (simp only: list.set insert_iff xor.right_neutral)
qed

text \<open>
  C16: on single bytes the filters of the later stages are exact.  \<open>InterestingReplace8\<close> leaves
  out a value exactly when it is the byte itself, when one of the bit flip stages produces it
  inside that byte, or when \<open>Arithmetic8\<close> stores it.
\<close>

theorem byte_filters_exact:
  "could_be_bitflip (ucast (orig XOR v)) \<or> could_be_arith (ucast orig) (ucast v) 1 \<longleftrightarrow>
     v = orig \<or> (\<exists>n p. n \<in> {1, 2, 4, 8} \<and> p + n \<le> 8 \<and> flip_bits n p [orig] = Some [v]) \<or>
     v \<in> set (arith8_values orig)"
proof -
  have "could_be_bitflip (ucast (orig XOR v)) \<longleftrightarrow>
      v = orig \<or> (\<exists>n p. n \<in> {1, 2, 4, 8} \<and> p + n \<le> 8 \<and> flip_bits n p [orig] = Some [v])"
    unfolding could_be_bitflip_byte by (rule byte_flips_flip_bits)
  then show ?thesis unfolding arith8_values_iff could_be_arith_byte by blast
qed

section \<open>The bit flip filter on words\<close>

lemma arith16_values_new: "v \<in> set (arith16_values o1) \<Longrightarrow> \<not> could_be_bitflip (ucast (o1 XOR v))"
  by (auto simp: arith16_values_def Let_def split: if_splits)

lemma flip_bits_pair:
  assumes "p + n \<le> 16" and "flip_bits n p [a, b] = Some [c, d]"
  shows "a XOR c = xor_mask n p 0 \<and> b XOR d = xor_mask n p 1"
proof -
  have "[0..<length [a, b]] = [0, 1 :: nat]" by simp
  moreover have "length [a, b] < 2 ^ 29" by simp
  ultimately have "c = a XOR xor_mask n p 0 \<and> d = b XOR xor_mask n p 1"
    using assms flip_bits_xor [of p n "[a, b]"] by simp
  then show ?thesis by (simp flip: xor.assoc)
qed

lemma no_split_run:
  "list_all (\<lambda>n. list_all (\<lambda>p. \<not> (xor_mask n p 0 = 0xe0 \<and> xor_mask n p 1 = 1)) [0..<17 - n]) [1, 2, 4, 8, 16]"
  by code_simp

text \<open>
  On words the bit flip filter leaves out values that no stage tries.  Adding 32 to the
  little-endian word \<open>0x00e0\<close> carries into the second byte, but \<open>Arithmetic16\<close> leaves the
  result out because the changed bits are four neighbours of the word; the flip stages, which
  count the bits of each byte from the most significant one, never flip those four together.
\<close>

theorem word_filter_loses_values:
  "unat (0xe0 AND 0xff :: u16) + 32 > 0xff \<and> 0xe0 + of_nat 32 = (0x100 :: u16) \<and>
   0x100 \<notin> set (arith16_values 0xe0) \<and>
   \<not> (\<exists>n p. n \<in> {1, 2, 4, 8, 16} \<and> p + n \<le> 16 \<and>
        flip_bits n p (le_bytes 2 (0xe0 :: u16)) = Some (le_bytes 2 (0x100 :: u16)))"
proof -
  have bytes: "le_bytes 2 (0xe0 :: u16) = [0xe0, 0]" "le_bytes 2 (0x100 :: u16) = [0, 1]" by code_simp+
  have "could_be_bitflip (ucast (0xe0 XOR 0x100 :: u16))" by code_simp
  then have new: "0x100 \<notin> set (arith16_values 0xe0)" using arith16_values_new by blast
  have "False" if h: "n \<in> {1, 2, 4, 8, 16}" "p + n \<le> 16" "flip_bits n p [0xe0, 0] = Some [0, 1]" for n p
  proof -
    have "xor_mask n p 0 = 0xe0 \<and> xor_mask n p 1 = 1" using flip_bits_pair [OF h(2,3)] by simp
    moreover have "n \<in> set [1, 2, 4, 8, 16]" "p \<in> set [0..<17 - n]" using h(1,2) by auto
    ultimately show False using no_split_run unfolding list_all_iff by blast
  qed
  then show ?thesis unfolding bytes using new by auto
qed

end
