(* ===== verification/Det_Stages.thy ===== *)
theory Det_Stages
  imports Mutation_Filters Unit_Properties "HOL-Library.Multiset"
begin

text \<open>
  The deterministic stages of fuzzing a seed (\<open>FuzzOne.cpp\<close>): \<open>BitFlip\<close>, which also
  collects the tokens of the automatic dictionary and marks the useful bytes, the arithmetic and
  interesting-value stages, and the dictionary stages.  A stage works in place on the buffer of
  the test case and runs one \<open>FuzzUnit\<close> per mutation.

  A stage returns \<open>0\<close>, or \<open>1\<close> as soon as a unit fails, with the buffer and the state.  Test
  cases are shorter than \<open>2\<^sup>2\<^sup>9\<close> bytes, so bit numbers fit in \<open>u32\<close>.
\<close>

section \<open>The automatic dictionary\<close>

definition MIN_TOKEN_SIZE :: nat where "MIN_TOKEN_SIZE = 1"
definition MAX_TOKEN_SIZE :: nat where "MAX_TOKEN_SIZE = 32"
definition MAX_TOKEN_NUM :: nat where "MAX_TOKEN_NUM = 50"
definition MAX_FILE_LEN :: nat where "MAX_FILE_LEN = 1048576"

text \<open>The order of \<open>std::string\<close>, and \<open>autoToken[token]++\<close> on the sorted map.\<close>

fun bytes_less :: "u8 list \<Rightarrow> u8 list \<Rightarrow> bool" where
  "bytes_less xs [] = False"
| "bytes_less [] (y # ys) = True"
| "bytes_less (x # xs) (y # ys) = (x < y \<or> (x = y \<and> bytes_less xs ys))"

fun count_token :: "u8 list \<Rightarrow> (u8 list \<times> nat) list \<Rightarrow> (u8 list \<times> nat) list" where
  "count_token t [] = [(t, 1)]"
| "count_token t ((k, n) # m) =
     (if t = k then (k, inc32 n) # m
      else if bytes_less t k then (t, 1) # (k, n) # m
      else (k, n) # count_token t m)"

text \<open>
  A two-byte token is read as \<open>u16\<close> and compared with \<open>s16\<close> values after promotion to
  \<open>int\<close>; a four-byte token is read as \<open>u32\<close>, and the \<open>s32\<close> values are converted.
\<close>

definition AddToken :: "u8 list \<Rightarrow> fuzzer \<Rightarrow> fuzzer" where
  "AddToken token s =
     (if length token = 2 \<and> list_ex (\<lambda>x. uint (le_word token :: u16) = x) interesting_16 then s
      else if length token = 4 \<and> list_ex (\<lambda>x. (le_word token :: u32) = word_of_int x) interesting_32 then s
      else if token \<in> set (map fst (pointedToken s)) then s
      else s\<lparr>autoToken := count_token token (autoToken s)\<rparr>)"

section \<open>Bit flips\<close>

text \<open>What the 1/1 stage does after a unit on the first bit of a byte.\<close>

definition token_step ::
  "u32 \<Rightarrow> nat \<Rightarrow> nat \<Rightarrow> u8 list \<Rightarrow> u8 list \<times> u32 \<times> fuzzer \<Rightarrow> (u8 list \<times> u32 \<times> fuzzer) option" where
  "token_step seed_cksum stageCur stageMax filemap = (\<lambda>(token, prevcksum, s).
     do {
       c \<leftarrow> get_byte (stageCur div 8) filemap;
       let ck = trace_cksum (globalTraceBit s);
       let (token, prevcksum, s) =
         (if ck \<noteq> prevcksum then
            ([], ck, if MIN_TOKEN_SIZE \<le> length token \<and> length token \<le> MAX_TOKEN_SIZE
                     then AddToken token s else s)
          else if stageCur = stageMax - 1 then
            (let token = (if length token < MAX_TOKEN_SIZE then token @ [c] else token)
             in (token, prevcksum, if MIN_TOKEN_SIZE \<le> length token then AddToken token s else s))
          else (token, prevcksum, s));
       Some (if ck \<noteq> seed_cksum \<and> length token < MAX_TOKEN_SIZE then token @ [c] else token, prevcksum, s)
     })"

definition mark_useful :: "u32 \<Rightarrow> nat \<Rightarrow> fuzzer \<Rightarrow> fuzzer option" where
  "mark_useful seed_cksum i s =
     do {
       u \<leftarrow> get_byte i (useful_byte s);
       if \<not> u \<and> trace_cksum (globalTraceBit s) \<noteq> seed_cksum
       then Some (s\<lparr>useful_byte := (useful_byte s)[i := True]\<rparr>) else Some s
     }"

type_synonym flip_state = "u8 list \<times> u8 list \<times> u32 \<times> fuzzer"

definition flip_step ::
  "fuzz_env \<Rightarrow> nat \<Rightarrow> nat \<Rightarrow> nat \<Rightarrow> nat \<Rightarrow> nat \<Rightarrow> nat \<Rightarrow> flip_state \<Rightarrow> (nat \<times> flip_state) option" where
  "flip_step E q len flipnum flipstep stageMax stageCur = (\<lambda>(filemap, token, prevcksum, s).
     do {
       skip \<leftarrow> (if flipnum \<noteq> 8 \<and> flipstep = 8
                then map_option (\<lambda>us. \<not> list_ex id us)
                       (mem_read (stageCur div 8) (flipnum div flipstep) (useful_byte s))
                else Some False);
       if skip then Some (0, filemap, token, prevcksum, s)
       else do {
         filemap \<leftarrow> flip_bits flipnum stageCur filemap;
         (r, s) \<leftarrow> FuzzUnit E filemap len None None s;
         if r \<noteq> 0 then Some (1, filemap, token, prevcksum, s)
         else do {
           filemap \<leftarrow> flip_bits flipnum stageCur filemap;
           if flipnum = 1 \<and> flipstep = 1 then
             if stageCur mod 8 = 0 then do {
               (token, prevcksum, s) \<leftarrow>
                 token_step (cksum (queue s ! q)) stageCur stageMax filemap (token, prevcksum, s);
               Some (0, filemap, token, prevcksum, s) }
             else Some (0, filemap, token, prevcksum, s)
           else if flipnum = 8 \<and> flipstep = 8 then do {
             s \<leftarrow> mark_useful (cksum (queue s ! q)) (stageCur div 8) s;
             Some (0, filemap, token, prevcksum, s) }
           else Some (0, filemap, token, prevcksum, s)
         }
       }
     })"

text \<open>The values of \<open>stageCur\<close>: from \<open>0\<close> in steps of \<open>flipstep\<close>, below \<open>stageMax\<close>.\<close>

definition stage_positions :: "nat \<Rightarrow> nat \<Rightarrow> nat list" where
  "stage_positions stageMax flipstep = filter (\<lambda>k. k mod flipstep = 0) [0..<stageMax]"

definition BitFlip ::
  "fuzz_env \<Rightarrow> nat \<Rightarrow> nat \<Rightarrow> nat \<Rightarrow> nat \<Rightarrow> u8 list \<times> fuzzer \<Rightarrow> (nat \<times> u8 list \<times> fuzzer) option" where
  "BitFlip E q len flipnum flipstep = (\<lambda>(filemap, s).
     if 8 * len < flipnum - flipstep then Some (0, filemap, s)
     else
       let stageMax = 8 * len - (flipnum - flipstep)
       in do {
         (r, filemap, _, _, s) \<leftarrow>
           stageM (flip_step E q len flipnum flipstep stageMax) (stage_positions stageMax flipstep)
             (filemap, [], cksum (queue s ! q), s);
         if r \<noteq> 0 then Some (1, filemap, s)
         else Some (0, filemap, print_result E (''BitFlip-'' @ to_string flipnum @ ''-'' @ to_string flipstep) s)
       })"

section \<open>Arithmetic and interesting values\<close>

text \<open>
  \<open>Arithmetic8/16/32\<close> and \<open>InterestingReplace8/16/32\<close> have the same loops: for every
  position with a useful byte under the word, every value is stored over the word, and
  afterwards the word is restored.
\<close>

definition try_value ::
  "fuzz_env \<Rightarrow> nat \<Rightarrow> nat \<Rightarrow> nat \<Rightarrow> 'a::len word \<Rightarrow> u8 list \<times> fuzzer \<Rightarrow> (nat \<times> u8 list \<times> fuzzer) option" where
  "try_value E len w i v = (\<lambda>(filemap, s).
     do {
       filemap \<leftarrow> mem_write i (le_bytes w v) filemap;
       (r, s) \<leftarrow> FuzzUnit E filemap len None None s;
       Some (r, filemap, s)
     })"

definition word_step ::
  "fuzz_env \<Rightarrow> nat \<Rightarrow> nat \<Rightarrow> ('a::len word \<Rightarrow> 'a word list) \<Rightarrow> nat \<Rightarrow> u8 list \<times> fuzzer \<Rightarrow>
    (nat \<times> u8 list \<times> fuzzer) option" where
  "word_step E len w values i = (\<lambda>(filemap, s).
     do {
       us \<leftarrow> mem_read i w (useful_byte s);
       if \<not> list_ex id us then Some (0, filemap, s)
       else do {
         bs \<leftarrow> mem_read i w filemap;
         let orig = le_word bs;
         (r, filemap, s) \<leftarrow> stageM (try_value E len w i) (values orig) (filemap, s);
         if r \<noteq> 0 then Some (1, filemap, s)
         else do { filemap \<leftarrow> mem_write i (le_bytes w orig) filemap; Some (0, filemap, s) }
       }
     })"

definition word_stage ::
  "fuzz_env \<Rightarrow> string \<Rightarrow> nat \<Rightarrow> ('a::len word \<Rightarrow> 'a word list) \<Rightarrow> nat \<Rightarrow> u8 list \<times> fuzzer \<Rightarrow>
    (nat \<times> u8 list \<times> fuzzer) option" where
  "word_stage E name w values len = (\<lambda>(filemap, s).
     if w \<noteq> 1 \<and> len < w then Some (0, filemap, s)
     else do {
       (r, filemap, s) \<leftarrow> stageM (word_step E len w values) [0..<len - (w - 1)] (filemap, s);
       Some (if r \<noteq> 0 then (1, filemap, s) else (0, filemap, print_result E name s))
     })"

definition Arithmetic8 :: "fuzz_env \<Rightarrow> nat \<Rightarrow> u8 list \<times> fuzzer \<Rightarrow> (nat \<times> u8 list \<times> fuzzer) option" where
  "Arithmetic8 E = word_stage E ''Arithmetic8'' 1 arith8_values"

definition Arithmetic16 :: "fuzz_env \<Rightarrow> nat \<Rightarrow> u8 list \<times> fuzzer \<Rightarrow> (nat \<times> u8 list \<times> fuzzer) option" where
  "Arithmetic16 E = word_stage E ''Arithmetic16'' 2 arith16_values"

definition Arithmetic32 :: "fuzz_env \<Rightarrow> nat \<Rightarrow> u8 list \<times> fuzzer \<Rightarrow> (nat \<times> u8 list \<times> fuzzer) option" where
  "Arithmetic32 E = word_stage E ''Arithmetic32'' 4 arith32_values"

definition InterestingReplace8 :: "fuzz_env \<Rightarrow> nat \<Rightarrow> u8 list \<times> fuzzer \<Rightarrow> (nat \<times> u8 list \<times> fuzzer) option" where
  "InterestingReplace8 E = word_stage E ''InterestingReplace8'' 1 interest8_values"

definition InterestingReplace16 :: "fuzz_env \<Rightarrow> nat \<Rightarrow> u8 list \<times> fuzzer \<Rightarrow> (nat \<times> u8 list \<times> fuzzer) option" where
  "InterestingReplace16 E = word_stage E ''InterestingReplace16'' 2 interest16_values"

definition InterestingReplace32 :: "fuzz_env \<Rightarrow> nat \<Rightarrow> u8 list \<times> fuzzer \<Rightarrow> (nat \<times> u8 list \<times> fuzzer) option" where
  "InterestingReplace32 E = word_stage E ''InterestingReplace32'' 4 interest32_values"

section \<open>Dictionary\<close>

definition replace_token ::
  "fuzz_env \<Rightarrow> nat \<Rightarrow> nat \<Rightarrow> u8 list \<Rightarrow> u8 list \<times> nat \<Rightarrow> u8 list \<times> fuzzer \<Rightarrow> (nat \<times> u8 list \<times> fuzzer) option" where
  "replace_token E len i orig token = (\<lambda>(filemap, s).
     let token_data = fst token; token_len = length token_data
     in if token_len > len - i then Some (0, filemap, s)
        else do {
          head \<leftarrow> mem_read 0 token_len orig;
          if head = token_data then Some (0, filemap, s)
          else do {
            us \<leftarrow> mem_read i token_len (useful_byte s);
            if \<not> list_ex id us then Some (0, filemap, s)
            else do {
              filemap \<leftarrow> mem_write i token_data filemap;
              (r, s) \<leftarrow> FuzzUnit E filemap len None None s;
              Some (r, filemap, s)
            }
          }
        })"

definition DictionaryReplace ::
  "fuzz_env \<Rightarrow> nat \<Rightarrow> (u8 list \<times> nat) list \<Rightarrow> u8 list \<times> fuzzer \<Rightarrow> (nat \<times> u8 list \<times> fuzzer) option" where
  "DictionaryReplace E len MVector = (\<lambda>st.
     do {
       (r, filemap, s) \<leftarrow> stageM (\<lambda>i (filemap, s).
           do {
             orig \<leftarrow> mem_read i (min MAX_TOKEN_SIZE (len - i)) filemap;
             (r, filemap, s) \<leftarrow> stageM (replace_token E len i orig) MVector (filemap, s);
             if r \<noteq> 0 then Some (1, filemap, s)
             else do { filemap \<leftarrow> mem_write i orig filemap; Some (0, filemap, s) }
           }) [0..<len] st;
       Some (if r \<noteq> 0 then (1, filemap, s) else (0, filemap, print_result E ''DictionaryReplace'' s))
     })"

definition place_token :: "nat \<Rightarrow> nat \<Rightarrow> u8 list \<Rightarrow> u8 list \<Rightarrow> u8 list \<Rightarrow> u8 list option" where
  "place_token len i token_data filemap temp =
     do {
       temp \<leftarrow> mem_write i token_data temp;
       tail \<leftarrow> mem_read i (len - i) filemap;
       mem_write (i + length token_data) tail temp
     }"

definition insert_token ::
  "fuzz_env \<Rightarrow> nat \<Rightarrow> nat \<Rightarrow> u8 list \<Rightarrow> u8 list \<times> nat \<Rightarrow> u8 list \<times> fuzzer \<Rightarrow> (nat \<times> u8 list \<times> fuzzer) option" where
  "insert_token E len i filemap token = (\<lambda>(temp, s).
     if len + length (fst token) > MAX_FILE_LEN then Some (0, temp, s)
     else do {
       temp \<leftarrow> place_token len i (fst token) filemap temp;
       (r, s) \<leftarrow> FuzzUnit E temp (len + length (fst token)) None None s;
       Some (r, temp, s)
     })"

text \<open>
  The fresh buffer has indeterminate contents in the code; no byte of it is read before it is
  written (see \<open>place_token_inserts\<close>), so it starts with zeros here.
\<close>

definition DictionaryInsert ::
  "fuzz_env \<Rightarrow> nat \<Rightarrow> (u8 list \<times> nat) list \<Rightarrow> u8 list \<times> fuzzer \<Rightarrow> (nat \<times> u8 list \<times> fuzzer) option" where
  "DictionaryInsert E len MVector = (\<lambda>(filemap, s).
     do {
       (r, _, s) \<leftarrow> stageM (\<lambda>i (temp, s).
           do {
             (r, temp, s) \<leftarrow> stageM (insert_token E len i filemap) MVector (temp, s);
             if r \<noteq> 0 then Some (1, temp, s)
             else do { x \<leftarrow> get_byte i filemap; temp \<leftarrow> set_byte i x temp; Some (0, temp, s) }
           }) [0..<len] (replicate (len + MAX_TOKEN_SIZE) 0, s);
       Some (if r \<noteq> 0 then (1, filemap, s) else (0, filemap, print_result E ''DictionaryInsert'' s))
     })"

definition CompareMVectorValue :: "u8 list \<times> nat \<Rightarrow> u8 list \<times> nat \<Rightarrow> bool" where
  "CompareMVectorValue obj1 obj2 \<longleftrightarrow> snd obj1 > snd obj2"

definition CompareMVectorStringLen :: "u8 list \<times> nat \<Rightarrow> u8 list \<times> nat \<Rightarrow> bool" where
  "CompareMVectorStringLen obj1 obj2 \<longleftrightarrow> length (fst obj1) < length (fst obj2)"

definition dictionary_tokens :: "fuzz_env \<Rightarrow> fuzzer \<Rightarrow> (u8 list \<times> nat) list" where
  "dictionary_tokens E s =
     (let MVector = autoToken s;
          MVector = (if length MVector > MAX_TOKEN_NUM
                     then take MAX_TOKEN_NUM (std_sort E CompareMVectorValue MVector) else MVector)
      in std_sort E CompareMVectorStringLen MVector)"

definition Dictionary :: "fuzz_env \<Rightarrow> nat \<Rightarrow> u8 list \<times> fuzzer \<Rightarrow> (nat \<times> u8 list \<times> fuzzer) option" where
  "Dictionary E len = (\<lambda>(filemap, s).
     let MVector = dictionary_tokens E s
     in or_else (DictionaryReplace E len MVector (filemap, s)) (DictionaryInsert E len MVector))"

section \<open>Patched buffers\<close>

text \<open>
  \<open>patched i w fm0 fm\<close>: the buffer \<open>fm\<close> differs from \<open>fm0\<close> at most in the \<open>w\<close> bytes at
  offset \<open>i\<close>.  Every mutation stays within such a window, and writing back the saved bytes
  restores the buffer.
\<close>

definition patched :: "nat \<Rightarrow> nat \<Rightarrow> u8 list \<Rightarrow> u8 list \<Rightarrow> bool" where
  "patched i w fm0 fm \<longleftrightarrow>
     i + w \<le> length fm0 \<and> length fm = length fm0 \<and> take i fm = take i fm0 \<and> drop (i + w) fm = drop (i + w) fm0"

lemma patched_refl: "i + w \<le> length fm \<Longrightarrow> patched i w fm fm"
  by (simp add: patched_def)

lemma patched_write:
  assumes "patched i w fm0 fm" and "mem_write i xs fm = Some fm'" and "length xs \<le> w"
  shows "patched i w fm0 fm'"
proof -
  have fm': "fm' = take i fm @ xs @ drop (i + length xs) fm" and i: "i \<le> length fm"
    using assms(1,2) by (auto simp: mem_write_def patched_def split: if_splits)
  have "drop (i + w) fm' = drop (i + w) fm"
    using assms(3) i by (simp add: fm' drop_append add.commute)
  then show ?thesis
    using assms(1) mem_write_length [OF assms(2)] i by (simp add: patched_def fm')
qed

lemma patched_restore:
  assumes "patched i w fm0 fm" and "mem_read i w fm0 = Some orig" and "mem_write i orig fm = Some fm'"
  shows "fm' = fm0"
proof -
  have orig: "orig = take w (drop i fm0)" and le: "i + w \<le> length fm0"
    using assms(2) by (auto simp: mem_read_def split: if_splits)
  then have "fm' = take i fm @ orig @ drop (i + w) fm"
    using assms(1,3) by (auto simp: mem_write_def patched_def split: if_splits)
  also have "\<dots> = take i fm0 @ take w (drop i fm0) @ drop (i + w) fm0"
    using assms(1) by (simp add: patched_def orig)
  also have "\<dots> = fm0" by (metis append_take_drop_id drop_drop add.commute)
  finally show ?thesis .
qed

section \<open>What a stage leaves unchanged\<close>

text \<open>
  Within a stage the dictionary and the random tape may change; apart from them the state
  grows as within a unit, and the seeds keep their files.
\<close>

definition stage_rel :: "fuzz_env \<Rightarrow> nat \<Rightarrow> fuzzer \<Rightarrow> fuzzer \<Rightarrow> bool" where
  "stage_rel E n s s' \<longleftrightarrow>
     fuzz_rel E n (s\<lparr>autoToken := autoToken s', rand_tape := rand_tape s'\<rparr>) s' \<and>
     (\<not> prefix (outputDir E) (testfile E) \<longrightarrow> queue_files_ok E s \<longrightarrow> queue_files_ok E s')"

lemma fuzz_rel_tokens:
  "fuzz_rel E n s s' \<Longrightarrow>
   fuzz_rel E n (s\<lparr>autoToken := a, rand_tape := t\<rparr>) (s'\<lparr>autoToken := a, rand_tape := t\<rparr>)"
  by (simp add: fuzz_rel_def maps_ok_def grows_def)

lemma stage_rel_refl: "maps_ok n s \<Longrightarrow> stage_rel E n s s"
  by (simp add: stage_rel_def fuzz_rel_refl)

lemma queue_files_ok_tokens [simp]:
  "queue_files_ok E (s\<lparr>autoToken := a\<rparr>) = queue_files_ok E s"
  "queue_files_ok E (s\<lparr>rand_tape := t\<rparr>) = queue_files_ok E s"
  "queue_files_ok E (s\<lparr>useful_byte := u\<rparr>) = queue_files_ok E s"
  by (simp_all add: queue_files_ok_def)

lemma stage_rel_fields [simp]:
  "stage_rel E n s (s'\<lparr>autoToken := a\<rparr>) = stage_rel E n s s'"
  "stage_rel E n s (s'\<lparr>rand_tape := t\<rparr>) = stage_rel E n s s'"
  "stage_rel E n s (s'\<lparr>useful_byte := u\<rparr>) = stage_rel E n s s'"
  "stage_rel E n s (s'\<lparr>clock := c\<rparr>) = stage_rel E n s s'"
  by (simp_all add: stage_rel_def fuzz_rel_def maps_ok_def grows_def)

lemma stage_rel_trans_fuzz:
  assumes "stage_rel E n s s'" and "fuzz_rel E n s' s''"
    and "\<not> prefix (outputDir E) (testfile E) \<Longrightarrow> queue_files_ok E s' \<Longrightarrow> queue_files_ok E s''"
  shows "stage_rel E n s s''"
proof -
  have same: "autoToken s'' = autoToken s'" "rand_tape s'' = rand_tape s'"
    using assms(2) by (simp_all add: fuzz_rel_def grows_def)
  then show ?thesis
    using assms fuzz_rel_trans [of E n _ s' s''] by (auto simp: stage_rel_def)
qed

lemma stage_rel_trans:
  assumes "stage_rel E n s s'" and "stage_rel E n s' s''"
  shows "stage_rel E n s s''"
proof -
  let ?t = "s'\<lparr>autoToken := autoToken s'', rand_tape := rand_tape s''\<rparr>"
  have "stage_rel E n s ?t" using assms(1) by simp
  then show ?thesis
    by (rule stage_rel_trans_fuzz) (use assms(2) in \<open>simp_all add: stage_rel_def\<close>)
qed

named_theorems stage_rules \<open>operations within a stage\<close>

lemma FuzzUnit_stage [stage_rules]:
  assumes "stage_rel E n s0 s"
  shows "ensures (FuzzUnit E fm len el cm s) (\<lambda>(r, s'). r = 0 \<and> stage_rel E n s0 s')"
proof (rule ensuresI, clarify)
  fix r s' assume run: "FuzzUnit E fm len el cm s = Some (r, s')"
  have "maps_ok n s" using assms by (simp add: stage_rel_def fuzz_rel_def)
  then have "r = 0" "fuzz_rel E n s s'"
    using ensuresD [OF FuzzUnit_ens [OF fuzz_rel_refl] run] by simp_all
  moreover have "queue_files_ok E s \<Longrightarrow> \<not> prefix (outputDir E) (testfile E) \<Longrightarrow> queue_files_ok E s'"
    using ensuresD [OF FuzzUnit_qf run] by simp
  ultimately show "r = 0 \<and> stage_rel E n s0 s'" using stage_rel_trans_fuzz [OF assms] by blast
qed

lemma print_result_stage [stage_rules]:
  "stage_rel E n s0 s \<Longrightarrow> stage_rel E n s0 (print_result E name s)"
proof (rule stage_rel_trans_fuzz)
  assume "stage_rel E n s0 s"
  then have "maps_ok n s" by (simp add: stage_rel_def fuzz_rel_def)
  then show "fuzz_rel E n s (print_result E name s)" by (intro print_result_rel fuzz_rel_refl)
  show "queue_files_ok E s \<Longrightarrow> queue_files_ok E (print_result E name s)"
    by (simp add: print_result_def GetTimeStr_def GetCurTimeUs_def Let_def)
qed

section \<open>The stages restore the buffer\<close>

lemma AddToken_stage: "stage_rel E n s0 s \<Longrightarrow> stage_rel E n s0 (AddToken t s)"
  by (simp add: AddToken_def)

lemma token_step_stage:
  assumes "stage_rel E n s0 s"
  shows "ensures (token_step ck k m fm (t, p, s)) (\<lambda>(t', p', s'). stage_rel E n s0 s')"
  unfolding token_step_def Let_def prod.case
  by (rule ensures_bind [OF ensures_True]) (simp add: ensures_def assms AddToken_stage [OF assms])

lemma mark_useful_stage:
  assumes "stage_rel E n s0 s"
  shows "ensures (mark_useful ck i s) (stage_rel E n s0)"
  unfolding mark_useful_def
  by (rule ensures_bind [OF ensures_True], rule ensures_if) (simp_all add: ensures_Some assms)

lemma flip_step_stage:
  assumes rel: "stage_rel E n s0 s" and k: "k + flipnum \<le> 8 * length fm" and len: "length fm < 2 ^ 29"
  shows "ensures (flip_step E q l flipnum st m k (fm, t, p, s))
    (\<lambda>(r, fm', t', p', s'). r = 0 \<and> fm' = fm \<and> stage_rel E n s0 s')"
proof -
  have flip: "ensures (flip_bits flipnum k fm) (\<lambda>fm'. flip_bits flipnum k fm' = Some fm)"
    using flip_bits_twice [OF _ k len] by (simp add: ensures_def)
  show ?thesis
    unfolding flip_step_def prod.case
    apply (rule ensures_bind [OF ensures_True], rule ensures_if)
     apply (simp add: ensures_Some rel)
    apply (rule ensures_bind [OF flip], rule ensures_bind_pair [OF FuzzUnit_stage [OF rel]])
    apply (elim conjE)
    apply simp
    apply (intro conjI impI)
         apply (rule ensures_bind [OF token_step_stage] ensures_bind [OF mark_useful_stage] | assumption |
           (auto simp: ensures_def)[1])+
    done
qed

lemma stage_positions_bound:
  assumes "k \<in> set (stage_positions (8 * len - (flipnum - flipstep)) flipstep)"
    and "flipstep dvd flipnum" and "flipstep dvd 8" and "len \<le> length fm" and "0 < flipstep"
  shows "k + flipnum \<le> 8 * length fm"
proof -
  let ?m = "8 * len - (flipnum - flipstep)"
  have k: "k < ?m" "flipstep dvd k" using assms(1) by (auto simp: stage_positions_def)
  have "flipstep dvd ?m" using assms(2,3) by (intro dvd_diff_nat dvd_mult2) simp_all
  then have "flipstep dvd ?m - k" using k(2) by (rule dvd_diff_nat)
  then have "flipstep \<le> ?m - k" using k(1) by (intro dvd_imp_le) simp_all
  then have "k + flipstep \<le> ?m" using k(1) by linarith
  moreover have "?m + flipnum \<le> 8 * len + flipstep \<or> ?m = 0" by linarith
  ultimately have "k + flipnum \<le> 8 * len" using k(1) by linarith
  then show ?thesis using assms(4) by simp
qed

lemma BitFlip_stage:
  assumes rel: "stage_rel E n s0 s" and len: "len \<le> length fm" "length fm < 2 ^ 29"
    and step: "flipstep dvd flipnum" "flipstep dvd 8" "0 < flipstep"
  shows "ensures (BitFlip E q len flipnum flipstep (fm, s)) (\<lambda>(r, fm', s'). r = 0 \<and> fm' = fm \<and> stage_rel E n s0 s')"
proof -
  let ?m = "8 * len - (flipnum - flipstep)"
  have loop: "ensures (stageM (flip_step E q len flipnum flipstep ?m) (stage_positions ?m flipstep)
      (fm, [], cksum (queue s ! q), s))
    (\<lambda>(r, st). r = 0 \<and> (case st of (fm', t, p, s') \<Rightarrow> fm' = fm \<and> stage_rel E n s0 s'))"
  proof (rule ensures_stageM)
    fix k and st :: flip_state
    assume "k \<in> set (stage_positions ?m flipstep)" and "case st of (fm', t, p, s') \<Rightarrow> fm' = fm \<and> stage_rel E n s0 s'"
    then obtain t p s' where st: "st = (fm, t, p, s')" "stage_rel E n s0 s'" and k: "k + flipnum \<le> 8 * length fm"
      using stage_positions_bound [OF _ step(1,2) len(1) step(3)] by (cases st) auto
    show "ensures (flip_step E q len flipnum flipstep ?m k st)
        (\<lambda>(r, st). r = 0 \<and> (case st of (fm', t, p, s') \<Rightarrow> fm' = fm \<and> stage_rel E n s0 s'))"
      unfolding st(1) by (rule ensures_weaken [OF flip_step_stage [OF st(2) k len(2)]]) auto
  qed (simp add: rel)
  show ?thesis
    unfolding BitFlip_def prod.case Let_def
    apply (rule ensures_if)
     apply (simp add: ensures_Some rel)
    apply (rule ensures_bind [OF loop])
    subgoal for x by (cases x rule: prod_cases5) (simp add: ensures_Some print_result_stage)
    done
qed

lemma try_value_stage:
  assumes "patched i w fm0 fm" and "stage_rel E n s0 s"
  shows "ensures (try_value E len w i v (fm, s)) (\<lambda>(r, fm', s'). r = 0 \<and> patched i w fm0 fm' \<and> stage_rel E n s0 s')"
proof -
  have "ensures (mem_write i (le_bytes w v) fm) (patched i w fm0)"
    using patched_write [OF assms(1)] by (simp add: ensures_def)
  then show ?thesis
    unfolding try_value_def prod.case
    by (rule ensures_bind, intro ensures_bind_pair [OF FuzzUnit_stage [OF assms(2)]]) (simp add: ensures_Some)
qed

text \<open>Without assumptions on the buffer the stage still only leads to related states.\<close>

definition flip_rel :: "fuzz_env \<Rightarrow> nat \<Rightarrow> fuzzer \<Rightarrow> flip_state \<Rightarrow> bool" where
  "flip_rel E n s0 = (\<lambda>(fm, t, p, s). stage_rel E n s0 s)"

lemma flip_step_rel:
  assumes "flip_rel E n s0 st"
  shows "ensures (flip_step E q len flipnum flipstep stageMax k st) (\<lambda>(r, st'). r = 0 \<and> flip_rel E n s0 st')"
proof -
  obtain fm t p s where st: "st = (fm, t, p, s)" and rel: "stage_rel E n s0 s"
    using assms by (cases st) (auto simp: flip_rel_def)
  show ?thesis
    unfolding st flip_step_def prod.case
    apply (rule ensures_bind [OF ensures_True], rule ensures_if, simp add: ensures_Some flip_rel_def rel)
    apply (rule ensures_bind [OF ensures_True], rule ensures_bind_pair [OF FuzzUnit_stage [OF rel]], elim conjE)
    apply simp
    apply (rule ensures_bind [OF ensures_True])
    apply (rule ensures_if ensures_bind_triple [OF token_step_stage] ensures_bind [OF mark_useful_stage] | assumption |
        (simp add: ensures_Some flip_rel_def; fail))+
    done
qed

lemma BitFlip_rel:
  assumes "stage_rel E n s0 s"
  shows "ensures (BitFlip E q len flipnum flipstep (fm, s)) (\<lambda>(r, fm', s'). r = 0 \<and> stage_rel E n s0 s')"
  unfolding BitFlip_def prod.case Let_def
  apply (rule ensures_if)
   apply (simp add: ensures_Some assms)
  apply (rule ensures_bind [OF ensures_stageM [OF flip_step_rel [where n = n and ?s0.0 = s0]]])
    apply assumption
   apply (simp add: flip_rel_def assms)
  subgoal for x by (cases x rule: prod_cases5) (simp add: ensures_Some print_result_stage flip_rel_def)
  done

lemma word_step_stage:
  assumes rel: "stage_rel E n s0 s" and w: "8 * w \<le> LENGTH('a::len)"
  shows "ensures (word_step E len w (values :: 'a word \<Rightarrow> _) i (fm, s))
    (\<lambda>(r, fm', s'). r = 0 \<and> fm' = fm \<and> stage_rel E n s0 s')"
proof -
  have rd: "ensures (mem_read i w fm) (\<lambda>bs. mem_read i w fm = Some bs \<and> length bs = w)"
    by (auto simp: ensures_def mem_read_def split: if_splits)
  show ?thesis
    unfolding word_step_def prod.case Let_def
  proof (rule ensures_bind [OF ensures_True], rule ensures_if, simp add: ensures_Some rel,
      rule ensures_bind [OF rd])
    fix us bs assume bs: "mem_read i w fm = Some bs \<and> length bs = w"
    then have in_buf: "i + w \<le> length fm" by (simp add: mem_read_def split: if_splits)
    have loop: "ensures (stageM (try_value E len w i) (values (le_word bs)) (fm, s))
        (\<lambda>(r, fm', s'). r = 0 \<and> patched i w fm fm' \<and> stage_rel E n s0 s')"
      by (rule ensures_stageM_pair, elim conjE, rule try_value_stage) (simp_all add: rel patched_refl [OF in_buf])
    have restore: "ensures (mem_write i (le_bytes w (le_word bs :: 'a word)) fm') (\<lambda>x. x = fm)" if "patched i w fm fm'" for fm'
      using patched_restore [OF that] bs w by (simp add: ensures_def le_bytes_le_word)
    show "ensures (stageM (try_value E len w i) (values (le_word bs)) (fm, s) \<bind>
        (\<lambda>(r, fm', s'). if r \<noteq> 0 then Some (1, fm', s')
          else mem_write i (le_bytes w (le_word bs :: 'a word)) fm' \<bind> (\<lambda>fm'. Some (0, fm', s'))))
        (\<lambda>(r, fm', s'). r = 0 \<and> fm' = fm \<and> stage_rel E n s0 s')"
      by (rule ensures_bind_triple [OF loop], simp, rule ensures_bind [OF restore]) (simp_all add: ensures_Some)
  qed
qed

lemma word_stage_stage:
  assumes rel: "stage_rel E n s0 s" and w: "8 * w \<le> LENGTH('a::len)"
  shows "ensures (word_stage E name w (values :: 'a word \<Rightarrow> _) len (fm, s))
    (\<lambda>(r, fm', s'). r = 0 \<and> fm' = fm \<and> stage_rel E n s0 s')"
proof -
  have loop: "ensures (stageM (word_step E len w values) is (fm, s))
      (\<lambda>(r, fm', s'). r = 0 \<and> fm' = fm \<and> stage_rel E n s0 s')" for "is"
    by (rule ensures_stageM_pair, elim conjE, hypsubst, rule word_step_stage [OF _ w]) (simp_all add: rel)
  show ?thesis
    unfolding word_stage_def prod.case
    by (rule ensures_if, simp add: ensures_Some rel, rule ensures_bind_triple [OF loop])
      (simp add: ensures_Some print_result_stage)
qed

lemma replace_token_stage:
  assumes "patched i w fm0 fm" and "stage_rel E n s0 s" and "length orig = w"
  shows "ensures (replace_token E len i orig token (fm, s))
    (\<lambda>(r, fm', s'). r = 0 \<and> patched i w fm0 fm' \<and> stage_rel E n s0 s')"
proof -
  have same: "ensures (Some (0, fm, s)) (\<lambda>(r, fm', s'). r = 0 \<and> patched i w fm0 fm' \<and> stage_rel E n s0 s')"
    using assms by (simp add: ensures_Some)
  have head: "ensures (mem_read 0 (length (fst token)) orig) (\<lambda>_. length (fst token) \<le> w)"
    using assms(3) by (simp add: ensures_def mem_read_def)
  show ?thesis
    unfolding replace_token_def prod.case Let_def
  proof (rule ensures_if, rule same, rule ensures_bind [OF head], rule ensures_if, rule same,
      rule ensures_bind [OF ensures_True], rule ensures_if, rule same)
    assume "length (fst token) \<le> w"
    then have "ensures (mem_write i (fst token) fm) (patched i w fm0)"
      using patched_write [OF assms(1)] by (simp add: ensures_def)
    then show "ensures (mem_write i (fst token) fm \<bind>
        (\<lambda>fm. FuzzUnit E fm len None None s \<bind> (\<lambda>(r, s). Some (r, fm, s))))
        (\<lambda>(r, fm', s'). r = 0 \<and> patched i w fm0 fm' \<and> stage_rel E n s0 s')"
      by (rule ensures_bind, intro ensures_bind_pair [OF FuzzUnit_stage [OF assms(2)]]) (simp add: ensures_Some)
  qed
qed

lemma DictionaryReplace_stage:
  assumes rel: "stage_rel E n s0 s"
  shows "ensures (DictionaryReplace E len toks (fm, s)) (\<lambda>(r, fm', s'). r = 0 \<and> fm' = fm \<and> stage_rel E n s0 s')"
proof -
  let ?step = "\<lambda>i (filemap, s).
      do {
        orig \<leftarrow> mem_read i (min MAX_TOKEN_SIZE (len - i)) filemap;
        (r, filemap, s) \<leftarrow> stageM (replace_token E len i orig) toks (filemap, s);
        if r \<noteq> 0 then Some (1, filemap, s)
        else do { filemap \<leftarrow> mem_write i orig filemap; Some (0, filemap, s) } }"
  have step: "ensures (?step i (fm, s)) (\<lambda>(r, fm', s'). r = 0 \<and> fm' = fm \<and> stage_rel E n s0 s')"
    if rel: "stage_rel E n s0 s" for i s
    unfolding prod.case
  proof (rule ensures_bind)
    let ?w = "min MAX_TOKEN_SIZE (len - i)"
    show "ensures (mem_read i ?w fm) (\<lambda>orig. mem_read i ?w fm = Some orig \<and> length orig = ?w)"
      by (auto simp: ensures_def mem_read_def split: if_splits)
    fix orig assume orig: "mem_read i ?w fm = Some orig \<and> length orig = ?w"
    then have in_buf: "i + ?w \<le> length fm" by (simp add: mem_read_def split: if_splits)
    have loop: "ensures (stageM (replace_token E len i orig) toks (fm, s))
        (\<lambda>(r, fm', s'). r = 0 \<and> patched i ?w fm fm' \<and> stage_rel E n s0 s')"
      by (rule ensures_stageM_pair, elim conjE, rule replace_token_stage)
        (use orig in \<open>simp_all add: rel patched_refl [OF in_buf]\<close>)
    have restore: "ensures (mem_write i orig fm') (\<lambda>x. x = fm)" if "patched i ?w fm fm'" for fm'
      using patched_restore [OF that] orig by (simp add: ensures_def)
    show "ensures (stageM (replace_token E len i orig) toks (fm, s) \<bind>
        (\<lambda>(r, fm', s'). if r \<noteq> 0 then Some (1, fm', s') else mem_write i orig fm' \<bind> (\<lambda>fm'. Some (0, fm', s'))))
        (\<lambda>(r, fm', s'). r = 0 \<and> fm' = fm \<and> stage_rel E n s0 s')"
      by (rule ensures_bind_triple [OF loop], simp, rule ensures_bind [OF restore]) (simp_all add: ensures_Some)
  qed
  have loop: "ensures (stageM ?step [0..<len] (fm, s)) (\<lambda>(r, fm', s'). r = 0 \<and> fm' = fm \<and> stage_rel E n s0 s')"
    by (rule ensures_stageM_pair, elim conjE, hypsubst, rule step) (simp_all add: rel)
  show ?thesis
    unfolding DictionaryReplace_def
    by (rule ensures_bind_triple [OF loop]) (simp add: ensures_Some print_result_stage)
qed

lemma insert_token_stage:
  assumes "stage_rel E n s0 s"
  shows "ensures (insert_token E len i fm token (temp, s)) (\<lambda>(r, temp', s'). r = 0 \<and> True \<and> stage_rel E n s0 s')"
  unfolding insert_token_def prod.case
  by (rule ensures_if, simp add: ensures_Some assms, rule ensures_bind [OF ensures_True],
      rule ensures_bind_pair [OF FuzzUnit_stage [OF assms]]) (simp add: ensures_Some)

lemma DictionaryInsert_stage:
  assumes rel: "stage_rel E n s0 s"
  shows "ensures (DictionaryInsert E len toks (fm, s)) (\<lambda>(r, fm', s'). r = 0 \<and> fm' = fm \<and> stage_rel E n s0 s')"
proof -
  let ?step = "\<lambda>i (temp, s).
      do {
        (r, temp, s) \<leftarrow> stageM (insert_token E len i fm) toks (temp, s);
        if r \<noteq> 0 then Some (1, temp, s)
        else do { x \<leftarrow> get_byte i fm; temp \<leftarrow> set_byte i x temp; Some (0, temp, s) } }"
  have step: "ensures (?step i (temp, s)) (\<lambda>(r, temp', s'). r = 0 \<and> True \<and> stage_rel E n s0 s')"
    if rel: "stage_rel E n s0 s" for i temp s
    unfolding prod.case
  proof (rule ensures_bind_triple)
    show "ensures (stageM (insert_token E len i fm) toks (temp, s)) (\<lambda>(r, temp', s'). r = 0 \<and> True \<and> stage_rel E n s0 s')"
      by (rule ensures_stageM_pair, elim conjE, rule insert_token_stage) (simp_all add: rel)
    fix r temp' s' assume "r = 0 \<and> True \<and> stage_rel E n s0 s'"
    then show "ensures (case (r, temp', s') of (r, temp, s) \<Rightarrow> if r \<noteq> 0 then Some (1, temp, s)
        else do { x \<leftarrow> get_byte i fm; temp \<leftarrow> set_byte i x temp; Some (0, temp, s) })
        (\<lambda>(r, temp', s'). r = 0 \<and> True \<and> stage_rel E n s0 s')"
      by (simp, intro ensures_bind [OF ensures_True]) (simp add: ensures_Some)
  qed
  have loop: "ensures (stageM ?step [0..<len] (replicate (len + MAX_TOKEN_SIZE) 0, s))
      (\<lambda>(r, temp', s'). r = 0 \<and> True \<and> stage_rel E n s0 s')"
    by (rule ensures_stageM_pair, elim conjE, rule step) (simp_all add: rel)
  show ?thesis
    unfolding DictionaryInsert_def prod.case
    by (rule ensures_bind_triple [OF loop]) (simp add: ensures_Some print_result_stage)
qed

lemma Dictionary_stage:
  assumes rel: "stage_rel E n s0 s"
  shows "ensures (Dictionary E len (fm, s)) (\<lambda>(r, fm', s'). r = 0 \<and> fm' = fm \<and> stage_rel E n s0 s')"
proof -
  have "ensures (DictionaryReplace E len toks (fm, s)) (\<lambda>(r, st). r = 0 \<and> (\<exists>s'. st = (fm, s') \<and> stage_rel E n s0 s'))" for toks
    by (rule ensures_weaken [OF DictionaryReplace_stage [OF rel]]) auto
  then show ?thesis
    unfolding Dictionary_def prod.case Let_def
    by (rule ensures_or_else, elim exE conjE, hypsubst, intro DictionaryInsert_stage)
qed

section \<open>The contract of a stage\<close>

text \<open>
  Every stage of \<open>FuzzMain\<close> promises the same: it reports no failure, the test case is in the
  buffer afterwards as before, and the state only grows.  Sequences of stages keep the promise.
\<close>

locale fuzz_stage =
  fixes stage :: "fuzz_env \<Rightarrow> nat \<Rightarrow> u8 list \<times> fuzzer \<Rightarrow> (nat \<times> u8 list \<times> fuzzer) option"
  assumes keeps: "stage_rel E n s0 s \<Longrightarrow> ensures (stage E len (fm, s)) (\<lambda>(r, fm', s'). r = 0 \<and> stage_rel E n s0 s')"
    and contract:
    "stage_rel E n s0 s \<Longrightarrow> 0 < len \<Longrightarrow> len \<le> length fm \<Longrightarrow> length fm < 2 ^ 29 \<Longrightarrow>
     ensures (stage E len (fm, s))
       (\<lambda>(r, fm', s'). r = 0 \<and> take len fm' = take len fm \<and> len \<le> length fm' \<and> length fm' < 2 ^ 29 \<and> stage_rel E n s0 s')"
begin

lemma restores:
  assumes "maps_ok n s" and "0 < len" and "len \<le> length fm" and "length fm < 2 ^ 29"
    and "stage E len (fm, s) = Some (r, fm', s')"
  shows "r = 0" "take len fm' = take len fm" "stage_rel E n s s'"
  using ensuresD [OF contract [OF stage_rel_refl [OF assms(1)] assms(2-4)] assms(5)] by simp_all

lemma keeps_everything:
  assumes "maps_ok n s" and "stage E len (fm, s) = Some (r, fm', s')"
  shows "prefix (queue s) (queue s')" "seen (virginMap s) \<subseteq> seen (virginMap s')"
    "queueTop s' = queueTop s" "f \<noteq> testfile E \<Longrightarrow> files s f \<noteq> None \<Longrightarrow> files s' f = files s f"
  using ensuresD [OF keeps [OF stage_rel_refl [OF assms(1)]] assms(2)]
  by (simp_all add: stage_rel_def fuzz_rel_def grows_def)

end

locale stage_sequence = first: fuzz_stage stage1 + second: fuzz_stage stage2
  for stage1 stage2

lemma ensures_stage_then:
  assumes "ensures m (\<lambda>(r, fm', s'). r = (0 :: nat) \<and> P fm' s')" and "\<And>fm' s'. P fm' s' \<Longrightarrow> ensures (k (fm', s')) Q"
  shows "ensures (or_else m k) Q"
proof (rule ensures_or_else)
  show "ensures m (\<lambda>(r, st). r = 0 \<and> (case st of (fm', s') \<Rightarrow> P fm' s'))"
    by (rule ensures_weaken [OF assms(1)]) auto
qed (use assms(2) in auto)

sublocale stage_sequence \<subseteq> both: fuzz_stage "\<lambda>E len st. or_else (stage1 E len st) (stage2 E len)"
proof (unfold_locales, goal_cases)
  case (1 E n s0 s len fm)
  show ?case by (rule ensures_stage_then [OF first.keeps [OF 1]]) (rule second.keeps)
next
  case (2 E n s0 s len fm)
  show ?case
  proof (rule ensures_stage_then [OF first.contract [OF 2]], elim conjE)
    fix fm' s'
    assume p: "take len fm' = take len fm" "len \<le> length fm'" "length fm' < 2 ^ 29" "stage_rel E n s0 s'"
    show "ensures (stage2 E len (fm', s'))
      (\<lambda>(r, fm', s'). r = 0 \<and> take len fm' = take len fm \<and> len \<le> length fm' \<and> length fm' < 2 ^ 29 \<and> stage_rel E n s0 s')"
      by (rule ensures_weaken [OF second.contract [OF p(4) 2(2) p(2,3)]]) (use p(1) in auto)
  qed
qed

text \<open>Stages that leave the whole buffer as it was, and the bit flip stages.\<close>

lemma restoring_stage:
  assumes "\<And>E n s0 s len fm. stage_rel E n s0 s \<Longrightarrow>
    ensures (stage E len (fm, s)) (\<lambda>(r, fm', s'). r = 0 \<and> fm' = fm \<and> stage_rel E n s0 s')"
  shows "fuzz_stage stage"
  by unfold_locales (erule ensures_weaken [OF assms], auto)+

lemma flip_stage:
  assumes "flipstep dvd flipnum" and "flipstep dvd 8" and "0 < flipstep"
  shows "fuzz_stage (\<lambda>E len. BitFlip E q len flipnum flipstep)"
proof (unfold_locales, goal_cases)
  case (1 E n s0 s len fm)
  then show ?case by (rule BitFlip_rel)
next
  case (2 E n s0 s len fm)
  show ?case by (rule ensures_weaken [OF BitFlip_stage [OF 2(1,3,4) assms]]) (use 2 in auto)
qed

interpretation flip_1_1: fuzz_stage "\<lambda>E len. BitFlip E q len 1 1" for q
  by (rule flip_stage) simp_all

interpretation flip_2_1: fuzz_stage "\<lambda>E len. BitFlip E q len 2 1" for q
  by (rule flip_stage) simp_all

interpretation flip_4_1: fuzz_stage "\<lambda>E len. BitFlip E q len 4 1" for q
  by (rule flip_stage) simp_all

interpretation flip_8_8: fuzz_stage "\<lambda>E len. BitFlip E q len 8 8" for q
  by (rule flip_stage) simp_all

interpretation flip_16_8: fuzz_stage "\<lambda>E len. BitFlip E q len 16 8" for q
  by (rule flip_stage) simp_all

interpretation flip_32_8: fuzz_stage "\<lambda>E len. BitFlip E q len 32 8" for q
  by (rule flip_stage) simp_all

interpretation arithmetic8: fuzz_stage Arithmetic8
  by (rule restoring_stage, unfold Arithmetic8_def, rule word_stage_stage) simp_all

interpretation arithmetic16: fuzz_stage Arithmetic16
  by (rule restoring_stage, unfold Arithmetic16_def, rule word_stage_stage) simp_all

interpretation arithmetic32: fuzz_stage Arithmetic32
  by (rule restoring_stage, unfold Arithmetic32_def, rule word_stage_stage) simp_all

interpretation interesting8: fuzz_stage InterestingReplace8
  by (rule restoring_stage, unfold InterestingReplace8_def, rule word_stage_stage) simp_all

interpretation interesting16: fuzz_stage InterestingReplace16
  by (rule restoring_stage, unfold InterestingReplace16_def, rule word_stage_stage) simp_all

interpretation interesting32: fuzz_stage InterestingReplace32
  by (rule restoring_stage, unfold InterestingReplace32_def, rule word_stage_stage) simp_all

interpretation dictionary: fuzz_stage Dictionary
  by (rule restoring_stage) (rule Dictionary_stage)

end
