(* ===== verification/Guided_Stages.thy ===== *)
theory Guided_Stages
  imports Det_Stages
begin

text \<open>
  The two stages that mutate what is injected instead of the test case: \<open>ErrorListMutate\<close>
  (\<open>FaultInjectionEngin.cpp\<close>) switches one traced fault point after the other, and
  \<open>control_matrix_mutate\<close> (\<open>DelayInsertionEngin.cpp\<close>) asks for orders of two functions
  that were seen next to each other but not yet in that order.
\<close>

section \<open>Fault injection\<close>

definition fault_step ::
  "fuzz_env \<Rightarrow> nat \<Rightarrow> u8 list \<Rightarrow> u8 list \<Rightarrow> nat \<Rightarrow> u8 list \<times> fuzzer \<Rightarrow> (nat \<times> u8 list \<times> fuzzer) option" where
  "fault_step E len filemap tmp_trace i = (\<lambda>(error_list, s).
     if show_bit tmp_trace i = 0 then Some (0, error_list, s)
     else
       let error_list = flip_bit error_list i
       in if is_unique_fault (fu_list s) error_list
          then do {
            (r, s) \<leftarrow> FuzzUnit E filemap len (Some error_list) None s;
            if r \<noteq> 0 then Some (1, error_list, s) else Some (0, flip_bit error_list i, s) }
          else Some (0, flip_bit error_list i, s))"

definition ErrorListMutate ::
  "fuzz_env \<Rightarrow> nat \<Rightarrow> u8 list \<Rightarrow> u8 list \<Rightarrow> fuzzer \<Rightarrow> (nat \<times> u8 list \<times> fuzzer) option" where
  "ErrorListMutate E len filemap error_list s =
     do {
       (r, s) \<leftarrow> FuzzUnit E filemap len (Some error_list) None s;
       if r \<noteq> 0 then Some (1, error_list, s)
       else do {
         let tmp_trace = errorTraced s;
         (r, error_list, s) \<leftarrow> stageM (fault_step E len filemap tmp_trace) [0..<length tmp_trace] (error_list, s);
         if r \<noteq> 0 then Some (1, error_list, s)
         else Some (0, error_list, print_result E ''ErrorListMutate'' s)
       }
     }"

section \<open>Delay insertion\<close>

text \<open>
  \<open>new_control_matrix\<close> is cleared by \<open>control_matrix_mutate\<close>, and only its first element is
  ever written; it has as many elements as the control matrix.
\<close>

definition new_control_matrix :: "nat \<Rightarrow> u64 \<Rightarrow> u64 \<Rightarrow> matrix_element list" where
  "new_control_matrix n hash1 hash2 = \<lparr>hash_1 = hash1, hash_2 = hash2\<rparr> # replicate (n - 1) zero_element"

definition one_element_cm_test ::
  "fuzz_env \<Rightarrow> u8 list \<Rightarrow> nat \<Rightarrow> u64 \<Rightarrow> u64 \<Rightarrow> fuzzer \<Rightarrow> (nat \<times> fuzzer) option" where
  "one_element_cm_test E filemap len hash1 hash2 s =
     (let hash_total = hashes2hash hash1 hash2
      in if hash_total \<in> total_travel s then Some (0, s\<lparr>skip_since_travel := Suc (skip_since_travel s)\<rparr>)
         else if hash_total \<in> unreachable_control_matrix s
         then Some (0, s\<lparr>skip_since_unreachable := Suc (skip_since_unreachable s)\<rparr>)
         else do {
           let cm = new_control_matrix (length (control_matrix s)) hash1 hash2;
           (r, s) \<leftarrow> FuzzUnit E filemap len None (Some cm) s;
           if r \<noteq> 0 then Some (1, s)
           else do {
             let s = (if is_control_matrix_triggered cm (travel_matrix s) then s
                      else s\<lparr>unreachable_control_matrix := insert hash_total (unreachable_control_matrix s)\<rparr>);
             let s = s\<lparr>concurrency_test_time := Suc (concurrency_test_time s)\<rparr>;
             Some (0, print_result E ''ConcurrencyFuzzing'' s)
           }
         })"

text \<open>The tests for one element of the matrix and one neighbouring pair.\<close>

definition adjacency_step ::
  "fuzz_env \<Rightarrow> u8 list \<Rightarrow> nat \<Rightarrow> matrix_element \<Rightarrow> matrix_element \<Rightarrow> fuzzer \<Rightarrow> (nat \<times> fuzzer) option" where
  "adjacency_step E filemap len cm am s =
     (let test_if = (\<lambda>b h1 h2 s. if b then one_element_cm_test E filemap len h1 h2 s else Some (0, s))
      in or_else (test_if (hash_1 cm = hash_1 am) (hash_2 cm) (hash_2 am) s)
          (\<lambda>s. or_else (test_if (hash_1 cm = hash_2 am) (hash_2 cm) (hash_1 am) s)
            (\<lambda>s. or_else (test_if (hash_2 cm = hash_1 am) (hash_1 cm) (hash_2 am) s)
              (\<lambda>s. test_if (hash_2 cm = hash_2 am) (hash_1 cm) (hash_1 am) s))))"

definition mutate_based_on_adjacency ::
  "fuzz_env \<Rightarrow> u8 list \<Rightarrow> nat \<Rightarrow> matrix_element list \<Rightarrow> matrix_element list \<Rightarrow> fuzzer \<Rightarrow> (nat \<times> fuzzer) option" where
  "mutate_based_on_adjacency E filemap len matrix tmp_am s =
     stageM (\<lambda>cm. stageM (adjacency_step E filemap len cm) (used_part tmp_am)) (used_part matrix) s"

text \<open>
  The elements of the control matrix that were passed, once for every matching element of the
  travel matrix.  The stopping test mixes the two matrices, as in
  \<open>is_control_matrix_triggered\<close>.
\<close>

fun enabled_elements :: "matrix_element list \<Rightarrow> matrix_element list \<Rightarrow> matrix_element list \<Rightarrow> matrix_element list" where
  "enabled_elements (c # cs) (t # ts) travel =
     (if hash_1 t = 0 \<and> hash_2 c = 0 then []
      else map (\<lambda>_. c) (filter (compare_matrix_element c) (used_part travel)) @ enabled_elements cs ts travel)"
| "enabled_elements _ _ travel = []"

text \<open>
  The enabled elements are stored in an array of the size of the control matrix without a bound
  check; more of them overwrite other memory, which is \<open>None\<close>.
\<close>

definition control_matrix_mutate ::
  "fuzz_env \<Rightarrow> nat \<Rightarrow> u8 list \<Rightarrow> matrix_element list \<Rightarrow> fuzzer \<Rightarrow> (nat \<times> fuzzer) option" where
  "control_matrix_mutate E len filemap tmp_control_matrix s =
     do {
       (r, s) \<leftarrow> FuzzUnit E filemap len None (Some tmp_control_matrix) s;
       if r \<noteq> 0 then Some (1, s)
       else do {
         let s = print_result E ''ConcurrencyFuzzing'' s;
         let tmp_am = adjacency_matrix s;
         let tmp_travel = travel_matrix s;
         let enable = enabled_elements tmp_control_matrix tmp_travel tmp_travel;
         if length enable > length tmp_control_matrix then None
         else or_else (mutate_based_on_adjacency E filemap len enable tmp_am s)
                (mutate_based_on_adjacency E filemap len tmp_travel tmp_am)
       }
     }"

section \<open>The stages keep the relation of the other stages\<close>

lemma ensures_bind_zero:
  assumes "ensures m (\<lambda>(r, s). r = (0 :: nat) \<and> P s)" and "\<And>s. P s \<Longrightarrow> ensures (k 0 s) Q"
  shows "ensures (do { (r, s) \<leftarrow> m; k r s }) Q"
  by (rule ensures_bind_pair [OF assms(1)]) (use assms(2) in simp)

lemma stage_rel_concurrency_fields [simp]:
  "stage_rel E n s (s'\<lparr>skip_since_travel := a\<rparr>) = stage_rel E n s s'"
  "stage_rel E n s (s'\<lparr>skip_since_unreachable := a\<rparr>) = stage_rel E n s s'"
  "stage_rel E n s (s'\<lparr>unreachable_control_matrix := u\<rparr>) = stage_rel E n s s'"
  "stage_rel E n s (s'\<lparr>concurrency_test_time := a\<rparr>) = stage_rel E n s s'"
  by (simp_all add: stage_rel_def fuzz_rel_def maps_ok_def grows_def queue_files_ok_def)

lemma fault_step_stage:
  assumes "stage_rel E n s0 s"
  shows "ensures (fault_step E len fm tr i (el, s)) (\<lambda>(r, el', s'). r = 0 \<and> el' = el \<and> stage_rel E n s0 s')"
  unfolding fault_step_def prod.case Let_def
  by (rule ensures_if ensures_bind_pair [OF FuzzUnit_stage [OF assms]] | (simp add: ensures_Some assms; fail))+

lemma ErrorListMutate_stage:
  assumes "stage_rel E n s0 s"
  shows "ensures (ErrorListMutate E len fm el s) (\<lambda>(r, el', s'). r = 0 \<and> el' = el \<and> stage_rel E n s0 s')"
proof -
  have loop: "ensures (stageM (fault_step E len fm tr) xs (el, s))
      (\<lambda>(r, el', s'). r = 0 \<and> el' = el \<and> stage_rel E n s0 s')" if "stage_rel E n s0 s" for tr xs s
    by (rule ensures_stageM_pair [where I = "\<lambda>el' s. el' = el \<and> stage_rel E n s0 s"])
      (use that fault_step_stage in auto)
  have rest: "ensures (do {
        (r, el', s) \<leftarrow> stageM (fault_step E len fm (errorTraced s)) [0..<length (errorTraced s)] (el, s);
        if r \<noteq> 0 then Some (1, el', s) else Some (0, el', print_result E ''ErrorListMutate'' s) })
      (\<lambda>(r, el', s'). r = 0 \<and> el' = el \<and> stage_rel E n s0 s')" if "stage_rel E n s0 s" for s
    by (rule ensures_bind_triple [OF loop [OF that]]) (auto simp: ensures_Some print_result_stage)
  show ?thesis
    unfolding ErrorListMutate_def Let_def
    by (rule ensures_bind_zero [OF FuzzUnit_stage [OF assms]], rule ensures_if, simp, rule rest)
qed

lemma one_element_cm_test_stage:
  assumes "stage_rel E n s0 s"
  shows "ensures (one_element_cm_test E fm len h1 h2 s) (\<lambda>(r, s'). r = 0 \<and> stage_rel E n s0 s')"
  unfolding one_element_cm_test_def Let_def
  apply (rule ensures_if, simp add: ensures_Some assms)
  apply (rule ensures_if, simp add: ensures_Some assms)
  apply (rule ensures_bind_zero [OF FuzzUnit_stage [OF assms]])
  apply (simp add: ensures_Some print_result_stage)
  done

lemma ensures_stage_if:
  assumes "P s" and "b \<Longrightarrow> ensures m (\<lambda>(r, s'). r = 0 \<and> P s')"
  shows "ensures (if b then m else Some (0 :: nat, s)) (\<lambda>(r, s'). r = 0 \<and> P s')"
  using assms by (simp add: ensures_Some)

lemma adjacency_step_keeps:
  assumes "\<And>h1 h2 s. I s \<Longrightarrow> ensures (one_element_cm_test E fm len h1 h2 s) (\<lambda>(r, s'). r = 0 \<and> I s')" and "I s"
  shows "ensures (adjacency_step E fm len cm am s) (\<lambda>(r, s'). r = 0 \<and> I s')"
proof -
  have test: "ensures (if b then one_element_cm_test E fm len h1 h2 s else Some (0, s)) (\<lambda>(r, s'). r = 0 \<and> I s')"
    if "I s" for b h1 h2 s using ensures_stage_if [OF that assms(1) [OF that]] .
  show ?thesis
    unfolding adjacency_step_def Let_def
    by (intro ensures_or_else [OF test] test assms(2))
qed

lemma mutate_based_on_adjacency_keeps:
  assumes "\<And>h1 h2 s. I s \<Longrightarrow> ensures (one_element_cm_test E fm len h1 h2 s) (\<lambda>(r, s'). r = 0 \<and> I s')" and "I s"
  shows "ensures (mutate_based_on_adjacency E fm len ms am s) (\<lambda>(r, s'). r = 0 \<and> I s')"
  unfolding mutate_based_on_adjacency_def
  by (intro ensures_stageM [where I = I] adjacency_step_keeps [where I = I] assms)

lemma control_matrix_mutate_stage:
  assumes "stage_rel E n s0 s"
  shows "ensures (control_matrix_mutate E len fm cm s) (\<lambda>(r, s'). r = 0 \<and> stage_rel E n s0 s')"
  unfolding control_matrix_mutate_def Let_def
  by (rule ensures_bind_zero [OF FuzzUnit_stage [OF assms]], rule ensures_if, simp)
    (rule ensures_if ensures_None ensures_or_else mutate_based_on_adjacency_keeps [where I = "stage_rel E n s0"]
      one_element_cm_test_stage print_result_stage | assumption)+

section \<open>What fault injection tries\<close>

text \<open>
  The intended test of a fault point: the given list with this point switched, unless it
  contains a combination of faults that crashed before.
\<close>

definition switch_test :: "fuzz_env \<Rightarrow> nat \<Rightarrow> u8 list \<Rightarrow> u8 list \<Rightarrow> nat \<Rightarrow> fuzzer \<Rightarrow> (nat \<times> fuzzer) option" where
  "switch_test E len fm el i s =
     (if is_unique_fault (fu_list s) (flip_bit el i) then FuzzUnit E fm len (Some (flip_bit el i)) None s else Some (0, s))"

definition ErrorListMutate_spec :: "fuzz_env \<Rightarrow> nat \<Rightarrow> u8 list \<Rightarrow> u8 list \<Rightarrow> fuzzer \<Rightarrow> (nat \<times> fuzzer) option" where
  "ErrorListMutate_spec E len fm el s =
     do {
       (_, s) \<leftarrow> FuzzUnit E fm len (Some el) None s;
       (_, s) \<leftarrow> stageM (switch_test E len fm el) (filter (\<lambda>i. errorTraced s ! i \<noteq> 0) [0..<length (errorTraced s)]) s;
       Some (0, print_result E ''ErrorListMutate'' s)
     }"

lemma FuzzUnit_zero:
  assumes "maps_ok n s" and "FuzzUnit E fm len el cm s = Some (r, s')"
  shows "r = 0" "maps_ok n s'"
  using ensuresD [OF FuzzUnit_ens [OF fuzz_rel_refl [OF assms(1)]] assms(2)] by (simp_all add: fuzz_rel_def)

lemma fault_steps_switch:
  assumes "maps_ok n s"
  shows "stageM (fault_step E len fm tr) xs (el, s) =
    map_option (\<lambda>(r, s'). (r, el, s')) (stageM (switch_test E len fm el) (filter (\<lambda>i. tr ! i \<noteq> 0) xs) s) \<and>
    (\<forall>r s'. stageM (switch_test E len fm el) (filter (\<lambda>i. tr ! i \<noteq> 0) xs) s = Some (r, s') \<longrightarrow> r = 0)"
  using assms
proof (induction xs arbitrary: s)
  case Nil
  then show ?case by simp
next
  case (Cons i xs)
  show ?case
  proof (cases "tr ! i \<noteq> 0 \<and> is_unique_fault (fu_list s) (flip_bit el i)")
    case True
    show ?thesis
    proof (cases "FuzzUnit E fm len (Some (flip_bit el i)) None s")
      case None
      then show ?thesis using True by (simp add: fault_step_def switch_test_def show_bit_def)
    next
      case (Some x)
      obtain r s' where x: "x = (r, s')" by fastforce
      have "r = 0" "maps_ok n s'" using FuzzUnit_zero [OF Cons.prems] Some x by blast+
      then show ?thesis using True Some x Cons.IH [of s'] by (simp add: fault_step_def switch_test_def show_bit_def)
    qed
  qed (use Cons.IH [OF Cons.prems] in \<open>auto simp: fault_step_def switch_test_def show_bit_def\<close>)
qed

text \<open>
  C23: fault injection runs the test case with the given error list and then with each traced
  fault point switched on its own, except where that contains a combination of faults that
  already crashed.  Switching the points in place and back makes no difference, and the error
  list is the same afterwards.
\<close>

theorem ErrorListMutate_refines_spec:
  assumes "maps_ok n s"
  shows "ErrorListMutate E len fm el s = map_option (\<lambda>(r, s'). (r, el, s')) (ErrorListMutate_spec E len fm el s)"
proof (cases "FuzzUnit E fm len (Some el) None s")
  case None
  then show ?thesis by (simp add: ErrorListMutate_def ErrorListMutate_spec_def)
next
  case (Some x)
  obtain r s1 where x: "x = (r, s1)" by fastforce
  have r: "r = 0" "maps_ok n s1" using FuzzUnit_zero [OF assms] Some x by blast+
  let ?m = "stageM (switch_test E len fm el) (filter (\<lambda>i. errorTraced s1 ! i \<noteq> 0) [0..<length (errorTraced s1)]) s1"
  have loop: "stageM (fault_step E len fm (errorTraced s1)) [0..<length (errorTraced s1)] (el, s1) =
      map_option (\<lambda>(r, s'). (r, el, s')) ?m" "\<And>r s'. ?m = Some (r, s') \<Longrightarrow> r = 0"
    using fault_steps_switch [OF r(2)] by blast+
  then show ?thesis
    using Some x r(1) by (cases ?m) (auto simp: ErrorListMutate_def ErrorListMutate_spec_def)
qed

theorem ErrorListMutate_refines_spec_witness:
  "ErrorListMutate plain_env 2 [1, 2] [] one_seed =
    map_option (\<lambda>(r, s'). (r, [], s')) (ErrorListMutate_spec plain_env 2 [1, 2] [] one_seed)"
  by (rule ErrorListMutate_refines_spec [where n = 8]) (simp add: maps_ok_def one_seed_def initial_fuzzer_def)

section \<open>What delay insertion tries\<close>

text \<open>
  The pairs of functions that are settled: their order was seen in some run, or a run that
  asked for it did not pass it.
\<close>

definition settled :: "fuzzer \<Rightarrow> u64 set" where
  "settled s = total_travel s \<union> unreachable_control_matrix s"

text \<open>
  With the hang timeout not above the execution timeout a hanging test case is not run a second
  time, so the travel matrix after a unit is the one that was examined.
\<close>

definition travels :: "matrix_element list \<Rightarrow> u64 set \<Rightarrow> u64 set \<Rightarrow> fuzzer \<Rightarrow> bool" where
  "travels tm tt um s \<longleftrightarrow>
     travel_matrix s = tm \<and> total_travel s = tt \<and> unreachable_control_matrix s = um \<and> hang_tmout s \<le> exec_tmout s"

lemma travels_fields [simp]:
  "travels tm tt um (s\<lparr>clock := c\<rparr>) = travels tm tt um s"
  "travels tm tt um (s\<lparr>files := fs\<rparr>) = travels tm tt um s"
  "travels tm tt um (s\<lparr>queue := q\<rparr>) = travels tm tt um s"
  "travels tm tt um (s\<lparr>plot := p\<rparr>) = travels tm tt um s"
  "travels tm tt um (s\<lparr>fu_list := f\<rparr>) = travels tm tt um s"
  "travels tm tt um (s\<lparr>crashTrace := b\<rparr>) = travels tm tt um s"
  "travels tm tt um (s\<lparr>timeoutTrace := b\<rparr>) = travels tm tt um s"
  "travels tm tt um (s\<lparr>unique_crash_count := a\<rparr>) = travels tm tt um s"
  "travels tm tt um (s\<lparr>unique_hang_count := a\<rparr>) = travels tm tt um s"
  "travels tm tt um (s\<lparr>total_crash_count := a\<rparr>) = travels tm tt um s"
  "travels tm tt um (s\<lparr>total_timeout_count := a\<rparr>) = travels tm tt um s"
  "travels tm tt um (s\<lparr>unique_ex_hang_count := a\<rparr>) = travels tm tt um s"
  "travels tm tt um (s\<lparr>total_ex_timeout_count := a\<rparr>) = travels tm tt um s"
  "travels tm tt um (s\<lparr>unique_ex_crash_count := a\<rparr>) = travels tm tt um s"
  "travels tm tt um (s\<lparr>usefule_input := a\<rparr>) = travels tm tt um s"
  "travels tm tt um (s\<lparr>useful_error_seq := a\<rparr>) = travels tm tt um s"
  "travels tm tt um (print_result E st s) = travels tm tt um s"
  by (simp_all add: travels_def print_result_def GetTimeStr_def GetCurTimeUs_def Let_def)

named_theorems travel_rules \<open>operations that keep the travel records\<close>

lemmas [travel_rules] = ensures_Some ensures_None ensures_if ensures_case_option ensures_Let
  ensures_case_prod num2str_ens

lemma WriteMem2File_travels [travel_rules]:
  "travels tm tt um s \<Longrightarrow> ensures (WriteMem2File E f mem len s) (travels tm tt um)"
  by (rule ensuresI) (auto simp: WriteMem2File_Some)

lemma crash_handler_travels [travel_rules]:
  "travels tm tt um s \<Longrightarrow> ensures (crash_handler E keeping mem len s) (\<lambda>(k, s'). travels tm tt um s')"
  unfolding crash_handler_def GetCurTimeUs_def by (rule ens_binds travel_rules | simp)+

lemma ex_crash_handler_travels [travel_rules]:
  "travels tm tt um s \<Longrightarrow> ensures (ex_crash_handler E keeping mem len s) (\<lambda>(k, s'). travels tm tt um s')"
  unfolding ex_crash_handler_def GetCurTimeUs_def save_crashed_fu_def by (rule ens_binds travel_rules | simp)+

lemma no_second_run:
  assumes "travels tm tt um s"
  shows "ensures (if exec_tmout s < hang_tmout s then m else Some (FAULT_TMOUT, s)) (\<lambda>(st, s'). travels tm tt um s')"
  using assms by (simp add: travels_def ensures_Some)

lemma hang_handler_travels [travel_rules]:
  assumes "travels tm tt um s"
  shows "ensures (hang_handler E keeping mem len s) (\<lambda>(k, s'). travels tm tt um s')"
  unfolding hang_handler_def GetCurTimeUs_def Let_def
  by (rule ensures_if, simp add: ensures_Some assms, rule ensures_bind_pair [OF no_second_run [of tm tt um]], simp add: assms)
    (rule ens_binds travel_rules | simp)+

lemma ex_hang_handler_travels [travel_rules]:
  assumes "travels tm tt um s"
  shows "ensures (ex_hang_handler E keeping mem len s) (\<lambda>(k, s'). travels tm tt um s')"
  unfolding ex_hang_handler_def GetCurTimeUs_def Let_def
  by (rule ensures_if, simp add: ensures_Some assms, rule ensures_bind_pair [OF no_second_run [of tm tt um]], simp add: assms)
    (rule ens_binds travel_rules | simp)+

lemma keep_seed_travels [travel_rules]:
  assumes "travels tm tt um s"
  shows "ensures (keep_seed E mem len nb ef cf s) (travels tm tt um)"
proof (rule ensuresI)
  fix s' assume "keep_seed E mem len nb ef cf s = Some s'"
  then obtain fs a b q where "s' = s\<lparr>files := fs, useful_error_seq := a, usefule_input := b, queue := q\<rparr>"
    using keep_seed_spec [of E mem len nb ef cf s s'] by blast
  then show "travels tm tt um s'" using assms by simp
qed

lemma AddInterestingSeed_travels:
  assumes "\<not> NO_CONCURRENCY_FUZZ E" and "travels tm tt um s"
  shows "ensures (AddInterestingSeed E mem len st s) (\<lambda>(k, s'). travels tm (tt \<union> travel_hashes tm) um s')"
proof -
  obtain nb s1 where nv: "novelty_verdict E s = (nb, s1)" by fastforce
  obtain nt s2 where tv: "travel_verdict E s1 = (nt, s2)" by fastforce
  have "travels tm tt um s1"
    using assms(2) nv by (auto simp: novelty_verdict_def travels_def Let_def case_prod_beta)
  then have s2: "travels tm (tt \<union> travel_hashes tm) um s2"
    using assms(1) tv by (auto simp: travel_verdict_def travels_def has_new_travel_matrix_element_eq)
  have "ensures (if nb \<noteq> 0 \<or> nt
      then do { s \<leftarrow> keep_seed E mem len nb (errors_flag E s2) (control_flag E s2) s2; Some (True, s) }
      else Some (False, s2)) (\<lambda>(k, s'). travels tm (tt \<union> travel_hashes tm) um s')"
    using s2 by (auto intro!: ensures_if ensures_bind [OF keep_seed_travels [OF s2]] ensures_Some)
  then show ?thesis
    unfolding AddInterestingSeed_def nv Let_def prod.case tv
    by (rule ensures_bind_pair) (rule travel_rules ensures_case_fault | simp)+
qed

text \<open>Everything before the verdict on the seed.\<close>

definition travel_past :: "fuzzer \<Rightarrow> fuzzer \<Rightarrow> bool" where
  "travel_past s s' \<longleftrightarrow> total_travel s' = total_travel s \<and>
     unreachable_control_matrix s' = unreachable_control_matrix s \<and> hang_tmout s' = hang_tmout s \<and> exec_tmout s' = exec_tmout s"

lemma FuzzUnit_travels:
  assumes "\<not> NO_CONCURRENCY_FUZZ E" and "hang_tmout s \<le> exec_tmout s"
    and "FuzzUnit E fm len el cm s = Some (r, s')"
  shows "travels (travel_matrix s') (total_travel s \<union> travel_hashes (travel_matrix s')) (unreachable_control_matrix s) s'"
proof -
  from assms(3) obtain s1 s2 s3 st s4 k s5 where run: "sync_instances E s = Some s1"
    "(case el of Some el \<Rightarrow> do {
        xs \<leftarrow> mem_read 0 (length (errorList s1)) el;
        Some (s1\<lparr>total_error_seq := inc64 (total_error_seq s1), errorList := xs\<rparr>) }
      | None \<Rightarrow> Some (s1\<lparr>total_input := inc64 (total_input s1)\<rparr>)) = Some s2"
    "WriteToTestcase E fm len (case cm of Some cm \<Rightarrow> if NO_CONCURRENCY_FUZZ E then s2 else s2\<lparr>control_matrix := cm\<rparr> | None \<Rightarrow> s2) = Some s3"
    "ExecuteCase E (exec_tmout s3) s3 = Some (st, s4)"
    "AddInterestingSeed E fm (to_u32 len) st s4 = Some (k, s5)" "s' = print_result E ''temp stage'' s5"
    unfolding FuzzUnit_def Let_def by (auto simp: bind_eq_Some_conv)
  have "travel_past s s1"
    using run(1) by (auto simp: sync_instances_def sync_now_def travel_past_def Let_def bind_eq_Some_conv split: if_splits)
  then have "travel_past s s2"
    using run(2) by (auto simp: travel_past_def bind_eq_Some_conv split: option.splits)
  then have "travel_past s s3"
    using run(3) by (auto simp: WriteToTestcase_def travel_past_def bind_eq_Some_conv split: option.splits if_splits)
  moreover obtain x where "s4 = after_run x (reset_before_run E s3)"
    using run(4) by (auto simp: ExecuteCase_def Let_def bind_eq_Some_conv)
  ultimately have "travel_past s s4"
    by (simp add: reset_before_run_def after_run_def travel_past_def Let_def)
  then have "travels (travel_matrix s4) (total_travel s) (unreachable_control_matrix s) s4"
    using assms(2) by (simp add: travels_def travel_past_def)
  from ensuresD [OF AddInterestingSeed_travels [OF assms(1) this] run(5)]
  show ?thesis unfolding run(6) by (simp add: travels_def print_result_def GetTimeStr_def GetCurTimeUs_def Let_def)
qed

lemma triggered_element:
  "control_triggered_loop cs ts travel \<Longrightarrow> \<exists>c \<in> set cs. \<exists>t \<in> set (used_part travel). compare_matrix_element c t"
  by (induction cs ts travel rule: control_triggered_loop.induct) (auto simp: list_ex_iff split: if_splits)

lemma new_control_matrix_triggered:
  assumes "is_control_matrix_triggered (new_control_matrix k h1 h2) travel"
  shows "hashes2hash h1 h2 \<in> travel_hashes travel"
proof -
  obtain c t where c: "c \<in> set (new_control_matrix k h1 h2)" and t: "t \<in> set (used_part travel)" "compare_matrix_element c t"
    using triggered_element [of "new_control_matrix k h1 h2" travel travel] assms
    by (auto simp: is_control_matrix_triggered_def)
  have "\<not> is_zero_element t" using t(1) by (auto simp: used_part_def dest: set_takeWhileD)
  then have "c \<noteq> zero_element"
    using t(2) by (auto simp: compare_matrix_element_def is_zero_element_def zero_element_def)
  then have "c = \<lparr>hash_1 = h1, hash_2 = h2\<rparr>" using c by (auto simp: new_control_matrix_def)
  then show ?thesis using hashes2hash_symmetric [OF t(2)] t(1) by (auto simp: travel_hashes_def)
qed

definition runs_once :: "nat \<Rightarrow> fuzzer \<Rightarrow> bool" where
  "runs_once n s \<longleftrightarrow> maps_ok n s \<and> hang_tmout s \<le> exec_tmout s"

lemma maps_ok_concurrency [simp]:
  "maps_ok n (s\<lparr>skip_since_travel := a\<rparr>) = maps_ok n s" "maps_ok n (s\<lparr>skip_since_unreachable := a\<rparr>) = maps_ok n s"
  "maps_ok n (s\<lparr>unreachable_control_matrix := u\<rparr>) = maps_ok n s" "maps_ok n (s\<lparr>concurrency_test_time := a\<rparr>) = maps_ok n s"
  by (simp_all add: maps_ok_def)

lemma print_result_concurrency [simp]:
  "maps_ok n (print_result E st s) = maps_ok n s" "hang_tmout (print_result E st s) = hang_tmout s"
  "exec_tmout (print_result E st s) = exec_tmout s" "total_travel (print_result E st s) = total_travel s"
  "unreachable_control_matrix (print_result E st s) = unreachable_control_matrix s"
  "travel_matrix (print_result E st s) = travel_matrix s" "adjacency_matrix (print_result E st s) = adjacency_matrix s"
  by (simp_all add: print_result_def GetTimeStr_def GetCurTimeUs_def Let_def maps_ok_def)

lemma FuzzUnit_runs_once:
  assumes "\<not> NO_CONCURRENCY_FUZZ E" and "runs_once n s"
  shows "ensures (FuzzUnit E fm len el cm s) (\<lambda>(r, s'). r = 0 \<and> runs_once n s' \<and>
    total_travel s' = total_travel s \<union> travel_hashes (travel_matrix s') \<and>
    unreachable_control_matrix s' = unreachable_control_matrix s)"
proof (rule ensuresI, clarify)
  fix r s' assume run: "FuzzUnit E fm len el cm s = Some (r, s')"
  show "r = 0 \<and> runs_once n s' \<and> total_travel s' = total_travel s \<union> travel_hashes (travel_matrix s') \<and>
    unreachable_control_matrix s' = unreachable_control_matrix s"
    using FuzzUnit_travels [OF assms(1) _ run] FuzzUnit_zero [OF _ run, of n] assms(2)
    by (simp add: runs_once_def travels_def)
qed

lemma one_element_settles:
  assumes "\<not> NO_CONCURRENCY_FUZZ E" and "runs_once n s"
  shows "ensures (one_element_cm_test E fm len h1 h2 s)
    (\<lambda>(r, s'). r = 0 \<and> runs_once n s' \<and> settled s \<union> {hashes2hash h1 h2} \<subseteq> settled s')"
proof (rule ensuresI, clarify)
  fix r s' assume run: "one_element_cm_test E fm len h1 h2 s = Some (r, s')"
  let ?h = "hashes2hash h1 h2" and ?cm = "new_control_matrix (length (control_matrix s)) h1 h2"
  show "r = 0 \<and> runs_once n s' \<and> settled s \<union> {?h} \<subseteq> settled s'"
  proof (cases "?h \<in> settled s")
    case True
    then show ?thesis
      using run assms(2) by (auto simp: one_element_cm_test_def settled_def runs_once_def Let_def split: if_splits)
  next
    case False
    then obtain r1 s1 where u: "FuzzUnit E fm len None (Some ?cm) s = Some (r1, s1)"
      using run by (auto simp: one_element_cm_test_def settled_def Let_def bind_eq_Some_conv split: if_splits)
    note s1 = ensuresD [OF FuzzUnit_runs_once [OF assms] u]
    have "?h \<in> total_travel s1" if "is_control_matrix_triggered ?cm (travel_matrix s1)"
      using new_control_matrix_triggered [OF that] s1 by simp
    then show ?thesis
      using run u s1 False by (auto simp: one_element_cm_test_def settled_def runs_once_def Let_def split: if_splits)
  qed
qed

text \<open>The orders that a passed element and a neighbouring pair with a common function suggest.\<close>

definition suggested :: "matrix_element \<Rightarrow> matrix_element \<Rightarrow> u64 set" where
  "suggested cm am =
     (if hash_1 cm = hash_1 am then {hashes2hash (hash_2 cm) (hash_2 am)} else {}) \<union>
     (if hash_1 cm = hash_2 am then {hashes2hash (hash_2 cm) (hash_1 am)} else {}) \<union>
     (if hash_2 cm = hash_1 am then {hashes2hash (hash_1 cm) (hash_2 am)} else {}) \<union>
     (if hash_2 cm = hash_2 am then {hashes2hash (hash_1 cm) (hash_1 am)} else {})"

definition settles :: "nat \<Rightarrow> u64 set \<Rightarrow> (nat \<times> fuzzer) option \<Rightarrow> bool" where
  "settles n H m \<longleftrightarrow> ensures m (\<lambda>(r, s'). r = 0 \<and> runs_once n s' \<and> H \<subseteq> settled s')"

lemma settles_weaken: "settles n H m \<Longrightarrow> H' \<subseteq> H \<Longrightarrow> settles n H' m"
  unfolding settles_def by (erule ensures_weaken) auto

lemma settles_or_else:
  assumes "settles n (S \<union> A) m" and "\<And>s. runs_once n s \<Longrightarrow> settles n (settled s \<union> H) (k s)"
  shows "settles n (S \<union> (A \<union> H)) (or_else m k)"
  unfolding settles_def
  by (rule ensures_or_else, rule assms(1) [unfolded settles_def], elim conjE)
    (erule ensures_weaken [OF assms(2) [unfolded settles_def]], auto)

lemma settles_stageM:
  assumes "\<And>x s. runs_once n s \<Longrightarrow> settles n (settled s \<union> A x) (f x s)" and "runs_once n s"
  shows "settles n (settled s \<union> (\<Union>x \<in> set xs. A x)) (stageM f xs s)"
  using assms(2)
proof (induction xs arbitrary: s)
  case Nil
  then show ?case by (simp add: settles_def ensures_Some)
next
  case (Cons x xs)
  have "settles n (settled s \<union> (A x \<union> (\<Union>x \<in> set xs. A x))) (or_else (f x s) (stageM f xs))"
    by (rule settles_or_else [OF assms(1) [OF Cons.prems] Cons.IH])
  then show ?case by (simp add: or_else_def)
qed

lemma adjacency_step_settles:
  assumes "\<not> NO_CONCURRENCY_FUZZ E" and "runs_once n s"
  shows "settles n (settled s \<union> suggested cm am) (adjacency_step E fm len cm am s)"
proof -
  have test: "settles n (settled s \<union> (if b then {hashes2hash h1 h2} else {}))
      (if b then one_element_cm_test E fm len h1 h2 s else Some (0, s))" if "runs_once n s" for b h1 h2 s
    using one_element_settles [OF assms(1) that] that by (cases b) (simp_all add: settles_def ensures_Some)
  show ?thesis
    unfolding adjacency_step_def suggested_def Let_def Un_assoc
    by (rule settles_or_else test assms(2) | assumption)+
qed

lemma mutate_settles:
  assumes "\<not> NO_CONCURRENCY_FUZZ E" and "runs_once n s"
  shows "settles n (settled s \<union> (\<Union>c \<in> set (used_part ms). \<Union>a \<in> set (used_part am). suggested c a))
    (mutate_based_on_adjacency E fm len ms am s)"
  unfolding mutate_based_on_adjacency_def
  by (intro settles_stageM adjacency_step_settles assms)

text \<open>
  C22: delay insertion is thorough.  After \<open>control_matrix_mutate\<close>, every order that an element
  passed by the first run and a neighbouring pair of that run suggest is settled: either some
  run showed it, or a run that asked for it did not pass it.  No such order is asked for again.
\<close>

theorem control_matrix_mutate_settles:
  assumes "\<not> NO_CONCURRENCY_FUZZ E" and "maps_ok n s" and "hang_tmout s \<le> exec_tmout s"
    and "control_matrix_mutate E len fm cm s = Some (r, s')"
  shows "r = 0 \<and> (\<exists>s1. FuzzUnit E fm len None (Some cm) s = Some (0, s1) \<and>
    (\<forall>c \<in> set (used_part (travel_matrix s1)). \<forall>a \<in> set (used_part (adjacency_matrix s1)). suggested c a \<subseteq> settled s'))"
proof -
  obtain r1 s1 where u: "FuzzUnit E fm len None (Some cm) s = Some (r1, s1)"
    using assms(4) by (auto simp: control_matrix_mutate_def bind_eq_Some_conv)
  have s1: "r1 = 0" "runs_once n s1"
    using ensuresD [OF FuzzUnit_runs_once [OF assms(1)] u] assms(2,3) by (simp_all add: runs_once_def)
  let ?s = "print_result E ''ConcurrencyFuzzing'' s1" and ?H = "\<Union>c \<in> set (used_part (travel_matrix s1)).
    \<Union>a \<in> set (used_part (adjacency_matrix s1)). suggested c a"
  let ?m = "\<lambda>ms. mutate_based_on_adjacency E fm len ms (adjacency_matrix s1)"
  have ok: "runs_once n ?s" using s1(2) by (simp add: runs_once_def)
  define enable where "enable = enabled_elements cm (travel_matrix s1) (travel_matrix s1)"
  have "or_else (?m enable ?s) (?m (travel_matrix s1)) = Some (r, s')"
    using assms(4) u s1(1) by (simp add: control_matrix_mutate_def enable_def Let_def split: if_splits)
  moreover have "settles n ({} \<union> ({} \<union> ?H)) (or_else (?m enable ?s) (?m (travel_matrix s1)))"
    by (rule settles_or_else [OF settles_weaken [OF mutate_settles [OF assms(1) ok]]])
      (simp, rule mutate_settles [OF assms(1)])
  ultimately have "r = 0 \<and> ?H \<subseteq> settled s'" by (auto simp: settles_def dest: ensuresD)
  then show ?thesis using u s1(1) by blast
qed

theorem control_matrix_mutate_settles_witness:
  "\<exists>r s'. control_matrix_mutate (plain_env\<lparr>NO_CONCURRENCY_FUZZ := False\<rparr>) 2 [1, 2] [] one_seed = Some (r, s') \<and> r = 0"
proof -
  let ?E = "plain_env\<lparr>NO_CONCURRENCY_FUZZ := False\<rparr>"
  have "has_new_bits (replicate 8 0) (replicate 8 255) = (0, replicate 8 255)"
    by (simp add: has_new_bits_bytewise novelty_def virgin_after_def zip_replicate)
  moreover have "classify_counts (replicate 8 0) = replicate 8 0"
    by (simp add: classify_counts_map count_class_lookup8_def)
  ultimately have "\<exists>s'. FuzzUnit ?E [1, 2] 2 None (Some []) one_seed = Some (0, s') \<and> travel_matrix s' = []"
    by (simp add: FuzzUnit_def plain_env_def quiet_run_def one_seed_def initial_fuzzer_def sync_instances_def
        WriteToTestcase_def mem_read_def ExecuteCase_def reset_before_run_def run_verdict_def after_run_def
        apply_stores_def AddInterestingSeed_def novelty_verdict_def travel_verdict_def errors_flag_def
        control_flag_def has_new_travel_matrix_element_eq travel_hashes_def used_part_def)
  then obtain r s' where run: "control_matrix_mutate ?E 2 [1, 2] [] one_seed = Some (r, s')"
    by (auto simp: control_matrix_mutate_def mutate_based_on_adjacency_def used_part_def or_else_def)
  have "maps_ok 8 one_seed" "hang_tmout one_seed \<le> exec_tmout one_seed"
    by (simp_all add: maps_ok_def one_seed_def initial_fuzzer_def)
  from control_matrix_mutate_settles [OF _ this run] run show ?thesis by auto
qed

end
