(* ===== verification/Token_Dictionary.thy ===== *)
theory Token_Dictionary
  imports Det_Stages
begin

text \<open>
  The automatic dictionary: the map of tokens stays sorted with tokens of 1 to 32 bytes, a
  token's count is what was counted, \<open>Dictionary\<close> chooses at most 50 of the most frequent
  tokens, and \<open>DictionaryInsert\<close> runs exactly the insertions of the chosen tokens.
\<close>

section \<open>The map of tokens\<close>

lemma bytes_less_irrefl [simp]: "\<not> bytes_less xs xs"
  by (induction xs) auto

lemma bytes_less_trans: "bytes_less xs ys \<Longrightarrow> bytes_less ys zs \<Longrightarrow> bytes_less xs zs"
proof (induction xs ys arbitrary: zs rule: bytes_less.induct)
  case (2 y ys)
  then show ?case by (cases zs) auto
next
  case (3 x xs y ys)
  then show ?case by (cases zs) auto
qed simp

lemma bytes_less_total: "xs = ys \<or> bytes_less xs ys \<or> bytes_less ys xs"
proof (induction xs ys rule: bytes_less.induct)
  case (1 xs)
  then show ?case by (cases xs) auto
next
  case (3 x xs y ys)
  then show ?case using less_linear [of x y] by auto
qed simp

definition tokens_ok :: "(u8 list \<times> nat) list \<Rightarrow> bool" where
  "tokens_ok m \<longleftrightarrow> sorted_wrt bytes_less (map fst m) \<and>
     (\<forall>(t, _) \<in> set m. MIN_TOKEN_SIZE \<le> length t \<and> length t \<le> MAX_TOKEN_SIZE)"

lemma count_token_keys: "set (map fst (count_token t m)) = insert t (set (map fst m))"
  by (induction t m rule: count_token.induct) auto

lemma count_token_sorted:
  assumes "sorted_wrt bytes_less (map fst m)"
  shows "sorted_wrt bytes_less (map fst (count_token t m))"
  using assms
proof (induction t m rule: count_token.induct)
  case (2 t k n m)
  have "\<forall>k' \<in> set (map fst (count_token t m)). bytes_less k k'" if "t \<noteq> k" "\<not> bytes_less t k"
    using that "2.prems" bytes_less_total [of t k] unfolding count_token_keys by auto
  then show ?case using 2 by (auto intro: bytes_less_trans)
qed simp

lemma count_token_ok:
  assumes "tokens_ok m" and "MIN_TOKEN_SIZE \<le> length t" and "length t \<le> MAX_TOKEN_SIZE"
  shows "tokens_ok (count_token t m)"
proof -
  have "fst ` set (count_token t m) = insert t (fst ` set m)" using count_token_keys [of t m] by simp
  then have "\<forall>k \<in> fst ` set (count_token t m). MIN_TOKEN_SIZE \<le> length k \<and> length k \<le> MAX_TOKEN_SIZE"
    using assms by (auto simp: tokens_ok_def)
  then show ?thesis
    using count_token_sorted assms(1) by (auto simp: tokens_ok_def)
qed

lemma count_token_lookup:
  assumes "sorted_wrt bytes_less (map fst m)"
  shows "map_of (count_token t m) = (map_of m)(t \<mapsto> (case map_of m t of None \<Rightarrow> 1 | Some n \<Rightarrow> inc32 n))"
  using assms
proof (induction t m rule: count_token.induct)
  case (2 t k n m)
  have "map_of m t = None" if "bytes_less t k"
  proof (rule ccontr)
    assume "map_of m t \<noteq> None"
    then have "t \<in> set (map fst m)" by (force dest: map_of_SomeD)
    then have "bytes_less k t" using "2.prems" by auto
    then show False using that bytes_less_trans [of t k t] by simp
  qed
  then show ?case using 2 by (auto simp: fun_eq_iff split: option.split)
qed (simp add: fun_eq_iff)

section \<open>Collecting tokens\<close>

lemma AddToken_tokens:
  assumes "tokens_ok (autoToken s)" and "MIN_TOKEN_SIZE \<le> length t" and "length t \<le> MAX_TOKEN_SIZE"
  shows "tokens_ok (autoToken (AddToken t s))"
  using assms by (simp add: AddToken_def count_token_ok)

lemma token_step_tokens:
  assumes "tokens_ok (autoToken s)" and "length t \<le> MAX_TOKEN_SIZE"
  shows "ensures (token_step ck k m fm (t, p, s))
    (\<lambda>(t', p', s'). length t' \<le> MAX_TOKEN_SIZE \<and> tokens_ok (autoToken s'))"
  unfolding token_step_def Let_def prod.case
  by (rule ensures_bind [OF ensures_True])
    (use assms in \<open>auto simp: ensures_def AddToken_tokens MIN_TOKEN_SIZE_def MAX_TOKEN_SIZE_def\<close>)

lemma FuzzUnit_tokens:
  assumes "maps_ok n s" and "tokens_ok (autoToken s)"
  shows "ensures (FuzzUnit E fm len el cm s) (\<lambda>(r, s'). r = 0 \<and> maps_ok n s' \<and> tokens_ok (autoToken s'))"
  by (rule ensures_weaken [OF FuzzUnit_ens [OF fuzz_rel_refl [OF assms(1)]]])
    (use assms(2) in \<open>auto simp: fuzz_rel_def grows_def\<close>)

definition flip_inv :: "nat \<Rightarrow> flip_state \<Rightarrow> bool" where
  "flip_inv n = (\<lambda>(fm, t, p, s). maps_ok n s \<and> length t \<le> MAX_TOKEN_SIZE \<and> tokens_ok (autoToken s))"

lemma AddToken_maps [simp]: "maps_ok n (AddToken t s) = maps_ok n s"
  by (simp add: AddToken_def maps_ok_def)

lemma token_step_maps:
  "maps_ok n s \<Longrightarrow> ensures (token_step ck k m fm (t, p, s)) (\<lambda>(t', p', s'). maps_ok n s')"
  unfolding token_step_def Let_def prod.case
  by (rule ensures_bind [OF ensures_True]) (simp add: ensures_def)

lemma ensures_conj: "ensures m P \<Longrightarrow> ensures m Q \<Longrightarrow> ensures m (\<lambda>x. P x \<and> Q x)"
  by (simp add: ensures_def)

lemma mark_useful_inv:
  assumes "maps_ok n s" and "tokens_ok (autoToken s)"
  shows "ensures (mark_useful ck i s) (\<lambda>s'. maps_ok n s' \<and> tokens_ok (autoToken s'))"
  unfolding mark_useful_def
  by (rule ensures_bind [OF ensures_True], rule ensures_if)
    (use assms in \<open>simp_all add: ensures_Some maps_ok_def\<close>)

lemma flip_step_inv:
  assumes "flip_inv n st"
  shows "ensures (flip_step E q len flipnum flipstep m k st) (\<lambda>(r, st'). r = 0 \<and> flip_inv n st')"
proof -
  obtain fm t p s where st: "st = (fm, t, p, s)" by (cases st)
  have inv: "maps_ok n s" "length t \<le> MAX_TOKEN_SIZE" "tokens_ok (autoToken s)"
    using assms by (simp_all add: st flip_inv_def)
  have token: "ensures (token_step ck k m fm (t, p, s))
      (\<lambda>(t', p', s'). maps_ok n s' \<and> length t' \<le> MAX_TOKEN_SIZE \<and> tokens_ok (autoToken s'))"
    if "maps_ok n s" "tokens_ok (autoToken s)" for ck fm s
    by (rule ensures_weaken [OF ensures_conj [OF token_step_maps [OF that(1)] token_step_tokens [OF that(2) inv(2)]]]) auto
  show ?thesis
    unfolding flip_step_def st prod.case
    apply (rule ensures_bind [OF ensures_True], rule ensures_if)
     apply (simp add: ensures_Some flip_inv_def inv)
    apply (rule ensures_bind [OF ensures_True], rule ensures_bind_pair [OF FuzzUnit_tokens [OF inv(1,3)]])
    apply (elim conjE)
    apply simp
    apply (rule ensures_bind [OF ensures_True])
    apply (rule ensures_if ensures_bind_triple [OF token] ensures_bind [OF mark_useful_inv] | assumption |
        (simp add: ensures_Some flip_inv_def inv; fail))+
    done
qed

text \<open>
  C19: the automatic dictionary stays well formed: its tokens are sorted without duplicates,
  as \<open>std::map\<close> keeps them, and have between 1 and 32 bytes.  The dictionary stages rely on
  the bound, because they copy tokens into buffers with 32 spare bytes.
\<close>

theorem BitFlip_keeps_dictionary:
  assumes "maps_ok n s" and "tokens_ok (autoToken s)"
    and "BitFlip E q len flipnum flipstep (fm, s) = Some (r, fm', s')"
  shows "r = 0 \<and> tokens_ok (autoToken s')"
proof -
  let ?m = "8 * len - (flipnum - flipstep)"
  have start: "flip_inv n (fm, [], cksum (queue s ! q), s)" using assms(1,2) by (simp add: flip_inv_def)
  have "ensures (BitFlip E q len flipnum flipstep (fm, s)) (\<lambda>(r, fm', s'). r = 0 \<and> tokens_ok (autoToken s'))"
    unfolding BitFlip_def prod.case Let_def
    apply (rule ensures_if)
     apply (simp add: ensures_Some assms(2))
    apply (rule ensures_bind [OF ensures_stageM [OF flip_step_inv start]], assumption)
    subgoal for x by (cases x rule: prod_cases5)
        (simp add: ensures_Some flip_inv_def print_result_def GetTimeStr_def GetCurTimeUs_def Let_def)
    done
  from ensuresD [OF this assms(3)] show ?thesis by simp
qed

lemma one_flip_unit:
  "\<exists>s'. FuzzUnit plain_env [254] 1 None None (one_seed\<lparr>useful_byte := [False]\<rparr>) = Some (0, s') \<and> useful_byte s' = [False]"
proof -
  have "has_new_bits (replicate 8 0) (replicate 8 255) = (0, replicate 8 255)"
    by (simp add: has_new_bits_bytewise novelty_def virgin_after_def zip_replicate)
  moreover have "classify_counts (replicate 8 0) = replicate 8 0"
    by (simp add: classify_counts_map count_class_lookup8_def)
  moreover have "useful_byte (print_result E n s) = useful_byte s" for E n s
    by (simp add: print_result_def GetTimeStr_def GetCurTimeUs_def Let_def)
  ultimately show ?thesis
    by (simp add: FuzzUnit_def plain_env_def quiet_run_def one_seed_def initial_fuzzer_def sync_instances_def
        WriteToTestcase_def mem_read_def ExecuteCase_def reset_before_run_def run_verdict_def after_run_def
        apply_stores_def AddInterestingSeed_def novelty_verdict_def travel_verdict_def errors_flag_def
        control_flag_def)
qed

lemma one_flip_returns:
  "\<exists>r fm' s'. BitFlip plain_env 0 1 8 8 ([1], one_seed\<lparr>useful_byte := [False]\<rparr>) = Some (r, fm', s')"
proof -
  obtain s' where "FuzzUnit plain_env [254] 1 None None (one_seed\<lparr>useful_byte := [False]\<rparr>) = Some (0, s')"
    "useful_byte s' = [False]" using one_flip_unit by blast
  moreover have "stage_positions 8 8 = [0]" by (simp add: stage_positions_def upt_rec)
  moreover have "flip_bits 8 0 [1] = Some [254]" "flip_bits 8 0 [254] = Some [1]"
    by (simp_all add: flip_bits_def FLIP_BIT_def get_byte_def set_byte_def to_u32_def upt_rec Let_def)
  ultimately show ?thesis by (simp add: BitFlip_def flip_step_def get_byte_def mark_useful_def)
qed

theorem BitFlip_keeps_dictionary_witness:
  "\<exists>r fm' s'. BitFlip plain_env 0 1 8 8 ([1], one_seed\<lparr>useful_byte := [False]\<rparr>) = Some (r, fm', s') \<and>
    r = 0 \<and> tokens_ok (autoToken s')"
proof -
  obtain r fm' s' where run: "BitFlip plain_env 0 1 8 8 ([1], one_seed\<lparr>useful_byte := [False]\<rparr>) = Some (r, fm', s')"
    using one_flip_returns by blast
  have "maps_ok 8 (one_seed\<lparr>useful_byte := [False]\<rparr>)" "tokens_ok (autoToken (one_seed\<lparr>useful_byte := [False]\<rparr>))"
    by (simp_all add: maps_ok_def tokens_ok_def one_seed_def initial_fuzzer_def)
  from BitFlip_keeps_dictionary [OF this run] run show ?thesis by blast
qed

section \<open>Choosing tokens\<close>

text \<open>
  What the C++ standard says of \<open>std::sort\<close>: the result is a permutation of its input in
  which no element comes after one that it precedes in the comparison.
\<close>

locale std_sorting =
  fixes sort_by :: "'a list \<Rightarrow> 'a list" and before :: "'a \<Rightarrow> 'a \<Rightarrow> bool"
  assumes sort_by_mset: "mset (sort_by xs) = mset xs"
    and sort_by_sorted: "sorted_wrt (\<lambda>a b. \<not> before b a) (sort_by xs)"
begin

lemma sort_by_set: "set (sort_by xs) = set xs"
  by (metis sort_by_mset set_mset_mset)

lemma sort_by_length: "length (sort_by xs) = length xs"
  by (metis sort_by_mset size_mset)

lemma sort_by_distinct: "distinct (sort_by xs) = distinct xs"
  by (metis sort_by_mset mset_eq_imp_distinct_iff)

lemma take_first:
  assumes "x \<in> set (take k (sort_by xs))" and "y \<in> set xs" and "y \<notin> set (take k (sort_by xs))"
  shows "\<not> before y x"
proof -
  have "sort_by xs = take k (sort_by xs) @ drop k (sort_by xs)" by simp
  moreover have "y \<in> set (drop k (sort_by xs))"
    using assms(2,3) sort_by_set [of xs] by (metis Un_iff append_take_drop_id set_append)
  ultimately show ?thesis
    using assms(1) sort_by_sorted [of xs] sorted_wrt_append by metis
qed

end

lemma insert_before_mset: "mset (insert_before cmp x ys) = add_mset x (mset ys)"
  by (induction ys) auto

lemma insert_before_sorted:
  assumes "sorted_wrt (\<lambda>a b. \<not> cmp b a) ys"
    and asym: "\<And>a b. cmp a b \<Longrightarrow> \<not> cmp b a" and weak: "\<And>a b c. \<not> cmp b a \<Longrightarrow> \<not> cmp c b \<Longrightarrow> \<not> cmp c a"
  shows "sorted_wrt (\<lambda>a b. \<not> cmp b a) (insert_before cmp x ys)"
  using assms(1)
proof (induction ys)
  case (Cons y ys)
  have set_eq: "set (insert_before cmp x ys) = insert x (set ys)"
    using insert_before_mset [of cmp x ys] by (metis set_mset_add_mset_insert set_mset_mset)
  have y: "\<forall>z \<in> set ys. \<not> cmp z y" "sorted_wrt (\<lambda>a b. \<not> cmp b a) ys" using Cons.prems by simp_all
  show ?case
  proof (cases "cmp y x")
    case True
    then show ?thesis using Cons.IH y asym set_eq by simp
  next
    case False
    then have "\<forall>z \<in> set ys. \<not> cmp z x" using y(1) weak by blast
    then show ?thesis using False y by simp
  qed
qed simp

lemma insertion_sort_sorting:
  assumes "\<And>a b. cmp a b \<Longrightarrow> \<not> cmp b a" and "\<And>a b c. \<not> cmp b a \<Longrightarrow> \<not> cmp c b \<Longrightarrow> \<not> cmp c a"
  shows "std_sorting (\<lambda>xs. foldr (insert_before cmp) xs []) cmp"
proof
  fix xs
  show "mset (foldr (insert_before cmp) xs []) = mset xs"
    by (induction xs) (simp_all add: insert_before_mset)
  show "sorted_wrt (\<lambda>a b. \<not> cmp b a) (foldr (insert_before cmp) xs [])"
    by (induction xs) (auto intro: insert_before_sorted [OF _ assms])
qed

interpretation by_length: std_sorting "std_sort plain_env CompareMVectorStringLen" CompareMVectorStringLen
  unfolding plain_env_def fuzz_env.simps
  by (rule insertion_sort_sorting) (auto simp: CompareMVectorStringLen_def)

interpretation by_value: std_sorting "std_sort plain_env CompareMVectorValue" CompareMVectorValue
  unfolding plain_env_def fuzz_env.simps
  by (rule insertion_sort_sorting) (auto simp: CompareMVectorValue_def)

lemma tokens_distinct: "tokens_ok m \<Longrightarrow> distinct m"
proof -
  assume "tokens_ok m"
  then have "sorted_wrt bytes_less (map fst m)" by (simp add: tokens_ok_def)
  then have "distinct (map fst m)"
    by (induction m) (auto dest: bytes_less_irrefl [THEN notE])
  then show ?thesis by (simp add: distinct_map)
qed

text \<open>
  The dictionary stages get at most 50 tokens, each once, from short to long; a token
  that is left out was not counted more often than one that is used.
\<close>

theorem dictionary_tokens_choice:
  assumes "std_sorting (std_sort E CompareMVectorValue) CompareMVectorValue"
    and "std_sorting (std_sort E CompareMVectorStringLen) CompareMVectorStringLen"
    and "tokens_ok (autoToken s)"
  shows "length (dictionary_tokens E s) = min MAX_TOKEN_NUM (length (autoToken s)) \<and>
    distinct (dictionary_tokens E s) \<and> set (dictionary_tokens E s) \<subseteq> set (autoToken s) \<and>
    sorted_wrt (\<lambda>a b. length (fst a) \<le> length (fst b)) (dictionary_tokens E s) \<and>
    (\<forall>x \<in> set (dictionary_tokens E s). \<forall>y \<in> set (autoToken s) - set (dictionary_tokens E s). snd y \<le> snd x)"
proof -
  note val = assms(1) and len = assms(2)
  let ?S = "std_sort E CompareMVectorValue (autoToken s)"
  define L where "L = (if length (autoToken s) > MAX_TOKEN_NUM then take MAX_TOKEN_NUM ?S else autoToken s)"
  have dt: "dictionary_tokens E s = std_sort E CompareMVectorStringLen L"
    by (simp add: dictionary_tokens_def L_def)
  have set_S: "set ?S = set (autoToken s)" "length ?S = length (autoToken s)" "distinct ?S"
    using std_sorting.sort_by_set [OF val] std_sorting.sort_by_length [OF val]
      std_sorting.sort_by_distinct [OF val] tokens_distinct [OF assms(3)] by simp_all
  have L: "length L = min MAX_TOKEN_NUM (length (autoToken s))" "distinct L" "set L \<subseteq> set (autoToken s)"
    using set_S tokens_distinct [OF assms(3)] set_take_subset [of MAX_TOKEN_NUM ?S] by (auto simp: L_def)
  have best: "snd y \<le> snd x" if "x \<in> set L" "y \<in> set (autoToken s)" "y \<notin> set L" for x y
    using std_sorting.take_first [OF val, of x MAX_TOKEN_NUM "autoToken s" y] that
    by (auto simp: L_def CompareMVectorValue_def split: if_splits)
  have "sorted_wrt (\<lambda>a b. length (fst a) \<le> length (fst b)) (dictionary_tokens E s)"
    using std_sorting.sort_by_sorted [OF len, of L] unfolding dt CompareMVectorStringLen_def not_less .
  moreover have "set (dictionary_tokens E s) = set L" "length (dictionary_tokens E s) = length L"
    "distinct (dictionary_tokens E s)"
    unfolding dt using std_sorting.sort_by_set [OF len] std_sorting.sort_by_length [OF len]
      std_sorting.sort_by_distinct [OF len] L(2) by simp_all
  ultimately show ?thesis using L(1,3) best by auto
qed

theorem dictionary_tokens_choice_witness:
  "set (dictionary_tokens plain_env (one_seed\<lparr>autoToken := [([1], 5), ([1, 2], 2)]\<rparr>)) \<subseteq> {([1], 5), ([1, 2], 2)}"
proof -
  have "tokens_ok (autoToken (one_seed\<lparr>autoToken := [([1], 5), ([1, 2], 2)]\<rparr>))"
    by (simp add: tokens_ok_def MIN_TOKEN_SIZE_def MAX_TOKEN_SIZE_def)
  from dictionary_tokens_choice [OF by_value.std_sorting_axioms by_length.std_sorting_axioms this]
  show ?thesis by simp
qed

section \<open>Inserting tokens\<close>

text \<open>A unit looks only at the first \<open>len\<close> bytes of the buffer it is given.\<close>

lemma mem_read_take: "n \<le> k \<Longrightarrow> k \<le> length mem \<Longrightarrow> mem_read 0 n (take k mem) = mem_read 0 n mem"
  by (simp add: mem_read_def min_def)

lemma write_take:
  assumes "len \<le> length mem" and "len < 2 ^ 32"
  shows "WriteMem2File E f (take len mem) len = WriteMem2File E f mem len"
    and "WriteToTestcase E (take len mem) len = WriteToTestcase E mem len"
  using mem_read_take [of len len mem] assms
  by (simp_all add: fun_eq_iff WriteMem2File_def WriteToTestcase_def)

lemma FuzzUnit_take:
  assumes "len \<le> length mem" and "len < 2 ^ 32"
  shows "FuzzUnit E (take len mem) len el cm = FuzzUnit E mem len el cm"
proof
  fix s
  have len: "to_u32 len = len" using assms(2) by simp
  note w = write_take [OF assms]
  have h: "crash_handler E k (take len mem) len = crash_handler E k mem len"
    "ex_crash_handler E k (take len mem) len = ex_crash_handler E k mem len"
    "hang_handler E k (take len mem) len = hang_handler E k mem len"
    "ex_hang_handler E k (take len mem) len = ex_hang_handler E k mem len" for k
    unfolding crash_handler_def ex_crash_handler_def hang_handler_def ex_hang_handler_def fun_eq_iff w by simp_all
  have k: "keep_seed E (take len mem) len = keep_seed E mem len"
    unfolding keep_seed_def fun_eq_iff w by simp
  have "AddInterestingSeed E (take len mem) len = AddInterestingSeed E mem len"
    unfolding AddInterestingSeed_def fun_eq_iff h k by simp
  then show "FuzzUnit E (take len mem) len el cm s = FuzzUnit E mem len el cm s"
    unfolding FuzzUnit_def w len by simp
qed

lemma place_token_inserts:
  assumes "i \<le> len" and "len \<le> length fm" and "len + length tok \<le> length temp" and "take i temp = take i fm"
  shows "\<exists>temp'. place_token len i tok fm temp = Some temp' \<and> length temp' = length temp \<and> take i temp' = take i fm \<and>
    take (len + length tok) temp' = take i fm @ tok @ drop i (take len fm)"
proof -
  let ?a = "take i temp @ tok @ drop (i + length tok) temp"
  let ?tail = "take (len - i) (drop i fm)"
  let ?b = "(take i fm @ tok @ ?tail) @ drop (len + length tok) temp"
  have tail: "length ?tail = len - i" "length (take i temp) = i" using assms(1-3) by simp_all
  have "mem_write i tok temp = Some ?a" using assms(1,3) by (simp add: mem_write_def)
  moreover have "mem_read i (len - i) fm = Some ?tail" using assms(1,2) by (simp add: mem_read_def)
  moreover have "mem_write (i + length tok) ?tail ?a = Some ?b"
    using assms(1,3,4) tail by (simp add: mem_write_def)
  ultimately have "place_token len i tok fm temp = Some ?b"
    by (simp add: place_token_def)
  moreover have l: "length (take i fm @ tok @ ?tail) = len + length tok" using assms(1,2) by simp
  moreover have "length ?b = length temp" unfolding length_append [of "take i fm @ tok @ ?tail"] l using assms(3) by simp
  moreover have "take (length xs) (xs @ ys) = xs" for xs ys :: "u8 list" by simp
  then have "take (len + length tok) ?b = take i fm @ tok @ ?tail" unfolding l [symmetric] .
  moreover have "take i ?b = take i fm" using assms(1,2) by simp
  ultimately show ?thesis by (simp only: drop_take) blast
qed

text \<open>
  The reference: at every offset, every token is inserted into the test case.  The loop over a
  buffer of its own that the code uses is related to it by the prefix already copied.
\<close>

definition insert_unit :: "fuzz_env \<Rightarrow> u8 list \<Rightarrow> nat \<Rightarrow> u8 list \<times> nat \<Rightarrow> fuzzer \<Rightarrow> (nat \<times> fuzzer) option" where
  "insert_unit E fm i token s =
     (if length fm + length (fst token) > MAX_FILE_LEN then Some (0, s)
      else FuzzUnit E (take i fm @ fst token @ drop i fm) (length fm + length (fst token)) None None s)"

definition DictionaryInsert_spec ::
  "fuzz_env \<Rightarrow> (u8 list \<times> nat) list \<Rightarrow> u8 list \<Rightarrow> fuzzer \<Rightarrow> (nat \<times> fuzzer) option" where
  "DictionaryInsert_spec E toks fm s =
     do {
       (r, s) \<leftarrow> stageM (\<lambda>i. stageM (insert_unit E fm i) toks) [0..<length fm] s;
       Some (if r \<noteq> 0 then (1, s) else (0, print_result E ''DictionaryInsert'' s))
     }"

definition with_buffer :: "('b \<Rightarrow> bool) \<Rightarrow> (nat \<times> 'b \<times> 's) option \<Rightarrow> (nat \<times> 's) option \<Rightarrow> bool" where
  "with_buffer I m m' \<longleftrightarrow>
     (case m' of None \<Rightarrow> m = None | Some (r, s) \<Rightarrow> (\<exists>b. m = Some (r, b, s) \<and> (r = 0 \<longrightarrow> I b)))"

lemma with_buffer_stageM:
  assumes "\<And>x b s. x \<in> set xs \<Longrightarrow> I b \<Longrightarrow> with_buffer I (f x (b, s)) (g x s)" and "I b"
  shows "with_buffer I (stageM f xs (b, s)) (stageM g xs s)"
  using assms
proof (induction xs arbitrary: b s)
  case (Cons x xs)
  have step: "with_buffer I (f x (b, s)) (g x s)" using Cons.prems by simp
  show ?case
  proof (cases "g x s")
    case None
    then show ?thesis using step by (simp add: with_buffer_def)
  next
    case (Some p)
    then obtain r s' b' where "g x s = Some (r, s')" "f x (b, s) = Some (r, b', s')" "r = 0 \<longrightarrow> I b'"
      using step by (cases p) (auto simp: with_buffer_def)
    then show ?thesis using Cons.IH [of b' s'] Cons.prems(1) by (simp add: with_buffer_def)
  qed
qed (simp add: with_buffer_def)

lemma with_buffer_upt:
  assumes "\<And>i b s. i < n \<Longrightarrow> I i b \<Longrightarrow> with_buffer (I (Suc i)) (f i (b, s)) (g i s)" and "I k b" and "k \<le> n"
  shows "with_buffer (I n) (stageM f [k..<n] (b, s)) (stageM g [k..<n] s)"
  using assms(2,3)
proof (induction "n - k" arbitrary: k b s)
  case 0
  then show ?case by (simp add: with_buffer_def)
next
  case (Suc d)
  then have k: "k < n" "d = n - Suc k" "Suc k \<le> n" by simp_all
  have step: "with_buffer (I (Suc k)) (f k (b, s)) (g k s)" using assms(1) k(1) Suc.prems(1) by blast
  have upt: "[k..<n] = k # [Suc k..<n]" using k(1) by (simp add: upt_conv_Cons)
  show ?case
  proof (cases "g k s")
    case None
    then show ?thesis using step by (simp add: upt with_buffer_def)
  next
    case (Some p)
    then obtain r s' b' where "g k s = Some (r, s')" "f k (b, s) = Some (r, b', s')" "r = 0 \<longrightarrow> I (Suc k) b'"
      using step by (cases p) (auto simp: with_buffer_def)
    then show ?thesis using Suc.hyps(1) [OF k(2) _ k(3), of b' s'] by (simp add: upt with_buffer_def)
  qed
qed

lemma insert_token_refines:
  assumes "i \<le> length fm" and "length (fst tok) \<le> MAX_TOKEN_SIZE" and "take i temp = take i fm"
    and "length temp = length fm + MAX_TOKEN_SIZE"
  shows "with_buffer (\<lambda>t. take i t = take i fm \<and> length t = length fm + MAX_TOKEN_SIZE)
    (insert_token E (length fm) i fm tok (temp, s)) (insert_unit E fm i tok s)"
proof (cases "length fm + length (fst tok) > MAX_FILE_LEN")
  case True
  then show ?thesis using assms by (simp add: insert_token_def insert_unit_def with_buffer_def)
next
  case False
  let ?n = "length fm + length (fst tok)"
  have n: "?n < 2 ^ 32" "?n \<le> length temp" using False assms(2,4) by (simp_all add: MAX_FILE_LEN_def)
  obtain t where t: "place_token (length fm) i (fst tok) fm temp = Some t" "length t = length temp"
    "take i t = take i fm" "take ?n t = take i fm @ fst tok @ drop i fm"
    using place_token_inserts [OF assms(1) order_refl n(2) assms(3)] by auto
  have "FuzzUnit E t ?n None None = FuzzUnit E (take i fm @ fst tok @ drop i fm) ?n None None"
    using FuzzUnit_take [of ?n t] t(2,4) n by simp
  then show ?thesis
    using False t assms(4)
    by (auto simp: insert_token_def insert_unit_def with_buffer_def split: option.split)
qed

text \<open>
  C18: \<open>DictionaryInsert\<close> runs exactly the test cases it means to: for every offset, and every
  chosen token that keeps the test case within the size limit, the test case with the token
  inserted there.  Reusing one buffer for all of them makes no difference.
\<close>

theorem DictionaryInsert_refines_spec:
  assumes "\<forall>t \<in> set toks. length (fst t) \<le> MAX_TOKEN_SIZE"
  shows "map_option (\<lambda>(r, _, s'). (r, s')) (DictionaryInsert E (length fm) toks (fm, s)) = DictionaryInsert_spec E toks fm s"
proof -
  let ?I = "\<lambda>i t. take i t = take i fm \<and> length t = length fm + MAX_TOKEN_SIZE"
  let ?f = "\<lambda>i (temp, s).
      do {
        (r, temp, s) \<leftarrow> stageM (insert_token E (length fm) i fm) toks (temp, s);
        if r \<noteq> 0 then Some (1, temp, s)
        else do { x \<leftarrow> get_byte i fm; temp \<leftarrow> set_byte i x temp; Some (0, temp, s) } }"
  let ?g = "\<lambda>i. stageM (insert_unit E fm i) toks"
  have "with_buffer (?I (length fm)) (stageM ?f [0..<length fm] (replicate (length fm + MAX_TOKEN_SIZE) 0, s))
      (stageM ?g [0..<length fm] s)"
  proof (rule with_buffer_upt [where I = ?I])
    fix i :: nat and b :: "u8 list" and s :: fuzzer
    assume i: "i < length fm" and I: "?I i b"
    have "with_buffer (?I i) (stageM (insert_token E (length fm) i fm) toks (b, s)) (?g i s)"
      by (rule with_buffer_stageM) (use i I assms insert_token_refines in \<open>auto simp: less_imp_le\<close>)
    moreover have "take (Suc i) (t[i := fm ! i]) = take (Suc i) fm \<and> i < length t" if "?I i t" for t
      using that i by (simp add: take_Suc_conv_app_nth)
    moreover have "r = 0 \<or> r = 1" if "stageM h xs s = Some (r, s')" for h r xs and s s' :: fuzzer
      using that by (induction xs arbitrary: s) (auto simp: bind_eq_Some_conv split: if_splits)
    ultimately show "with_buffer (?I (Suc i)) (?f i (b, s)) (?g i s)"
      using i by (fastforce simp: with_buffer_def get_byte_def set_byte_def split: option.splits)
  qed simp_all
  then show ?thesis
    unfolding DictionaryInsert_def DictionaryInsert_spec_def prod.case
    by (auto simp: with_buffer_def split: option.splits)
qed

theorem DictionaryInsert_refines_spec_witness:
  "map_option (\<lambda>(r, _, s'). (r, s')) (DictionaryInsert plain_env (length [1, 2 :: u8]) [([9], 1)] ([1, 2], one_seed)) =
    DictionaryInsert_spec plain_env [([9], 1)] [1, 2] one_seed"
  by (rule DictionaryInsert_refines_spec) (simp add: MAX_TOKEN_SIZE_def)

end
