(* ===== verification/Havoc_Stage.thy ===== *)
theory Havoc_Stage
  imports Det_Stages
begin

text \<open>
  The random stages of fuzzing a seed (\<open>FuzzOne.cpp\<close>): \<open>Havoc\<close> applies stacks of random
  mutations that also change the length of the test case, \<open>Splice\<close> first joins two seeds.

  The buffer of the test case is the list of its allocated bytes; \<open>temp_len\<close> is the part in
  use.  Every access to the buffer is checked, so the theorems that these stages return show that
  no mutation leaves the buffer.  C++14 leaves open which side of an assignment draws its random
  number first; here it is the right side.
\<close>

section \<open>Random choices\<close>

definition rnd :: "nat \<Rightarrow> fuzzer \<Rightarrow> nat \<times> fuzzer" where
  "rnd d s = (let (r, t) = randNum d (rand_tape s) in (r, s\<lparr>rand_tape := t\<rparr>))"

definition HAVOC_CYCLES_INIT :: nat where "HAVOC_CYCLES_INIT = 8"
definition HAVOC_STACK_POW2 :: nat where "HAVOC_STACK_POW2 = 15"
definition HAVOC_BLK_SMALL :: nat where "HAVOC_BLK_SMALL = 32"
definition HAVOC_BLK_MEDIUM :: nat where "HAVOC_BLK_MEDIUM = 128"
definition HAVOC_BLK_LARGE :: nat where "HAVOC_BLK_LARGE = 1500"
definition HAVOC_BLK_XL :: nat where "HAVOC_BLK_XL = 32768"
definition HAVOC_INIT_MULT :: nat where "HAVOC_INIT_MULT = 1"
definition HAVOC_MAX_MULT :: nat where "HAVOC_MAX_MULT = 16"
definition SPLICE_CYCLES :: nat where "SPLICE_CYCLES = 15"
definition SPLICE_HAVOC :: nat where "SPLICE_HAVOC = 32"

definition choose_block_len :: "nat \<Rightarrow> fuzzer \<Rightarrow> nat \<times> fuzzer" where
  "choose_block_len limit s =
     (let limit = to_u32 limit;
          rlim = min (queueCycle s) 3;
          (c, s) = rnd rlim s;
          (min_value, max_value, s) =
            (if c = 0 then (1, HAVOC_BLK_SMALL, s)
             else if c = 1 then (HAVOC_BLK_SMALL, HAVOC_BLK_MEDIUM, s)
             else let (b, s) = rnd 10 s
                  in if b \<noteq> 0 then (HAVOC_BLK_MEDIUM, HAVOC_BLK_LARGE, s)
                     else (HAVOC_BLK_LARGE, HAVOC_BLK_XL, s));
          min_value = (if min_value \<ge> limit then 1 else min_value);
          (r, s) = rnd (usub32 (min max_value limit) min_value + 1) s
      in (to_u32 (min_value + r), s))"

section \<open>Mutations\<close>

type_synonym havoc_state = "u8 list \<times> nat \<times> fuzzer"

definition havoc_flip :: "havoc_state \<Rightarrow> havoc_state option" where
  "havoc_flip = (\<lambda>(fm, temp_len, s).
     do {
       let (b, s) = rnd (8 * temp_len) s;
       fm \<leftarrow> FLIP_BIT b fm;
       Some (fm, temp_len, s)
     })"

definition havoc_interesting8 :: "havoc_state \<Rightarrow> havoc_state option" where
  "havoc_interesting8 = (\<lambda>(fm, temp_len, s).
     do {
       let (j, s) = rnd (length interesting_8) s;
       let (pos, s) = rnd temp_len s;
       fm \<leftarrow> set_byte pos (word_of_int (interesting_8 ! j)) fm;
       Some (fm, temp_len, s)
     })"

definition havoc_interesting16 :: "havoc_state \<Rightarrow> havoc_state option" where
  "havoc_interesting16 = (\<lambda>(fm, temp_len, s).
     if temp_len < 2 then Some (fm, temp_len, s)
     else do {
       let (c, s) = rnd 2 s;
       let (j, s) = rnd (length interesting_16) s;
       let (pos, s) = rnd (temp_len - 1) s;
       let v = (word_of_int (interesting_16 ! j) :: u16);
       fm \<leftarrow> mem_write pos (le_bytes 2 (if c \<noteq> 0 then v else SWAP16 v)) fm;
       Some (fm, temp_len, s)
     })"

definition havoc_interesting32 :: "havoc_state \<Rightarrow> havoc_state option" where
  "havoc_interesting32 = (\<lambda>(fm, temp_len, s).
     if temp_len < 4 then Some (fm, temp_len, s)
     else do {
       let (c, s) = rnd 2 s;
       let (j, s) = rnd (length interesting_32) s;
       let (pos, s) = rnd (temp_len - 3) s;
       let v = (word_of_int (interesting_32 ! j) :: u32);
       fm \<leftarrow> mem_write pos (le_bytes 4 (if c \<noteq> 0 then v else SWAP32 v)) fm;
       Some (fm, temp_len, s)
     })"

text \<open>\<open>op\<close> is the subtraction (cases 4, 6 and 8) or the addition (cases 5, 7 and 9).\<close>

definition havoc_arith8 :: "(u8 \<Rightarrow> u8 \<Rightarrow> u8) \<Rightarrow> havoc_state \<Rightarrow> havoc_state option" where
  "havoc_arith8 op = (\<lambda>(fm, temp_len, s).
     do {
       let (num, s) = rnd ARITH_MAX s;
       let (pos, s) = rnd temp_len s;
       x \<leftarrow> get_byte pos fm;
       fm \<leftarrow> set_byte pos (op x (of_nat (1 + num))) fm;
       Some (fm, temp_len, s)
     })"

definition havoc_arith16 :: "(u16 \<Rightarrow> u16 \<Rightarrow> u16) \<Rightarrow> havoc_state \<Rightarrow> havoc_state option" where
  "havoc_arith16 op = (\<lambda>(fm, temp_len, s).
     if temp_len < 2 then Some (fm, temp_len, s)
     else do {
       let (c, s) = rnd 2 s;
       let (pos, s) = rnd (temp_len - 1) s;
       let (num, s) = rnd ARITH_MAX s;
       bs \<leftarrow> mem_read pos 2 fm;
       let x = le_word bs;
       let n = of_nat (1 + num);
       fm \<leftarrow> mem_write pos (le_bytes 2 (if c \<noteq> 0 then op x n else SWAP16 (op (SWAP16 x) n))) fm;
       Some (fm, temp_len, s)
     })"

definition havoc_arith32 :: "(u32 \<Rightarrow> u32 \<Rightarrow> u32) \<Rightarrow> havoc_state \<Rightarrow> havoc_state option" where
  "havoc_arith32 op = (\<lambda>(fm, temp_len, s).
     if temp_len < 4 then Some (fm, temp_len, s)
     else do {
       let (c, s) = rnd 2 s;
       let (pos, s) = rnd (temp_len - 3) s;
       let (num, s) = rnd ARITH_MAX s;
       bs \<leftarrow> mem_read pos 4 fm;
       let x = le_word bs;
       let n = of_nat (1 + num);
       fm \<leftarrow> mem_write pos (le_bytes 4 (if c \<noteq> 0 then op x n else SWAP32 (op (SWAP32 x) n))) fm;
       Some (fm, temp_len, s)
     })"

definition havoc_xor :: "havoc_state \<Rightarrow> havoc_state option" where
  "havoc_xor = (\<lambda>(fm, temp_len, s).
     do {
       let (v, s) = rnd 255 s;
       let (pos, s) = rnd temp_len s;
       x \<leftarrow> get_byte pos fm;
       fm \<leftarrow> set_byte pos (x XOR of_nat (1 + v)) fm;
       Some (fm, temp_len, s)
     })"

definition havoc_delete :: "havoc_state \<Rightarrow> havoc_state option" where
  "havoc_delete = (\<lambda>(fm, temp_len, s).
     if temp_len < 2 then Some (fm, temp_len, s)
     else do {
       let (del_len, s) = choose_block_len (temp_len - 1) s;
       let (del_from, s) = rnd (temp_len - del_len + 1) s;
       fm \<leftarrow> memmove del_from (del_from + del_len) (temp_len - del_from - del_len) fm;
       Some (fm, temp_len - del_len, s)
     })"

definition fill_byte :: "havoc_state \<Rightarrow> (u8 \<times> fuzzer) option" where
  "fill_byte = (\<lambda>(fm, temp_len, s).
     do {
       let (c, s) = rnd 2 s;
       if c \<noteq> 0 then let (v, s) = rnd 256 s in Some (of_nat v, s)
       else do { let (pos, s) = rnd temp_len s; x \<leftarrow> get_byte pos fm; Some (x, s) }
     })"

definition havoc_clone :: "havoc_state \<Rightarrow> havoc_state option" where
  "havoc_clone = (\<lambda>(fm, temp_len, s).
     if \<not> temp_len + HAVOC_BLK_XL < MAX_FILE_LEN then Some (fm, temp_len, s)
     else do {
       let (actually_clone, s) = rnd 4 s;
       let (clone_len, clone_from, s) =
         (if actually_clone \<noteq> 0 then
            let (clone_len, s) = choose_block_len temp_len s;
                (clone_from, s) = rnd (temp_len - clone_len + 1) s
            in (clone_len, clone_from, s)
          else let (clone_len, s) = choose_block_len HAVOC_BLK_XL s in (clone_len, 0, s));
       let (clone_to, s) = rnd temp_len s;
       head \<leftarrow> mem_read 0 clone_to fm;
       (ins, s) \<leftarrow> (if actually_clone \<noteq> 0
                    then do { xs \<leftarrow> mem_read clone_from clone_len fm; Some (xs, s) }
                    else do { (v, s) \<leftarrow> fill_byte (fm, temp_len, s); Some (replicate clone_len v, s) });
       tail \<leftarrow> mem_read clone_to (temp_len - clone_to) fm;
       Some (head @ ins @ tail, temp_len + clone_len, s)
     })"

definition havoc_copy :: "havoc_state \<Rightarrow> havoc_state option" where
  "havoc_copy = (\<lambda>(fm, temp_len, s).
     if temp_len < 2 then Some (fm, temp_len, s)
     else do {
       let (copy_len, s) = choose_block_len (temp_len - 1) s;
       let (copy_from, s) = rnd (temp_len - copy_len + 1) s;
       let (copy_to, s) = rnd (temp_len - copy_len + 1) s;
       let (c, s) = rnd 4 s;
       if c \<noteq> 0 then
         if copy_from \<noteq> copy_to then do {
           fm \<leftarrow> memmove copy_to copy_from copy_len fm;
           Some (fm, temp_len, s) }
         else Some (fm, temp_len, s)
       else do {
         (v, s) \<leftarrow> fill_byte (fm, temp_len, s);
         fm \<leftarrow> memset copy_to v copy_len fm;
         Some (fm, temp_len, s) }
     })"

text \<open>The dice for the two dictionaries, shared by cases 15 and 16.\<close>

definition choose_extra :: "fuzzer \<Rightarrow> (u8 list \<times> fuzzer) option" where
  "choose_extra s =
     do {
       let (use_auto, s) =
         (if pointedToken s = [] then (True, s)
          else if autoToken s \<noteq> [] then let (c, s) = rnd 2 s in (c \<noteq> 0, s)
          else (False, s));
       let tokens = (if use_auto then autoToken s else pointedToken s);
       let (use_extra, s) = rnd (length tokens) s;
       token \<leftarrow> get_byte use_extra tokens;
       Some (fst token, s)
     }"

definition havoc_overwrite :: "havoc_state \<Rightarrow> havoc_state option" where
  "havoc_overwrite = (\<lambda>(fm, temp_len, s).
     do {
       (extra, s) \<leftarrow> choose_extra s;
       if length extra > temp_len then Some (fm, temp_len, s)
       else do {
         let (insert_at, s) = rnd (temp_len - length extra + 1) s;
         fm \<leftarrow> mem_write insert_at extra fm;
         Some (fm, temp_len, s)
       }
     })"

definition havoc_insert :: "havoc_state \<Rightarrow> havoc_state option" where
  "havoc_insert = (\<lambda>(fm, temp_len, s).
     do {
       let (insert_at, s) = rnd (temp_len + 1) s;
       (extra, s) \<leftarrow> choose_extra s;
       if temp_len + length extra \<ge> MAX_FILE_LEN then Some (fm, temp_len, s)
       else do {
         head \<leftarrow> mem_read 0 insert_at fm;
         tail \<leftarrow> mem_read insert_at (temp_len - insert_at) fm;
         Some (head @ extra @ tail, temp_len + length extra, s)
       }
     })"

definition havoc_case :: "nat \<Rightarrow> havoc_state \<Rightarrow> havoc_state option" where
  "havoc_case k =
     (if k = 0 then havoc_flip
      else if k = 1 then havoc_interesting8
      else if k = 2 then havoc_interesting16
      else if k = 3 then havoc_interesting32
      else if k = 4 then havoc_arith8 (-)
      else if k = 5 then havoc_arith8 (+)
      else if k = 6 then havoc_arith16 (-)
      else if k = 7 then havoc_arith16 (+)
      else if k = 8 then havoc_arith32 (-)
      else if k = 9 then havoc_arith32 (+)
      else if k = 10 then havoc_xor
      else if k = 11 \<or> k = 12 then havoc_delete
      else if k = 13 then havoc_clone
      else if k = 14 then havoc_copy
      else if k = 15 then havoc_overwrite
      else if k = 16 then havoc_insert
      else Some)"

definition havoc_mutate :: "havoc_state \<Rightarrow> havoc_state option" where
  "havoc_mutate = (\<lambda>(fm, temp_len, s).
     let (k, s) = rnd (15 + (if length (pointedToken s) + length (autoToken s) \<noteq> 0 then 2 else 0)) s
     in havoc_case k (fm, temp_len, s))"

section \<open>Havoc\<close>

text \<open>
  The bound \<open>havoc_time\<close> is doubled while it is below \<open>8 * 16\<close> and new seeds appear, so the
  loop ends.
\<close>

definition next_havoc_time :: "nat \<Rightarrow> nat \<Rightarrow> nat \<Rightarrow> nat" where
  "next_havoc_time havoc_time queue_init_size queue_havoc_size =
     (if queue_havoc_size > queue_init_size \<and> havoc_time < HAVOC_CYCLES_INIT * HAVOC_MAX_MULT
      then havoc_time * 2 else havoc_time)"

function havoc_loop ::
  "fuzz_env \<Rightarrow> nat \<Rightarrow> u8 list \<Rightarrow> nat \<Rightarrow> nat \<Rightarrow> nat \<Rightarrow> u8 list \<Rightarrow> fuzzer \<Rightarrow> (nat \<times> u8 list \<times> fuzzer) option" where
  "havoc_loop E len orig_buf i havoc_time queue_init_size fm s =
     (if \<not> i < havoc_time then Some (0, fm, s)
      else do {
        let (m, s) = rnd HAVOC_STACK_POW2 s;
        (fm, temp_len, s) \<leftarrow> foldM (\<lambda>_. havoc_mutate) [0..<2 ^ (1 + m)] (fm, len, s);
        (r, s) \<leftarrow> FuzzUnit E fm temp_len None None s;
        if r \<noteq> 0 then Some (1, fm, s)
        else do {
          fm \<leftarrow> mem_write 0 orig_buf (if temp_len < len then replicate len 0 else fm);
          let queue_havoc_size = to_u32 (length (queue s));
          havoc_loop E len orig_buf (i + 1) (next_havoc_time havoc_time queue_init_size queue_havoc_size)
            queue_havoc_size fm s
        }
      })"
  by auto
termination
  by (relation "measure (\<lambda>(E, len, orig, i, ht, _). max ht 254 - i)")
    (auto simp: next_havoc_time_def HAVOC_CYCLES_INIT_def HAVOC_MAX_MULT_def)

declare havoc_loop.simps [simp del]

definition Havoc :: "fuzz_env \<Rightarrow> nat \<Rightarrow> nat \<Rightarrow> u8 list \<times> fuzzer \<Rightarrow> (nat \<times> u8 list \<times> fuzzer) option" where
  "Havoc E cycles len = (\<lambda>(fm, s).
     do {
       orig_buf \<leftarrow> mem_read 0 len fm;
       (r, fm, s) \<leftarrow> havoc_loop E len orig_buf 0 (cycles * HAVOC_INIT_MULT) (to_u32 (length (queue s))) fm s;
       Some (if r \<noteq> 0 then (1, fm, s) else (0, fm, print_result E ''Havoc'' s))
     })"

section \<open>Splice\<close>

definition locate_diffs :: "u8 list \<Rightarrow> u8 list \<Rightarrow> nat \<Rightarrow> (int \<times> int) option" where
  "locate_diffs ptr1 ptr2 len =
     do {
       xs \<leftarrow> mem_read 0 len ptr1;
       ys \<leftarrow> mem_read 0 len ptr2;
       Some (fold (\<lambda>pos (f_loc, l_loc).
           if xs ! pos \<noteq> ys ! pos then (if f_loc = -1 then int pos else f_loc, int pos) else (f_loc, l_loc))
         [0..<len] (-1, -1))
     }"

text \<open>The \<open>do ... while\<close> loop ends only when a draw differs from the current seed.\<close>

partial_function (option) pick_other :: "nat \<Rightarrow> fuzzer \<Rightarrow> (nat \<times> fuzzer) option" where
  "pick_other q s = (let (other, s) = rnd (length (queue s)) s in if other = q then pick_other q s else Some (other, s))"

definition next_long :: "seed list \<Rightarrow> nat \<Rightarrow> nat option" where
  "next_long qs other = find (\<lambda>k. \<not> fileLen (qs ! k) < 2) [other..<length qs]"

definition splice_step ::
  "fuzz_env \<Rightarrow> nat \<Rightarrow> nat \<Rightarrow> u8 list \<Rightarrow> fuzzer \<Rightarrow> (nat \<times> fuzzer) option" where
  "splice_step E q len fm s =
     do {
       (other, s) \<leftarrow> pick_other q s;
       case next_long (queue s) other of
         None \<Rightarrow> Some (0, s)
       | Some k \<Rightarrow>
           let name = fileName (queue s ! k); flen = fileLen (queue s ! k)
           in case files s name of
                None \<Rightarrow> Some (1, s)
              | Some contents \<Rightarrow>
                  if \<not> io_ok E name \<or> length contents < flen then Some (1, s)
                  else do {
                    let other_buf = take flen contents;
                    (f_diff, l_diff) \<leftarrow> locate_diffs fm other_buf (to_u32 (min len flen));
                    if f_diff < 0 \<or> l_diff < 2 \<or> f_diff = l_diff then Some (0, s)
                    else do {
                      let (r, s) = rnd (nat (l_diff - f_diff)) s;
                      let splice_at = nat f_diff + r;
                      head \<leftarrow> mem_read 0 splice_at fm;
                      other_buf \<leftarrow> mem_write 0 head other_buf;
                      (r, _, s) \<leftarrow> Havoc E SPLICE_HAVOC flen (other_buf, s);
                      Some (r, s)
                    }
                  }
     }"

definition Splice :: "fuzz_env \<Rightarrow> nat \<Rightarrow> nat \<Rightarrow> u8 list \<times> fuzzer \<Rightarrow> (nat \<times> u8 list \<times> fuzzer) option" where
  "Splice E q len = (\<lambda>(fm, s).
     if length (queue s) \<le> 1 \<or> len \<le> 1 then Some (0, fm, s)
     else do {
       (r, s) \<leftarrow> stageM (\<lambda>_. splice_step E q len fm) [0..<SPLICE_CYCLES] s;
       Some (if r \<noteq> 0 then (1, fm, s) else (0, fm, print_result E ''Splice'' s))
     })"

section \<open>Total correctness of mutations\<close>

text \<open>
  \<open>returns m P\<close>: the computation returns, and its result satisfies \<open>P\<close>.  The rules follow the
  structure of the mutations; a random draw below a positive bound can be any number below it.
\<close>

definition returns :: "'a option \<Rightarrow> ('a \<Rightarrow> bool) \<Rightarrow> bool" where
  "returns m P \<longleftrightarrow> (\<exists>x. m = Some x \<and> P x)"

named_theorems ret_rules \<open>rules for returns\<close>

lemma returns_Some: "P x \<Longrightarrow> returns (Some x) P"
  by (simp add: returns_def)

lemma returns_weaken: "returns m P \<Longrightarrow> (\<And>x. P x \<Longrightarrow> Q x) \<Longrightarrow> returns m Q"
  by (auto simp: returns_def)

lemma returns_bind: "returns m P \<Longrightarrow> (\<And>x. P x \<Longrightarrow> returns (f x) Q) \<Longrightarrow> returns (m \<bind> f) Q"
  by (auto simp: returns_def)

lemma returns_if [ret_rules]:
  "(c \<Longrightarrow> returns m P) \<Longrightarrow> (\<not> c \<Longrightarrow> returns m' P) \<Longrightarrow> returns (if c then m else m') P"
  by simp

lemma returns_case_prod [ret_rules]: "returns (f a b) P \<Longrightarrow> returns (case (a, b) of (x, y) \<Rightarrow> f x y) P"
  by simp

lemma returns_Some_bind [ret_rules]: "returns (f x) P \<Longrightarrow> returns (Some x \<bind> f) P"
  by simp

lemma returns_case_bind [ret_rules]: "returns (f a b \<bind> g) P \<Longrightarrow> returns ((case (a, b) of (x, y) \<Rightarrow> f x y) \<bind> g) P"
  by simp

lemma returns_foldM:
  assumes "\<And>x s. x \<in> set xs \<Longrightarrow> I s \<Longrightarrow> returns (f x s) I" and "I s"
  shows "returns (foldM f xs s) I"
  using foldM_total [of I s xs f] assms by (simp add: returns_def)

text \<open>\<open>with_tape\<close> keeps the random tape apart, so that draws do not clutter the proofs.\<close>

definition with_tape :: "(nat \<Rightarrow> nat) \<Rightarrow> fuzzer \<Rightarrow> fuzzer" where
  "with_tape t s = s\<lparr>rand_tape := t\<rparr>"

lemma with_tape_simps [simp]:
  "with_tape t (with_tape u s) = with_tape t s" "queue (with_tape t s) = queue s"
  "autoToken (with_tape t s) = autoToken s" "pointedToken (with_tape t s) = pointedToken s"
  "queueCycle (with_tape t s) = queueCycle s" "files (with_tape t s) = files s" "with_tape (rand_tape s) s = s"
  by (simp_all add: with_tape_def)

lemma rnd_draws: "rnd d s = (fst (randNum d (rand_tape s)), with_tape (snd (randNum d (rand_tape s))) s)"
  by (simp add: rnd_def with_tape_def case_prod_beta)

lemma rnd_bound:
  assumes "0 < d"
  shows "\<exists>r t. rnd d s = (r, with_tape t s) \<and> r < d"
proof -
  have "fst (randNum d (rand_tape s)) < d"
    using randNum_less [of d "rand_tape s"] to_u32_le [of d] assms
    by (cases "to_u32 d = 0") (simp add: randNum_def, linarith)
  then show ?thesis using rnd_draws by blast
qed

lemma returns_rnd [ret_rules]:
  assumes "0 < d" and "\<And>r t. r < d \<Longrightarrow> returns (f r (with_tape t s)) P"
  shows "returns (case rnd d s of (r, s') \<Rightarrow> f r s') P"
  using rnd_bound [OF assms(1), of s] assms(2) by auto

lemma returns_get_byte [ret_rules]:
  "i < length b \<Longrightarrow> returns (f (b ! i)) P \<Longrightarrow> returns (get_byte i b \<bind> f) P"
  by (simp add: get_byte_def)

lemma returns_set_byte [ret_rules]:
  "i < length b \<Longrightarrow> (\<And>b'. length b' = length b \<Longrightarrow> returns (f b') P) \<Longrightarrow> returns (set_byte i v b \<bind> f) P"
  by (simp add: set_byte_def)

lemma returns_mem_read [ret_rules]:
  "p + n \<le> length b \<Longrightarrow> (\<And>xs. length xs = n \<Longrightarrow> returns (f xs) P) \<Longrightarrow> returns (mem_read p n b \<bind> f) P"
  by (simp add: mem_read_def)

lemma returns_mem_write [ret_rules]:
  "p + length xs \<le> length b \<Longrightarrow> (\<And>b'. length b' = length b \<Longrightarrow> returns (f b') P) \<Longrightarrow>
   returns (mem_write p xs b \<bind> f) P"
  using mem_write_total [of p xs b] by auto

lemma returns_memmove [ret_rules]:
  "src + n \<le> length b \<Longrightarrow> dst + n \<le> length b \<Longrightarrow> (\<And>b'. length b' = length b \<Longrightarrow> returns (f b') P) \<Longrightarrow>
   returns (memmove dst src n b \<bind> f) P"
  using memmove_total [of src n b dst] by auto

lemma returns_memset [ret_rules]:
  "p + n \<le> length b \<Longrightarrow> (\<And>b'. length b' = length b \<Longrightarrow> returns (f b') P) \<Longrightarrow> returns (memset p v n b \<bind> f) P"
  using memset_total [of p n b v] by auto

lemma returns_FLIP_BIT [ret_rules]:
  assumes "b < 8 * length fm" and "length fm < 2 ^ 29" and "\<And>fm'. length fm' = length fm \<Longrightarrow> returns (f fm') P"
  shows "returns (FLIP_BIT b fm \<bind> f) P"
  using assms by (simp add: FLIP_BIT_Some)

lemma choose_block_len_bound:
  assumes "1 \<le> limit" and "limit < 2 ^ 32"
  shows "\<exists>b t. choose_block_len limit s = (b, with_tape t s) \<and> 1 \<le> b \<and> b \<le> limit \<and> b \<le> HAVOC_BLK_XL"
proof -
  have draw: "\<exists>r t. rnd d s = (r, with_tape t s) \<and> r \<le> to_u32 d - 1" for d s
    using rnd_draws [of d s] randNum_le [of d "rand_tape s"] by blast
  obtain c t where c: "rnd (min (queueCycle s) 3) s = (c, with_tape t s)" using draw by blast
  define sizes where "sizes = (if c = 0 then (1, HAVOC_BLK_SMALL, with_tape t s)
     else if c = 1 then (HAVOC_BLK_SMALL, HAVOC_BLK_MEDIUM, with_tape t s)
     else let (b, s) = rnd 10 (with_tape t s)
          in if b \<noteq> 0 then (HAVOC_BLK_MEDIUM, HAVOC_BLK_LARGE, s) else (HAVOC_BLK_LARGE, HAVOC_BLK_XL, s))"
  obtain b u where b: "rnd 10 (with_tape t s) = (b, with_tape u s)"
    using draw [of 10 "with_tape t s"] by auto
  note blk = HAVOC_BLK_SMALL_def HAVOC_BLK_MEDIUM_def HAVOC_BLK_LARGE_def HAVOC_BLK_XL_def
  have "\<exists>lo hi t'. sizes = (lo, hi, with_tape t' s) \<and> 1 \<le> lo \<and> lo \<le> hi \<and> hi \<le> HAVOC_BLK_XL"
    unfolding sizes_def b by (cases "c = 0"; cases "c = 1"; cases "b = 0") (auto simp: blk)
  then obtain lo hi t' where sz: "sizes = (lo, hi, with_tape t' s)" and lo: "1 \<le> lo" "lo \<le> hi" "hi \<le> HAVOC_BLK_XL"
    by blast
  define m where "m = (if lo \<ge> limit then 1 else lo)"
  have m: "1 \<le> m" "m \<le> min hi limit" using lo assms(1) by (auto simp: m_def)
  have hi: "min hi limit < 2 ^ 32" using assms(2) by auto
  have sub: "usub32 (min hi limit) m + 1 = min hi limit - m + 1"
    using usub32_le [OF m(2) hi] by simp
  obtain r t'' where r: "rnd (usub32 (min hi limit) m + 1) (with_tape t' s) = (r, with_tape t'' s)"
    "r \<le> to_u32 (min hi limit - m + 1) - 1"
    using draw [of "usub32 (min hi limit) m + 1" "with_tape t' s"] unfolding sub by auto
  have "m + r \<le> min hi limit" using r(2) m to_u32_le [of "min hi limit - m + 1"] by linarith
  moreover have "choose_block_len limit s = (to_u32 (m + r), with_tape t'' s)"
    unfolding choose_block_len_def Let_def
    using c sz r(1) assms(2) by (simp add: sizes_def [symmetric, unfolded Let_def] m_def [symmetric])
  ultimately show ?thesis using m(1) hi lo(3) by auto
qed

lemma returns_choose_block_len [ret_rules]:
  assumes "1 \<le> limit" and "limit < 2 ^ 32"
    and "\<And>b t. 1 \<le> b \<Longrightarrow> b \<le> limit \<Longrightarrow> b \<le> HAVOC_BLK_XL \<Longrightarrow> returns (f b (with_tape t s)) P"
  shows "returns (case choose_block_len limit s of (b, s') \<Rightarrow> f b s') P"
  using choose_block_len_bound [OF assms(1,2), of s] assms(3) by auto

text \<open>
  The state of a stack of mutations: the test case is not empty and within its buffer, the buffer
  is not larger than \<open>B\<close>, and only the random tape has changed.
\<close>

definition tape_of :: "fuzzer \<Rightarrow> fuzzer \<Rightarrow> bool" where
  "tape_of s0 s \<longleftrightarrow> (\<exists>t. s = with_tape t s0)"

definition havoc_inv :: "nat \<Rightarrow> fuzzer \<Rightarrow> havoc_state \<Rightarrow> bool" where
  "havoc_inv B s0 = (\<lambda>(fm, temp_len, s). 1 \<le> temp_len \<and> temp_len \<le> length fm \<and> length fm \<le> B \<and> tape_of s0 s)"

lemma tape_of_with_tape [simp]: "tape_of s0 s \<Longrightarrow> tape_of s0 (with_tape t s)"
  by (auto simp: tape_of_def)

lemma tape_of_refl [simp]: "tape_of s s"
  unfolding tape_of_def by (rule exI [of _ "rand_tape s"]) simp

lemma tape_of_fields: "tape_of s0 s \<Longrightarrow> autoToken s = autoToken s0 \<and> pointedToken s = pointedToken s0 \<and> queue s = queue s0"
  by (auto simp: tape_of_def)

lemmas havoc_defs = havoc_flip_def havoc_interesting8_def havoc_interesting16_def havoc_interesting32_def
  havoc_arith8_def havoc_arith16_def havoc_arith32_def havoc_xor_def

lemma havoc_in_place:
  assumes "havoc_inv B s0 (fm, tlen, s)" and "B < 2 ^ 29"
  shows "returns (havoc_flip (fm, tlen, s)) (havoc_inv B s0)"
    and "returns (havoc_interesting8 (fm, tlen, s)) (havoc_inv B s0)"
    and "returns (havoc_interesting16 (fm, tlen, s)) (havoc_inv B s0)"
    and "returns (havoc_interesting32 (fm, tlen, s)) (havoc_inv B s0)"
    and "returns (havoc_arith8 op8 (fm, tlen, s)) (havoc_inv B s0)"
    and "returns (havoc_arith16 op16 (fm, tlen, s)) (havoc_inv B s0)"
    and "returns (havoc_arith32 op32 (fm, tlen, s)) (havoc_inv B s0)"
    and "returns (havoc_xor (fm, tlen, s)) (havoc_inv B s0)"
proof -
  have h: "1 \<le> tlen" "tlen \<le> length fm" "length fm \<le> B" "tape_of s0 s" using assms(1) by (simp_all add: havoc_inv_def)
  note s = interesting_8_def interesting_16_def interesting_32_def INTERESTING_8_def INTERESTING_16_def
    INTERESTING_32_def ARITH_MAX_def
  show "returns (havoc_flip (fm, tlen, s)) (havoc_inv B s0)"
    "returns (havoc_interesting8 (fm, tlen, s)) (havoc_inv B s0)"
    "returns (havoc_interesting16 (fm, tlen, s)) (havoc_inv B s0)"
    "returns (havoc_interesting32 (fm, tlen, s)) (havoc_inv B s0)"
    "returns (havoc_arith8 op8 (fm, tlen, s)) (havoc_inv B s0)"
    "returns (havoc_arith16 op16 (fm, tlen, s)) (havoc_inv B s0)"
    "returns (havoc_arith32 op32 (fm, tlen, s)) (havoc_inv B s0)"
    "returns (havoc_xor (fm, tlen, s)) (havoc_inv B s0)"
    unfolding havoc_defs prod.case Let_def
    by (rule ret_rules returns_Some | (use h assms(2) in \<open>simp add: havoc_inv_def s\<close>; fail))+
qed

lemma returns_fill_byte [ret_rules]:
  assumes "1 \<le> tlen" and "tlen \<le> length fm" and "length fm < 2 ^ 32"
    and "\<And>v t. returns (f (v, with_tape t s)) P"
  shows "returns (fill_byte (fm, tlen, s) \<bind> f) P"
proof (rule returns_bind [where P = "\<lambda>(v, s'). \<exists>t. s' = with_tape t s"])
  show "returns (fill_byte (fm, tlen, s)) (\<lambda>(v, s'). \<exists>t. s' = with_tape t s)"
    unfolding fill_byte_def prod.case Let_def
    by (rule ret_rules returns_Some | (use assms(1-3) in \<open>auto\<close>; fail))+
qed (use assms(4) in auto)

lemma returns_choose_extra [ret_rules]:
  assumes "pointedToken s \<noteq> [] \<or> autoToken s \<noteq> []" and "\<And>x t. returns (f (x, with_tape t s)) P"
  shows "returns (choose_extra s \<bind> f) P"
proof -
  let ?die = "if pointedToken s = [] then (True, s)
      else if autoToken s \<noteq> [] then let (c, s) = rnd 2 s in (c \<noteq> 0, s) else (False, s)"
  obtain a t where die: "?die = (a, with_tape t s)" and a: "(if a then autoToken s else pointedToken s) \<noteq> []"
  proof -
    obtain c t where c: "rnd 2 s = (c, with_tape t s)" using rnd_draws by blast
    show thesis
    proof (cases "pointedToken s = [] \<or> autoToken s = []")
      case True
      then show thesis
        using assms(1) that [of "pointedToken s = []" "rand_tape s"] by auto
    next
      case False
      then show thesis using that [of "c \<noteq> 0" t] c by simp
    qed
  qed
  define tokens where "tokens = (if a then autoToken s else pointedToken s)"
  have "0 < length tokens" using a by (simp add: tokens_def)
  then obtain k u where k: "rnd (length tokens) (with_tape t s) = (k, with_tape u s)" "k < length tokens"
    using rnd_bound [of "length tokens" "with_tape t s"] unfolding with_tape_simps by blast
  have "choose_extra s = Some (fst (tokens ! k), with_tape u s)"
    unfolding choose_extra_def die using k by (cases a) (simp_all add: get_byte_def tokens_def)
  then show ?thesis using assms(2) by simp
qed

lemma case_case3: "(case (case p of (a, b) \<Rightarrow> g a b) of (x, y, z) \<Rightarrow> f x y z) = (case p of (a, b) \<Rightarrow> case g a b of (x, y, z) \<Rightarrow> f x y z)"
  by (cases p) simp

lemma case_if3: "(case (if c then u else v) of (x, y, z) \<Rightarrow> f x y z) =
    (if c then (case u of (x, y, z) \<Rightarrow> f x y z) else (case v of (x, y, z) \<Rightarrow> f x y z))"
  by simp

lemma bind_if: "(if c then m else m') \<bind> f = (if c then m \<bind> f else (m' \<bind> f))" for m :: "'a option"
  by simp

lemma havoc_resize:
  assumes "havoc_inv B s0 (fm, tlen, s)" and "B < 2 ^ 29" and "MAX_FILE_LEN \<le> B"
  shows "returns (havoc_delete (fm, tlen, s)) (havoc_inv B s0)"
    and "returns (havoc_copy (fm, tlen, s)) (havoc_inv B s0)"
    and "returns (havoc_clone (fm, tlen, s)) (havoc_inv B s0)"
proof -
  have h: "1 \<le> tlen" "tlen \<le> length fm" "length fm \<le> B" "tape_of s0 s" using assms(1) by (simp_all add: havoc_inv_def)
  show "returns (havoc_delete (fm, tlen, s)) (havoc_inv B s0)"
    unfolding havoc_delete_def prod.case Let_def
    by (rule ret_rules returns_Some | (use h assms(2,3) in \<open>auto simp: havoc_inv_def\<close>; fail))+
  show "returns (havoc_copy (fm, tlen, s)) (havoc_inv B s0)"
    unfolding havoc_copy_def prod.case Let_def
    by (rule ret_rules returns_Some | (use h assms(2,3) in \<open>auto simp: havoc_inv_def\<close>; fail))+
  have sum: "length xs + length ys + length zs = tlen + n" "tlen + n \<le> B"
    if "tlen + HAVOC_BLK_XL < MAX_FILE_LEN" "length xs = k" "length ys = n" "length zs = tlen - k" "k < tlen"
      "n \<le> HAVOC_BLK_XL" for xs ys zs :: "u8 list" and k n
    using that assms(3) by simp_all
  show "returns (havoc_clone (fm, tlen, s)) (havoc_inv B s0)"
    unfolding havoc_clone_def prod.case Let_def case_if3 case_case3 bind_if Option.bind_assoc
    by (rule ret_rules returns_Some | (use h assms(2,3) in \<open>auto simp: havoc_inv_def HAVOC_BLK_XL_def MAX_FILE_LEN_def\<close>; fail))+
qed

lemma havoc_tokens:
  assumes "havoc_inv B s0 (fm, tlen, s)" and "B < 2 ^ 29" and "MAX_FILE_LEN \<le> B"
    and "pointedToken s0 \<noteq> [] \<or> autoToken s0 \<noteq> []"
  shows "returns (havoc_overwrite (fm, tlen, s)) (havoc_inv B s0)"
    and "returns (havoc_insert (fm, tlen, s)) (havoc_inv B s0)"
proof -
  have h: "1 \<le> tlen" "tlen \<le> length fm" "length fm \<le> B" "tape_of s0 s" using assms(1) by (simp_all add: havoc_inv_def)
  note t = tape_of_fields [OF h(4)]
  show "returns (havoc_overwrite (fm, tlen, s)) (havoc_inv B s0)"
    unfolding havoc_overwrite_def prod.case Let_def
    by (rule ret_rules returns_Some | (use h t assms in \<open>auto simp: havoc_inv_def\<close>; fail))+
  show "returns (havoc_insert (fm, tlen, s)) (havoc_inv B s0)"
    unfolding havoc_insert_def prod.case Let_def
    by (rule ret_rules returns_Some | (use h t assms in \<open>auto simp: havoc_inv_def\<close>; fail))+
qed

text \<open>Every mutation returns and keeps the test case non-empty and within its buffer.\<close>

lemma havoc_mutate_returns:
  assumes inv: "havoc_inv B s0 st" and B: "B < 2 ^ 29" "MAX_FILE_LEN \<le> B"
  shows "returns (havoc_mutate st) (havoc_inv B s0)"
proof -
  obtain fm tlen s where st: "st = (fm, tlen, s)" by (cases st)
  have t: "tape_of s0 s" using inv by (simp add: st havoc_inv_def)
  define n :: nat where "n = 15 + (if length (pointedToken s) + length (autoToken s) \<noteq> 0 then 2 else 0)"
  have "0 < n" by (simp add: n_def)
  then obtain k u where k: "rnd n s = (k, with_tape u s)" "k < n" using rnd_bound by blast
  have inv': "havoc_inv B s0 (fm, tlen, with_tape u s)" using inv by (simp add: st havoc_inv_def)
  have "n = 15 \<or> pointedToken s0 \<noteq> [] \<or> autoToken s0 \<noteq> []"
    using tape_of_fields [OF t] by (simp add: n_def)
  then have "k < 15 \<or> pointedToken s0 \<noteq> [] \<or> autoToken s0 \<noteq> []" using k(2) by blast
  moreover have "returns (havoc_case k (fm, tlen, with_tape u s)) (havoc_inv B s0)" if "k < 15"
    using that havoc_in_place [OF inv' B(1)] havoc_resize [OF inv' B] inv' by (simp add: havoc_case_def returns_Some)
  moreover have "returns (havoc_case k (fm, tlen, with_tape u s)) (havoc_inv B s0)"
    if "\<not> k < 15" "pointedToken s0 \<noteq> [] \<or> autoToken s0 \<noteq> []"
    using that havoc_tokens [OF inv' B] inv' by (simp add: havoc_case_def returns_Some)
  ultimately show ?thesis unfolding havoc_mutate_def st prod.case n_def [symmetric] k(1) Let_def by blast
qed

section \<open>Havoc and Splice keep the contract of a stage\<close>

lemma stage_rel_with_tape [simp]: "stage_rel E n s0 (with_tape t s) = stage_rel E n s0 s"
  by (simp add: with_tape_def)

lemma tape_of_stage: "stage_rel E n s0 s \<Longrightarrow> tape_of s s' \<Longrightarrow> stage_rel E n s0 s'"
  by (auto simp: tape_of_def)

lemma havoc_stack_returns:
  assumes "1 \<le> len" and "len \<le> length fm" and "length fm \<le> B" and "B < 2 ^ 29" and "MAX_FILE_LEN \<le> B"
  shows "returns (foldM (\<lambda>_. havoc_mutate) xs (fm, len, s)) (havoc_inv B s)"
  by (rule returns_foldM, rule havoc_mutate_returns) (use assms in \<open>simp_all add: havoc_inv_def\<close>)

lemma restore_buffer:
  assumes "1 \<le> len" and "length orig = len" and "tlen \<le> length fm" and "length fm \<le> B" and "len \<le> B"
  shows "\<exists>fm'. mem_write 0 orig (if tlen < len then replicate len 0 else fm) = Some fm' \<and>
    take len fm' = orig \<and> len \<le> length fm' \<and> length fm' \<le> B"
  using assms by (auto simp: mem_write_def)

lemma returns_ensures: "returns m P \<Longrightarrow> ensures m P"
  by (auto simp: returns_def ensures_def)

lemma havoc_loop_stage:
  assumes "stage_rel E n s0 s" and len: "1 \<le> len" "length orig = len" and B: "len \<le> B" "B < 2 ^ 29" "MAX_FILE_LEN \<le> B"
    and "take len fm = orig" "len \<le> length fm" "length fm \<le> B"
  shows "ensures (havoc_loop E len orig i ht qi fm s)
    (\<lambda>(r, fm', s'). r = 0 \<and> take len fm' = orig \<and> len \<le> length fm' \<and> length fm' \<le> B \<and> stage_rel E n s0 s')"
  using assms(1,7-9)
proof (induction "max ht 254 - i" arbitrary: i ht qi fm s rule: less_induct)
  case less
  show ?case
  proof (cases "i < ht")
    case False
    then show ?thesis using less.prems by (subst havoc_loop.simps) (simp add: ensures_Some)
  next
    case True
    obtain m u where m: "rnd HAVOC_STACK_POW2 s = (m, with_tape u s)" using rnd_draws by blast
    obtain x where x: "foldM (\<lambda>_. havoc_mutate) [0..<2 ^ (1 + m)] (fm, len, with_tape u s) = Some x"
      "havoc_inv B (with_tape u s) x"
      using havoc_stack_returns [OF len(1) less.prems(3,4) B(2,3)] unfolding returns_def by blast
    obtain fm1 tlen s1 where x_eq: "x = (fm1, tlen, s1)" by (cases x)
    note stack = x(1) [unfolded x_eq] and inv = x(2) [unfolded x_eq]
    have b1: "tlen \<le> length fm1" "length fm1 \<le> B" "stage_rel E n s0 s1"
      using inv less.prems(1) tape_of_stage [of E n s0 "with_tape u s" s1] by (simp_all add: havoc_inv_def)
    obtain fm2 where fm2: "mem_write 0 orig (if tlen < len then replicate len 0 else fm1) = Some fm2"
      "take len fm2 = orig" "len \<le> length fm2" "length fm2 \<le> B"
      using restore_buffer [OF len b1(1,2) B(1)] by blast
    have dec: "max (next_havoc_time ht q1 q2) 254 - (i + 1) < max ht 254 - i" for q1 q2
      using True by (auto simp: next_havoc_time_def HAVOC_CYCLES_INIT_def HAVOC_MAX_MULT_def)
    have "havoc_loop E len orig i ht qi fm s = FuzzUnit E fm1 tlen None None s1 \<bind> (\<lambda>(r, s).
        if r \<noteq> 0 then Some (1, fm1, s)
        else havoc_loop E len orig (i + 1) (next_havoc_time ht qi (to_u32 (length (queue s)))) (to_u32 (length (queue s))) fm2 s)"
      unfolding havoc_loop.simps [of E len orig i ht qi fm s] m Let_def prod.case stack bind.bind_lunit fm2(1)
      using True by (simp only: not_True_eq_False if_False)
    moreover have "ensures (FuzzUnit E fm1 tlen None None s1 \<bind> (\<lambda>(r, s).
        if r \<noteq> 0 then Some (1, fm1, s)
        else havoc_loop E len orig (i + 1) (next_havoc_time ht qi (to_u32 (length (queue s)))) (to_u32 (length (queue s))) fm2 s))
      (\<lambda>(r, fm', s'). r = 0 \<and> take len fm' = orig \<and> len \<le> length fm' \<and> length fm' \<le> B \<and> stage_rel E n s0 s')"
      (is "ensures (_ \<bind> ?k) ?P")
    proof (rule ensures_bind_pair [OF FuzzUnit_stage [OF b1(3)]])
      fix r :: nat and s' assume "r = 0 \<and> stage_rel E n s0 s'"
      then show "ensures (?k (r, s')) ?P"
        using less.hyps [OF dec _ fm2(2-4)] by (simp only: prod.case if_False simp_thms)
    qed
    ultimately show ?thesis by (simp only:)
  qed
qed

lemma Havoc_stage:
  assumes rel: "stage_rel E n s0 s" and len: "0 < len" "len \<le> length fm" "length fm < 2 ^ 29"
  shows "ensures (Havoc E cycles len (fm, s))
    (\<lambda>(r, fm', s'). r = 0 \<and> take len fm' = take len fm \<and> len \<le> length fm' \<and> length fm' < 2 ^ 29 \<and> stage_rel E n s0 s')"
proof -
  let ?B = "max (length fm) MAX_FILE_LEN"
  have B: "len \<le> ?B" "?B < 2 ^ 29" "MAX_FILE_LEN \<le> ?B" "1 \<le> len" using len by (auto simp: MAX_FILE_LEN_def)
  have orig: "mem_read 0 len fm = Some (take len fm)" "length (take len fm) = len" using len by (simp_all add: mem_read_def)
  note loop = havoc_loop_stage [OF rel B(4) orig(2) B(1-3) refl len(2), of 0]
  show ?thesis
    unfolding Havoc_def prod.case orig(1) bind.bind_lunit
    by (rule ensures_bind_triple [OF loop]) (use B(2) in \<open>auto simp: ensures_Some print_result_stage\<close>)
qed

text \<open>Without assumptions on the buffer, a mutation that returns has changed the tape only.\<close>

lemma ensures_rnd:
  assumes "\<And>r t. ensures (f r (with_tape t s)) P"
  shows "ensures (case rnd d s of (r, s') \<Rightarrow> f r s') P"
  using rnd_draws [of d s] assms by simp

lemma choose_block_len_tape: "\<exists>b t. choose_block_len limit s = (b, with_tape t s)"
proof -
  have draw: "\<exists>r t. rnd d (with_tape u s) = (r, with_tape t s)" for d u using rnd_draws [of d "with_tape u s"] by auto
  obtain c t where c: "rnd (min (queueCycle s) 3) s = (c, with_tape t s)" using rnd_draws by blast
  obtain b u where b: "rnd 10 (with_tape t s) = (b, with_tape u s)" using draw by blast
  let ?m = "\<lambda>x. if to_u32 limit \<le> x then 1 else x"
  have "\<exists>lo hi v. choose_block_len limit s =
      (let (r, s') = rnd (usub32 (min hi (to_u32 limit)) (?m lo) + 1) (with_tape v s) in (to_u32 (?m lo + r), s'))"
    unfolding choose_block_len_def Let_def c prod.case b
    by (cases "c = 0"; cases "c = 1"; cases "b = 0") (simp only: if_True if_False prod.case simp_thms b; blast)+
  then obtain lo hi v where "choose_block_len limit s =
      (let (r, s') = rnd (usub32 (min hi (to_u32 limit)) (?m lo) + 1) (with_tape v s) in (to_u32 (?m lo + r), s'))"
    by blast
  moreover obtain r t' where "rnd (usub32 (min hi (to_u32 limit)) (?m lo) + 1) (with_tape v s) = (r, with_tape t' s)"
    using draw by blast
  ultimately show ?thesis by (auto simp only: Let_def prod.case)
qed

lemma ensures_choose_block_len:
  assumes "\<And>b t. ensures (f b (with_tape t s)) P"
  shows "ensures (case choose_block_len limit s of (b, s') \<Rightarrow> f b s') P"
  using choose_block_len_tape [of limit s] assms by auto

lemma ensures_read: "(\<And>x. ensures (f x) P) \<Longrightarrow> ensures (m \<bind> f) P"
  by (auto simp: ensures_def bind_eq_Some_conv)

lemma ensures_fill_byte:
  assumes "\<And>v t. ensures (f (v, with_tape t s)) P"
  shows "ensures (fill_byte (fm, tlen, s) \<bind> f) P"
proof (rule ensures_bind [where P = "\<lambda>(v, s'). \<exists>t. s' = with_tape t s"])
  show "ensures (fill_byte (fm, tlen, s)) (\<lambda>(v, s'). \<exists>t. s' = with_tape t s)"
    unfolding fill_byte_def prod.case Let_def
    by (rule ensures_rnd ensures_if ensures_read ensures_Some | auto; fail)+
qed (use assms in auto)

lemma ensures_choose_extra:
  assumes "\<And>x t. ensures (f (x, with_tape t s)) P"
  shows "ensures (choose_extra s \<bind> f) P"
proof (rule ensures_bind [where P = "\<lambda>(x, s'). \<exists>t. s' = with_tape t s"])
  have die: "ensures (case (if pointedToken s = [] then (True, s)
      else if autoToken s \<noteq> [] then case rnd 2 s of (c, s) \<Rightarrow> (c \<noteq> 0, s) else (False, s)) of (a, s) \<Rightarrow> g (a, s)) Q"
    if "\<And>a t. ensures (g (a, with_tape t s)) Q" for g :: "bool \<times> fuzzer \<Rightarrow> (u8 list \<times> fuzzer) option" and Q
    using that [of True "rand_tape s"] that [of False "rand_tape s"] that rnd_draws [of 2 s]
    by (cases "pointedToken s = []"; cases "autoToken s = []") simp_all
  show "ensures (choose_extra s) (\<lambda>(x, s'). \<exists>t. s' = with_tape t s)"
    unfolding choose_extra_def Let_def
    by (rule die [of "\<lambda>(a, s). case rnd (length (if a then autoToken s else pointedToken s)) s of
          (use_extra, sa) \<Rightarrow> get_byte use_extra (if a then autoToken s else pointedToken s) \<bind> (\<lambda>token. Some (fst token, sa))",
          unfolded prod.case])
      (rule ensures_rnd ensures_read ensures_Some | auto; fail)+
qed (use assms in auto)

lemma ensures_Some_bind: "ensures (f x) P \<Longrightarrow> ensures (Some x \<bind> f) P"
  by simp

lemma ensures_case_bind: "ensures (f a b \<bind> g) P \<Longrightarrow> ensures ((case (a, b) of (x, y) \<Rightarrow> f x y) \<bind> g) P"
  by simp

lemmas havoc_tape_rules = ensures_Some_bind ensures_case_bind ensures_rnd ensures_choose_block_len ensures_fill_byte ensures_choose_extra ensures_if
  ensures_case_prod ensures_Some ensures_read

definition tape_only :: "fuzzer \<Rightarrow> havoc_state \<Rightarrow> bool" where
  "tape_only s0 = (\<lambda>(fm, tlen, s). tape_of s0 s)"

lemma havoc_case_tape:
  assumes "tape_of s0 s"
  shows "ensures (havoc_case k (fm, tlen, s)) (tape_only s0)"
proof -
  have "ensures (f (fm, tlen, s)) (tape_only s0)"
    if "f \<in> {havoc_flip, havoc_interesting8, havoc_interesting16, havoc_interesting32, havoc_arith8 (-), havoc_arith8 (+),
        havoc_arith16 (-), havoc_arith16 (+), havoc_arith32 (-), havoc_arith32 (+), havoc_xor, havoc_delete,
        havoc_copy, havoc_overwrite, havoc_insert, Some}" for f
    using that unfolding insert_iff empty_iff
    by (elim disjE; simp only: havoc_defs havoc_delete_def havoc_copy_def havoc_overwrite_def havoc_insert_def prod.case Let_def)
      (rule havoc_tape_rules | (use assms in \<open>simp add: tape_only_def\<close>; fail))+
  moreover have "ensures (havoc_clone (fm, tlen, s)) (tape_only s0)"
    unfolding havoc_clone_def prod.case Let_def case_if3 case_case3 bind_if Option.bind_assoc
    by (rule havoc_tape_rules | (use assms in \<open>simp add: tape_only_def\<close>; fail))+
  ultimately show ?thesis by (simp add: havoc_case_def)
qed

lemma havoc_stack_tape:
  "ensures (foldM (\<lambda>_. havoc_mutate) xs (fm, tlen, s)) (tape_only s)"
proof (rule ensures_foldM)
  fix st assume "tape_only s st"
  then obtain fm tlen s1 where st: "st = (fm, tlen, s1)" "tape_of s s1" by (cases st) (simp add: tape_only_def)
  show "ensures (havoc_mutate st) (tape_only s)"
    unfolding havoc_mutate_def st(1) prod.case Let_def
    by (rule ensures_rnd, rule havoc_case_tape) (simp add: st(2))
qed (simp add: tape_only_def)

lemma havoc_loop_rel:
  assumes "stage_rel E n s0 s"
  shows "ensures (havoc_loop E len orig i ht qi fm s) (\<lambda>(r, fm', s'). r = 0 \<and> stage_rel E n s0 s')"
  using assms
proof (induction "max ht 254 - i" arbitrary: i ht qi fm s rule: less_induct)
  case less
  have dec: "max (next_havoc_time ht q1 q2) 254 - (i + 1) < max ht 254 - i" if "i < ht" for q1 q2
    using that by (auto simp: next_havoc_time_def HAVOC_CYCLES_INIT_def HAVOC_MAX_MULT_def)
  have stack: "ensures (foldM (\<lambda>_. havoc_mutate) xs (fm, len, with_tape t s)) (\<lambda>(fm', tlen, s'). stage_rel E n s0 s')" for xs t
    by (rule ensures_weaken [OF havoc_stack_tape])
      (use less.prems tape_of_stage [of E n s0 "with_tape t s"] in \<open>auto simp: tape_only_def\<close>)
  show ?case
    unfolding havoc_loop.simps [of E len orig i ht qi fm s] Let_def
    apply (rule ensures_if)
     apply (simp add: ensures_Some less.prems)
    apply (rule ensures_rnd, rule ensures_bind_triple [OF stack], simp only: prod.case)
    apply (rule ensures_bind_pair [OF FuzzUnit_stage], assumption, simp only: prod.case)
    apply (elim conjE, hypsubst, simp only: if_False simp_thms not_False_eq_True)
    apply (rule ensures_read, rule less.hyps [OF dec], simp, assumption)
    done
qed

lemma Havoc_rel:
  assumes "stage_rel E n s0 s"
  shows "ensures (Havoc E cycles len (fm, s)) (\<lambda>(r, fm', s'). r = 0 \<and> stage_rel E n s0 s')"
  unfolding Havoc_def prod.case
  by (rule ensures_read, rule ensures_bind_triple [OF havoc_loop_rel [OF assms]])
    (simp add: ensures_Some print_result_stage)

interpretation havoc: fuzz_stage "\<lambda>E. Havoc E cycles" for cycles
  by unfold_locales (rule Havoc_rel, assumption, rule Havoc_stage)

section \<open>Splice\<close>

lemma pick_other_result:
  assumes "pick_other q s = Some x"
  shows "fst x \<noteq> q \<and> tape_of s (snd x)"
  using assms
proof (rule pick_other.raw_induct [rotated], goal_cases)
  case (1 pick q s x)
  obtain k t where k: "rnd (length (queue s)) s = (k, with_tape t s)" using rnd_draws by blast
  show ?case
  proof (cases "k = q")
    case True
    then have "fst x \<noteq> q \<and> tape_of (with_tape t s) (snd x)" using 1(1) [of q "with_tape t s" x] 1(2) k by simp
    then show ?thesis by (auto simp: tape_of_def)
  next
    case False
    then show ?thesis using 1(2) k by auto
  qed
qed

definition can_read :: "fuzz_env \<Rightarrow> fuzzer \<Rightarrow> bool" where
  "can_read E s \<longleftrightarrow> \<not> prefix (outputDir E) (testfile E) \<and> queue_files_ok E s \<and> (\<forall>f. io_ok E f)"

lemma can_read_stage: "can_read E s \<Longrightarrow> stage_rel E n s s' \<Longrightarrow> can_read E s'"
  by (simp add: can_read_def stage_rel_def)

lemma can_read_file:
  assumes "can_read E s" and "k < length (queue s)"
  shows "\<exists>c. files s (fileName (queue s ! k)) = Some c \<and> length c = fileLen (queue s ! k)"
  using assms unfolding can_read_def queue_files_ok_iff by (meson nth_mem)

lemma next_long_bound: "next_long qs j = Some k \<Longrightarrow> k < length qs"
  by (auto simp: next_long_def find_Some_iff)

lemma splice_step_rel:
  assumes "stage_rel E n s0 s"
  shows "ensures (splice_step E q len fm s) (\<lambda>(r, s'). stage_rel E n s0 s' \<and> (can_read E s0 \<longrightarrow> r = 0))"
proof -
  have pick: "ensures (pick_other q s) (\<lambda>(k, s'). stage_rel E n s0 s')"
    using pick_other_result tape_of_stage [OF assms] by (fastforce simp: ensures_def)
  show ?thesis
    unfolding splice_step_def
  proof (rule ensures_bind_pair [OF pick], unfold prod.case, rule ensures_case_option)
    fix j s1 k
    assume rel: "stage_rel E n s0 s1" and k: "next_long (queue s1) j = Some k"
    let ?name = "fileName (queue s1 ! k)" and ?flen = "fileLen (queue s1 ! k)"
    have there: "\<exists>c. files s1 ?name = Some c \<and> length c = ?flen" if "can_read E s0"
      using can_read_file [OF can_read_stage [OF that rel] next_long_bound [OF k]] .
    have io: "io_ok E f" if "can_read E s0" for f using that by (simp add: can_read_def)
    show "ensures (let name = ?name; flen = ?flen in case files s1 name of None \<Rightarrow> Some (1, s1)
        | Some contents \<Rightarrow> if \<not> io_ok E name \<or> length contents < flen then Some (1, s1)
            else do {
              let other_buf = take flen contents;
              (f_diff, l_diff) \<leftarrow> locate_diffs fm other_buf (to_u32 (min len flen));
              if f_diff < 0 \<or> l_diff < 2 \<or> f_diff = l_diff then Some (0, s1)
              else do {
                let (r, s) = rnd (nat (l_diff - f_diff)) s1;
                let splice_at = nat f_diff + r;
                head \<leftarrow> mem_read 0 splice_at fm;
                other_buf \<leftarrow> mem_write 0 head other_buf;
                (r, _, s) \<leftarrow> Havoc E SPLICE_HAVOC flen (other_buf, s);
                Some (r, s) } }) (\<lambda>(r, s'). stage_rel E n s0 s' \<and> (can_read E s0 \<longrightarrow> r = 0))"
      unfolding Let_def
      apply (rule ensures_case_option)
       apply (use rel there in \<open>force simp: ensures_def\<close>)
      apply (rule ensures_if)
       apply (use rel there io in \<open>force simp: ensures_def\<close>)[1]
      apply (rule ensures_bind_pair [where P = "\<lambda>_ _. True"], simp add: ensures_def, unfold prod.case)
      apply (rule ensures_if, simp add: ensures_Some rel)
      apply (rule ensures_rnd, rule ensures_read, rule ensures_read)
      apply (rule ensures_bind_triple [OF Havoc_rel [where n = n and ?s0.0 = s0]])
       apply (simp_all add: rel ensures_Some)
      done
  qed (simp add: ensures_Some)
qed

lemma Splice_rel:
  assumes "stage_rel E n s0 s"
  shows "ensures (Splice E q len (fm, s)) (\<lambda>(r, fm', s'). fm' = fm \<and> stage_rel E n s0 s' \<and> (can_read E s0 \<longrightarrow> r = 0))"
proof -
  have loop: "ensures (stageM (\<lambda>_. splice_step E q len fm) xs s) (\<lambda>(r, s'). stage_rel E n s0 s' \<and> (can_read E s0 \<longrightarrow> r = 0))" for xs :: "nat list"
    using assms
  proof (induction xs arbitrary: s)
    case (Cons x xs)
    show ?case
      unfolding stageM.simps
      by (rule ensures_bind_pair [OF splice_step_rel [OF Cons.prems]], unfold prod.case, rule ensures_if)
        (auto simp: ensures_def dest: ensuresD [OF Cons.IH])
  qed (simp add: ensures_Some)
  show ?thesis
    unfolding Splice_def prod.case
    by (rule ensures_if, simp add: ensures_Some assms, rule ensures_bind_pair [OF loop])
      (auto simp: ensures_Some print_result_stage)
qed

text \<open>
  C17: no stack of random mutations leaves the buffer.  Started on a test case that is not
  empty, any number of them returns, the test case stays non-empty and within its allocation,
  it does not outgrow the size limit, and of the state only the random numbers are used up.
\<close>

theorem havoc_stack_stays_in_buffer:
  assumes "1 \<le> len" and "len \<le> length fm" and "length fm < 2 ^ 29"
  shows "\<exists>fm' temp_len s'. foldM (\<lambda>_. havoc_mutate) [0..<k] (fm, len, s) = Some (fm', temp_len, s') \<and>
    1 \<le> temp_len \<and> temp_len \<le> length fm' \<and> length fm' \<le> max (length fm) MAX_FILE_LEN \<and> tape_of s s'"
proof -
  have "max (length fm) MAX_FILE_LEN < 2 ^ 29" using assms(3) by (simp add: MAX_FILE_LEN_def)
  then have "returns (foldM (\<lambda>_. havoc_mutate) [0..<k] (fm, len, s)) (havoc_inv (max (length fm) MAX_FILE_LEN) s)"
    by (intro havoc_stack_returns assms(1,2)) simp_all
  then obtain x where x: "foldM (\<lambda>_. havoc_mutate) [0..<k] (fm, len, s) = Some x"
    "havoc_inv (max (length fm) MAX_FILE_LEN) s x" unfolding returns_def by blast
  obtain fm' temp_len s' where "x = (fm', temp_len, s')" by (cases x)
  then show ?thesis using x by (simp add: havoc_inv_def)
qed

theorem havoc_stack_stays_in_buffer_witness:
  "\<exists>fm' temp_len s'. foldM (\<lambda>_. havoc_mutate) [0..<100] ([1, 2, 3], 3, one_seed) = Some (fm', temp_len, s') \<and>
    1 \<le> temp_len \<and> temp_len \<le> length fm' \<and> tape_of one_seed s'"
  using havoc_stack_stays_in_buffer [of 3 "[1, 2, 3]" 100 one_seed] by auto

text \<open>The differences found so far, as the loop of \<open>locate_diffs\<close> keeps them.\<close>

definition diffs_of :: "u8 list \<Rightarrow> u8 list \<Rightarrow> nat \<Rightarrow> int \<times> int \<Rightarrow> bool" where
  "diffs_of xs ys n = (\<lambda>(f, l).
     (f = -1 \<and> l = -1 \<and> (\<forall>i < n. xs ! i = ys ! i)) \<or>
     (0 \<le> f \<and> f \<le> l \<and> l < int n \<and> xs ! nat f \<noteq> ys ! nat f \<and> xs ! nat l \<noteq> ys ! nat l \<and>
      (\<forall>i < nat f. xs ! i = ys ! i) \<and> (\<forall>i. nat l < i \<longrightarrow> i < n \<longrightarrow> xs ! i = ys ! i)))"

lemma diffs_of_step:
  assumes "diffs_of xs ys n (f, l)"
  shows "diffs_of xs ys (Suc n)
    (if xs ! n \<noteq> ys ! n then (if f = -1 then int n else f, int n) else (f, l))"
  using assms by (auto simp: diffs_of_def less_Suc_eq)

text \<open>
  \<open>locate_diffs\<close> finds the first and the last position at which two buffers differ, and
  reports \<open>-1\<close> for both exactly when they agree.
\<close>

theorem locate_diffs_exact:
  assumes "len \<le> length p1" and "len \<le> length p2"
  shows "\<exists>f l. locate_diffs p1 p2 len = Some (f, l) \<and> diffs_of p1 p2 len (f, l)"
proof -
  let ?step = "\<lambda>pos (f_loc :: int, l_loc). if take len p1 ! pos \<noteq> take len p2 ! pos
      then (if f_loc = -1 then int pos else f_loc, int pos) else (f_loc, l_loc)"
  have inv: "n \<le> len \<Longrightarrow> diffs_of p1 p2 n (fold ?step [0..<n] (-1, -1))" for n
  proof (induction n)
    case 0
    then show ?case by (simp add: diffs_of_def)
  next
    case (Suc n)
    obtain f l where fl: "fold ?step [0..<n] (-1, -1) = (f, l)" by (cases "fold ?step [0..<n] (-1, -1)")
    then show ?case using Suc diffs_of_step [of p1 p2 n f l] by simp
  qed
  have "locate_diffs p1 p2 len = Some (fold ?step [0..<len] (-1, -1))"
    using assms by (simp add: locate_diffs_def mem_read_def)
  then show ?thesis using inv [of len] by (cases "fold ?step [0..<len] (-1, -1)") simp
qed

theorem locate_diffs_exact_witness:
  "\<exists>f l. locate_diffs [1, 2, 3, 4] [1, 9, 3, 8] 4 = Some (f, l) \<and> diffs_of [1, 2, 3, 4] [1, 9, 3, 8] 4 (f, l)"
  by (rule locate_diffs_exact) simp_all

lemma pick_other_step:
  assumes "to_u32 (length (queue s)) \<noteq> 0"
  shows "pick_other q s = (if rand_tape s 0 mod to_u32 (length (queue s)) = q
    then pick_other q (with_tape (\<lambda>n. rand_tape s (Suc n)) s)
    else Some (rand_tape s 0 mod to_u32 (length (queue s)), with_tape (\<lambda>n. rand_tape s (Suc n)) s))"
  using assms by (subst pick_other.simps) (simp add: rnd_draws randNum_def)

text \<open>
  The loop in which \<open>Splice\<close> looks for another seed ends exactly when some later random
  number denotes another seed; with one seed only, or a generator that repeats itself, it would
  run for ever.
\<close>

theorem pick_other_ends_iff:
  assumes "to_u32 (length (queue s)) \<noteq> 0"
  shows "pick_other q s \<noteq> None \<longleftrightarrow> (\<exists>j. rand_tape s j mod to_u32 (length (queue s)) \<noteq> q)"
proof
  assume "\<exists>j. rand_tape s j mod to_u32 (length (queue s)) \<noteq> q"
  then obtain j where "rand_tape s j mod to_u32 (length (queue s)) \<noteq> q" by blast
  then show "pick_other q s \<noteq> None"
    using assms
  proof (induction j arbitrary: s)
    case 0
    then show ?case by (simp add: pick_other_step)
  next
    case (Suc j)
    then show ?case using Suc.IH [of "with_tape (\<lambda>n. rand_tape s (Suc n)) s"]
      by (subst pick_other_step) (simp_all add: with_tape_def)
  qed
next
  assume "pick_other q s \<noteq> None"
  then obtain x where "pick_other q s = Some x" by blast
  then have "to_u32 (length (queue s)) \<noteq> 0 \<longrightarrow> (\<exists>j. rand_tape s j mod to_u32 (length (queue s)) \<noteq> q)"
  proof (rule pick_other.raw_induct [rotated], goal_cases)
    case (1 pick q s x)
    show ?case
    proof
      assume nz: "to_u32 (length (queue s)) \<noteq> 0"
      show "\<exists>j. rand_tape s j mod to_u32 (length (queue s)) \<noteq> q"
      proof (cases "rand_tape s 0 mod to_u32 (length (queue s)) = q")
        case True
        then have "pick q (with_tape (\<lambda>n. rand_tape s (Suc n)) s) = Some x"
          using 1(2) nz by (simp add: rnd_draws randNum_def)
        from 1(1) [OF this] nz show ?thesis by (auto simp: with_tape_def)
      qed blast
    qed
  qed
  then show "\<exists>j. rand_tape s j mod to_u32 (length (queue s)) \<noteq> q" using assms by blast
qed

theorem pick_other_ends_iff_witness:
  "pick_other 0 one_seed = None"
proof -
  have "to_u32 (length (queue one_seed)) = 1" "rand_tape one_seed = (\<lambda>_. 0)"
    by (simp_all add: one_seed_def initial_fuzzer_def)
  then have "\<not> pick_other 0 one_seed \<noteq> None" by (subst pick_other_ends_iff) simp_all
  then show ?thesis by blast
qed

end
