(* ===== verification/Fuzz_Main.thy ===== *)
theory Fuzz_Main
  imports Guided_Stages Token_Dictionary Havoc_Stage
begin

text \<open>
  \<open>FuzzMain\<close> (\<open>FuzzOne.cpp\<close>): whether a seed is skipped, loading it with its error list and
  control matrix, and the sequence of the stages.
\<close>

definition SKIP_TO_NEW_PROB :: nat where "SKIP_TO_NEW_PROB = 99"
definition SKIP_NFAV_OLD_PROB :: nat where "SKIP_NFAV_OLD_PROB = 95"
definition SKIP_NFAV_NEW_PROB :: nat where "SKIP_NFAV_NEW_PROB = 75"
definition FUZZING_NORMAL :: nat where "FUZZING_NORMAL = 0"
definition FUZZING_SKIP :: nat where "FUZZING_SKIP = 1"
definition FUZZING_ERROR :: nat where "FUZZING_ERROR = 2"
definition MIN_FILE_LEN_FOR_USEFUL :: nat where "MIN_FILE_LEN_FOR_USEFUL = 128"

section \<open>Skipping a seed\<close>

definition skip_with :: "nat \<Rightarrow> fuzzer \<Rightarrow> bool \<times> fuzzer" where
  "skip_with prob s = (let (r, s) = rnd 100 s in (r < prob, s))"

definition should_skip :: "seed \<Rightarrow> fuzzer \<Rightarrow> bool \<times> fuzzer" where
  "should_skip qCur s =
     (if pendFavor s then
        if wasFuzzed qCur \<or> \<not> favored qCur then skip_with SKIP_TO_NEW_PROB s else (False, s)
      else if \<not> favored qCur then
        if queueCycle s > 1 \<and> \<not> wasFuzzed qCur then skip_with SKIP_NFAV_NEW_PROB s
        else skip_with SKIP_NFAV_OLD_PROB s
      else (False, s))"

section \<open>Loading a seed\<close>

text \<open>
  Copying \<open>len\<close> bytes out of a private mapping of a file.  Mapping no bytes fails; behind the
  end of the file the rest of the last page of 4096 bytes reads as zeros, and the next page
  cannot be accessed.
\<close>

definition PAGE_SIZE :: nat where "PAGE_SIZE = 4096"

definition mmap_copy :: "nat \<Rightarrow> u8 list \<Rightarrow> u8 list option" where
  "mmap_copy len contents =
     (if len = 0 then None
      else let pages = (length contents + PAGE_SIZE - 1) div PAGE_SIZE
           in mem_read 0 len (contents @ replicate (pages * PAGE_SIZE - length contents) 0))"

definition load_seed :: "fuzz_env \<Rightarrow> seed \<Rightarrow> fuzzer \<Rightarrow> u8 list option" where
  "load_seed E qCur s =
     do {
       contents \<leftarrow> files s (fileName qCur);
       if io_ok E (fileName qCur) then mmap_copy (fileLen qCur) contents else None
     }"

definition load_error_list :: "fuzz_env \<Rightarrow> seed \<Rightarrow> fuzzer \<Rightarrow> u8 list option" where
  "load_error_list E qCur s =
     (if elistFileName qCur = [] then Some (replicate (length (errorList s)) 0)
      else ReadFile2Mem E (elistFileName qCur) (length (errorList s)) s)"

text \<open>The matrix elements in a block of memory, 16 bytes each.\<close>

fun matrix_of_bytes :: "u8 list \<Rightarrow> matrix_element list" where
  "matrix_of_bytes bs =
     (if length bs < 16 then []
      else \<lparr>hash_1 = le_word (take 8 bs), hash_2 = le_word (take 8 (drop 8 bs))\<rparr> # matrix_of_bytes (drop 16 bs))"

declare matrix_of_bytes.simps [simp del]

definition load_control_matrix :: "fuzz_env \<Rightarrow> seed \<Rightarrow> fuzzer \<Rightarrow> matrix_element list option" where
  "load_control_matrix E qCur s =
     (if control_matrix_file qCur = [] then Some (replicate (length (control_matrix s)) zero_element)
      else map_option matrix_of_bytes (ReadFile2Mem E (control_matrix_file qCur) (16 * length (control_matrix s)) s))"

section \<open>The stages\<close>

text \<open>
  The frame around a stage: the time it takes is read from the clock, and the average speed that
  is printed divides by it.  A stage that takes less than a microsecond divides by zero, which
  kills the process.  \<open>ShowTime\<close> reads the clock once more.
\<close>

definition time_stage ::
  "fuzz_env \<Rightarrow> bool \<Rightarrow> ('a \<times> fuzzer \<Rightarrow> (nat \<times> 'a \<times> fuzzer) option) \<Rightarrow> 'a \<times> fuzzer \<Rightarrow> (nat \<times> 'a \<times> fuzzer) option" where
  "time_stage E speed stage = (\<lambda>(x, s).
     do {
       let (time_start, s) = GetCurTimeUs s;
       (r, x, s) \<leftarrow> stage (x, s);
       if r \<noteq> 0 then Some (FUZZING_ERROR, x, s)
       else do {
         let (time_end, s) = GetCurTimeUs s;
         if speed \<and> usub64 time_end time_start = 0 then None
         else let (_, s) = GetTimeStr E s in Some (0, x, s)
       }
     })"

text \<open>
  After the fault injection stage the shared error list is restored.  After the delay insertion
  stage \<open>MAX_LIST_SIZE * sizeof(u32)\<close> bytes are copied back to the control matrix, a size
  that belongs to an earlier kind of list; copying more bytes than the matrix has leaves both
  blocks.
\<close>

definition fault_stage :: "fuzz_env \<Rightarrow> nat \<Rightarrow> u8 list \<times> u8 list \<times> fuzzer \<Rightarrow> (nat \<times> u8 list \<times> u8 list \<times> fuzzer) option" where
  "fault_stage E len = (\<lambda>(filemap, error_list, s).
     if NO_FUZZING_ERROR E then Some (0, filemap, error_list, s)
     else do {
       (r, error_list, s) \<leftarrow> time_stage E True (\<lambda>(el, s). ErrorListMutate E len filemap el s) (error_list, s);
       Some (r, filemap, error_list, if r \<noteq> 0 then s else s\<lparr>errorList := error_list\<rparr>)
     })"

definition restore_control_matrix :: "matrix_element list \<Rightarrow> fuzzer \<Rightarrow> fuzzer option" where
  "restore_control_matrix cm s =
     (let bytes = 4 * length (errorList s)
      in if bytes > 16 * length cm \<or> bytes > 16 * length (control_matrix s) then None
         else Some (s\<lparr>control_matrix :=
           matrix_of_bytes (take bytes (matrix_bytes cm) @ drop bytes (matrix_bytes (control_matrix s)))\<rparr>))"

definition delay_stage :: "fuzz_env \<Rightarrow> nat \<Rightarrow> u8 list \<Rightarrow> matrix_element list \<Rightarrow> fuzzer \<Rightarrow> (nat \<times> fuzzer) option" where
  "delay_stage E len filemap cm s =
     (if NO_CONCURRENCY_FUZZ E then Some (0, s)
      else do {
        (r, _, s) \<leftarrow> time_stage E True
          (\<lambda>(_, s). map_option (\<lambda>(r, s). (r, (), s)) (control_matrix_mutate E len filemap cm s)) ((), s);
        if r \<noteq> 0 then Some (r, s)
        else do { s \<leftarrow> restore_control_matrix cm s; Some (0, s) }
      })"

definition bit_flips :: "fuzz_env \<Rightarrow> nat \<Rightarrow> nat \<Rightarrow> u8 list \<times> fuzzer \<Rightarrow> (nat \<times> u8 list \<times> fuzzer) option" where
  "bit_flips E q len st =
     or_else (or_else (or_else (or_else (or_else (BitFlip E q len 1 1 st)
       (BitFlip E q len 2 1)) (BitFlip E q len 4 1)) (BitFlip E q len 8 8)) (BitFlip E q len 16 8)) (BitFlip E q len 32 8)"

definition arithmetics :: "fuzz_env \<Rightarrow> nat \<Rightarrow> u8 list \<times> fuzzer \<Rightarrow> (nat \<times> u8 list \<times> fuzzer) option" where
  "arithmetics E len st = or_else (or_else (Arithmetic8 E len st) (Arithmetic16 E len)) (Arithmetic32 E len)"

definition interesting_values :: "fuzz_env \<Rightarrow> nat \<Rightarrow> u8 list \<times> fuzzer \<Rightarrow> (nat \<times> u8 list \<times> fuzzer) option" where
  "interesting_values E len st =
     or_else (or_else (InterestingReplace8 E len st) (InterestingReplace16 E len)) (InterestingReplace32 E len)"

text \<open>An error of a stage ends the sequence with the code of the stage.\<close>

definition and_then :: "(nat \<times> 's) option \<Rightarrow> ('s \<Rightarrow> (nat \<times> 's) option) \<Rightarrow> (nat \<times> 's) option" where
  "and_then m k = do { (r, s) \<leftarrow> m; if r \<noteq> 0 then Some (r, s) else k s }"

definition det_stages :: "fuzz_env \<Rightarrow> nat \<Rightarrow> nat \<Rightarrow> u8 list \<times> fuzzer \<Rightarrow> (nat \<times> u8 list \<times> fuzzer) option" where
  "det_stages E q len st =
     (if skip_deterministic E then Some (0, st)
      else and_then (and_then (and_then (time_stage E True (bit_flips E q len) st)
        (time_stage E True (arithmetics E len)))
        (time_stage E True (interesting_values E len)))
        (time_stage E True (Dictionary E len)))"

definition file_stages :: "fuzz_env \<Rightarrow> nat \<Rightarrow> nat \<Rightarrow> u8 list \<times> fuzzer \<Rightarrow> (nat \<times> u8 list \<times> fuzzer) option" where
  "file_stages E q len st =
     and_then (and_then (det_stages E q len st)
       (time_stage E True (Havoc E HAVOC_CYCLES_INIT len)))
       (time_stage E False (Splice E q len))"

section \<open>Fuzzing one seed\<close>

definition set_wasFuzzed :: "nat \<Rightarrow> fuzzer \<Rightarrow> fuzzer" where
  "set_wasFuzzed q s = s\<lparr>queue := (queue s)[q := (queue s ! q)\<lparr>wasFuzzed := True\<rparr>]\<rparr>"

text \<open>Dereferencing the end of the queue, when there is no seed at all, is \<open>None\<close>.\<close>

definition FuzzMain :: "fuzz_env \<Rightarrow> nat \<Rightarrow> fuzzer \<Rightarrow> (nat \<times> fuzzer) option" where
  "FuzzMain E q s =
     (if length (queue s) \<le> q then None else
     do {
       let (skip, s) = should_skip (queue s ! q) s;
       if skip then Some (FUZZING_SKIP, s)
       else do {
         let qCur = queue s ! q;
         let len = fileLen qCur;
         outBuf \<leftarrow> load_seed E qCur s;
         error_list \<leftarrow> (if NO_FUZZING_ERROR E then Some [] else load_error_list E qCur s);
         let s = (if NO_FUZZING_ERROR E then s else s\<lparr>errorList := error_list\<rparr>);
         cm \<leftarrow> (if NO_CONCURRENCY_FUZZ E then Some [] else load_control_matrix E qCur s);
         let s = (if NO_CONCURRENCY_FUZZ E then s else s\<lparr>control_matrix := cm\<rparr>);
         let s = s\<lparr>useful_byte := replicate len (len < MIN_FILE_LEN_FOR_USEFUL)\<rparr>;
         (r, outBuf, error_list, s) \<leftarrow> fault_stage E len (outBuf, error_list, s);
         if r \<noteq> 0 then Some (r, s)
         else do {
           (r, s) \<leftarrow> delay_stage E len outBuf cm s;
           if r \<noteq> 0 then Some (r, s)
           else do {
             (r, _, s) \<leftarrow> file_stages E q len (outBuf, s);
             if r \<noteq> 0 then Some (r, s)
             else Some (FUZZING_NORMAL, set_wasFuzzed q s)
           }
         }
       }
     })"

section \<open>The sequences are stages again\<close>

interpretation flips_2: stage_sequence "\<lambda>E len. BitFlip E q len 1 1" "\<lambda>E len. BitFlip E q len 2 1" for q ..
interpretation flips_3: stage_sequence "\<lambda>E len st. or_else (BitFlip E q len 1 1 st) (BitFlip E q len 2 1)"
  "\<lambda>E len. BitFlip E q len 4 1" for q ..
interpretation flips_4: stage_sequence
  "\<lambda>E len st. or_else (or_else (BitFlip E q len 1 1 st) (BitFlip E q len 2 1)) (BitFlip E q len 4 1)"
  "\<lambda>E len. BitFlip E q len 8 8" for q ..
interpretation flips_5: stage_sequence
  "\<lambda>E len st. or_else (or_else (or_else (BitFlip E q len 1 1 st) (BitFlip E q len 2 1)) (BitFlip E q len 4 1)) (BitFlip E q len 8 8)"
  "\<lambda>E len. BitFlip E q len 16 8" for q ..
interpretation flips_6: stage_sequence
  "\<lambda>E len st. or_else (or_else (or_else (or_else (BitFlip E q len 1 1 st) (BitFlip E q len 2 1)) (BitFlip E q len 4 1))
    (BitFlip E q len 8 8)) (BitFlip E q len 16 8)"
  "\<lambda>E len. BitFlip E q len 32 8" for q ..

interpretation bit_flips: fuzz_stage "\<lambda>E. bit_flips E q" for q
  unfolding bit_flips_def by (rule flips_6.both.fuzz_stage_axioms)

interpretation arithmetics_2: stage_sequence Arithmetic8 Arithmetic16 ..
interpretation arithmetics_3: stage_sequence "\<lambda>E len st. or_else (Arithmetic8 E len st) (Arithmetic16 E len)" Arithmetic32 ..

interpretation arithmetics: fuzz_stage arithmetics
  unfolding arithmetics_def by (rule arithmetics_3.both.fuzz_stage_axioms)

interpretation interestings_2: stage_sequence InterestingReplace8 InterestingReplace16 ..
interpretation interestings_3: stage_sequence
  "\<lambda>E len st. or_else (InterestingReplace8 E len st) (InterestingReplace16 E len)" InterestingReplace32 ..

interpretation interesting_values: fuzz_stage interesting_values
  unfolding interesting_values_def by (rule interestings_3.both.fuzz_stage_axioms)

section \<open>What fuzzing a seed keeps\<close>

lemma GetCurTimeUs_stage: "GetCurTimeUs s = (t, s') \<Longrightarrow> stage_rel E n s0 s' = stage_rel E n s0 s"
  by (auto simp: GetCurTimeUs_def)

lemma GetTimeStr_stage: "GetTimeStr E s = (t, s') \<Longrightarrow> stage_rel E n s0 s' = stage_rel E n s0 s"
  by (auto simp: GetTimeStr_def GetCurTimeUs_def Let_def)

lemma time_stage_stage:
  assumes "\<And>s. stage_rel E n s0 s \<Longrightarrow> ensures (stage (x, s)) (\<lambda>(r, x', s'). r = 0 \<and> P x' \<and> stage_rel E n s0 s')"
    and "stage_rel E n s0 s"
  shows "ensures (time_stage E speed stage (x, s)) (\<lambda>(r, x', s'). r = 0 \<and> P x' \<and> stage_rel E n s0 s')"
proof -
  obtain t s1 where t: "GetCurTimeUs s = (t, s1)" by fastforce
  have s1: "stage_rel E n s0 s1" using assms(2) GetCurTimeUs_stage [OF t] by simp
  show ?thesis
    unfolding time_stage_def prod.case t Let_def
    by (rule ensures_bind_triple [OF assms(1) [OF s1]])
      (auto simp: GetCurTimeUs_def GetTimeStr_def ensures_Some ensures_None Let_def)
qed

lemma fuzz_stage_timed:
  assumes "fuzz_stage stage" and "stage_rel E n s0 s"
  shows "ensures (time_stage E speed (stage E len) (fm, s)) (\<lambda>(r, fm', s'). r = 0 \<and> stage_rel E n s0 s')"
  using time_stage_stage [of E n s0 "stage E len" fm "\<lambda>_. True"] fuzz_stage.keeps [OF assms(1)] assms(2) by simp

lemma ensures_and_then:
  assumes "ensures m (\<lambda>(r, fm', s'). r = (0 :: nat) \<and> P s')" and "\<And>fm' s'. P s' \<Longrightarrow> ensures (k (fm', s')) Q"
  shows "ensures (and_then m k) Q"
  unfolding and_then_def by (rule ensures_bind_triple [OF assms(1)]) (use assms(2) in auto)

lemma file_stages_stage:
  assumes rel: "stage_rel E n s0 s" and rd: "can_read E s0"
  shows "ensures (file_stages E q len (fm, s)) (\<lambda>(r, fm', s'). r = 0 \<and> stage_rel E n s0 s')"
proof -
  have splice: "ensures (time_stage E False (Splice E q len) (fm, s)) (\<lambda>(r, fm', s'). r = 0 \<and> True \<and> stage_rel E n s0 s')"
    if "stage_rel E n s0 s" for fm s
  proof (rule time_stage_stage [OF _ that])
    fix s assume "stage_rel E n s0 s"
    then show "ensures (Splice E q len (fm, s)) (\<lambda>(r, fm', s'). r = 0 \<and> True \<and> stage_rel E n s0 s')"
      by (rule ensures_weaken [OF Splice_rel]) (use rd in auto)
  qed
  have det: "ensures (det_stages E q len (fm, s)) (\<lambda>(r, fm', s'). r = 0 \<and> stage_rel E n s0 s')"
    unfolding det_stages_def
    by (rule ensures_if, simp add: ensures_Some rel)
      (intro ensures_and_then [where P = "stage_rel E n s0"] fuzz_stage_timed [OF bit_flips.fuzz_stage_axioms rel]
        fuzz_stage_timed [OF arithmetics.fuzz_stage_axioms] fuzz_stage_timed [OF interesting_values.fuzz_stage_axioms]
        fuzz_stage_timed [OF dictionary.fuzz_stage_axioms])
  show ?thesis
    unfolding file_stages_def
    by (intro ensures_and_then [where P = "stage_rel E n s0"] det fuzz_stage_timed [OF havoc.fuzz_stage_axioms])
      (use splice in simp_all)
qed

lemma should_skip_stage:
  "should_skip e s = (skip, s') \<Longrightarrow> stage_rel E n s0 s' = stage_rel E n s0 s"
  by (auto simp: should_skip_def skip_with_def rnd_def Let_def case_prod_beta split: if_splits)

lemma stage_rel_errorList:
  assumes "stage_rel E n s0 s" and "length el = length (errorList s)"
  shows "stage_rel E n s0 (s\<lparr>errorList := el\<rparr>)"
  using assms by (simp add: stage_rel_def fuzz_rel_def maps_ok_def grows_def queue_files_ok_def)

lemma stage_rel_control_matrix [simp]: "stage_rel E n s0 (s\<lparr>control_matrix := cm\<rparr>) = stage_rel E n s0 s"
  by (simp add: stage_rel_def)

lemma stage_rel_lists:
  "stage_rel E n s s' \<Longrightarrow> length (errorList s') = length (errorList s)"
  by (simp add: stage_rel_def fuzz_rel_def grows_def)

lemma fault_stage_stage:
  assumes "stage_rel E n s0 s" and "NO_FUZZING_ERROR E \<or> length el = length (errorList s0)"
  shows "ensures (fault_stage E len (fm, el, s)) (\<lambda>(r, fm', el', s'). r = 0 \<and> fm' = fm \<and> stage_rel E n s0 s')"
proof (cases "NO_FUZZING_ERROR E")
  case True
  then show ?thesis using assms(1) by (simp add: fault_stage_def ensures_Some)
next
  case False
  have "ensures (time_stage E True (\<lambda>(el, s). ErrorListMutate E len fm el s) (el, s))
      (\<lambda>(r, el', s'). r = 0 \<and> el' = el \<and> stage_rel E n s0 s')"
    by (rule time_stage_stage [OF _ assms(1)]) (simp only: prod.case ErrorListMutate_stage)
  then show ?thesis
    using False assms(2) stage_rel_errorList stage_rel_lists unfolding fault_stage_def
    by (auto simp: ensures_def bind_eq_Some_conv)
qed

lemma delay_stage_stage:
  assumes "stage_rel E n s0 s"
  shows "ensures (delay_stage E len fm cm s) (\<lambda>(r, s'). r = 0 \<and> stage_rel E n s0 s')"
proof -
  have "ensures (time_stage E True
        (\<lambda>(_, s). map_option (\<lambda>(r, s). (r, (), s)) (control_matrix_mutate E len fm cm s)) ((), s))
      (\<lambda>(r, x, s'). r = 0 \<and> True \<and> stage_rel E n s0 s')"
    by (rule time_stage_stage [OF _ assms])
      (use control_matrix_mutate_stage in \<open>fastforce simp: ensures_def\<close>)
  then show ?thesis
    using assms unfolding delay_stage_def
    by (auto simp: ensures_def bind_eq_Some_conv restore_control_matrix_def Let_def split: if_splits)
qed


text \<open>A seed is either skipped, or all stages run and the seed is marked; no stage reports an error.\<close>

definition main_rel :: "fuzz_env \<Rightarrow> nat \<Rightarrow> nat \<Rightarrow> fuzzer \<Rightarrow> nat \<times> fuzzer \<Rightarrow> bool" where
  "main_rel E n q s = (\<lambda>(r, s'). \<exists>s1. stage_rel E n s s1 \<and>
     (r = FUZZING_SKIP \<and> s' = s1 \<or> r = FUZZING_NORMAL \<and> s' = set_wasFuzzed q s1))"

lemma main_rel_cases:
  "stage_rel E n s s1 \<Longrightarrow> main_rel E n q s (FUZZING_NORMAL, set_wasFuzzed q s1)"
  "stage_rel E n s s1 \<Longrightarrow> main_rel E n q s (FUZZING_SKIP, s1)"
  unfolding main_rel_def by blast+

lemma load_error_list_length:
  assumes "length (errorList s) < 2 ^ 32"
  shows "ensures (load_error_list E e s) (\<lambda>el. length el = length (errorList s))"
  using assms by (auto simp: ensures_def load_error_list_def ReadFile2Mem_def to_u32_def bind_eq_Some_conv split: if_splits)

lemma FuzzMain_stages:
  assumes rel: "stage_rel E n s0 s" and rd: "can_read E s0" and el: "NO_FUZZING_ERROR E \<or> length el = length (errorList s0)"
  shows "ensures (do {
      (r, outBuf, error_list, s) \<leftarrow> fault_stage E len (fm, el, s);
      if r \<noteq> 0 then Some (r, s)
      else do {
        (r, s) \<leftarrow> delay_stage E len outBuf cm s;
        if r \<noteq> 0 then Some (r, s)
        else do {
          (r, _, s) \<leftarrow> file_stages E q len (outBuf, s);
          if r \<noteq> 0 then Some (r, s) else Some (FUZZING_NORMAL, set_wasFuzzed q s) } } }) (\<lambda>x. fst x = FUZZING_NORMAL \<and> main_rel E n q s0 x)"
proof -
  have files: "ensures (do {
          (r, _, s) \<leftarrow> file_stages E q len (fm, s);
          if r \<noteq> 0 then Some (r, s) else Some (FUZZING_NORMAL, set_wasFuzzed q s) }) (\<lambda>x. fst x = FUZZING_NORMAL \<and> main_rel E n q s0 x)"
    if "stage_rel E n s0 s" for s
    by (rule ensures_bind_triple [OF file_stages_stage [OF that rd]]) (auto simp: ensures_Some main_rel_cases)
  have delay: "ensures (do {
        (r, s) \<leftarrow> delay_stage E len fm cm s;
        if r \<noteq> 0 then Some (r, s)
        else do {
          (r, _, s) \<leftarrow> file_stages E q len (fm, s);
          if r \<noteq> 0 then Some (r, s) else Some (FUZZING_NORMAL, set_wasFuzzed q s) } }) (\<lambda>x. fst x = FUZZING_NORMAL \<and> main_rel E n q s0 x)"
    if "stage_rel E n s0 s" for s
    by (rule ensures_bind_zero [OF delay_stage_stage [OF that]]) (rule ensures_if, simp, rule files)
  show ?thesis
  proof (rule ensures_bind [OF fault_stage_stage [OF rel el]])
    fix x :: "nat \<times> u8 list \<times> u8 list \<times> fuzzer"
    assume "case x of (r, fm', el', s') \<Rightarrow> r = 0 \<and> fm' = fm \<and> stage_rel E n s0 s'"
    then obtain el' s' where "x = (0, fm, el', s')" "stage_rel E n s0 s'" by (cases x) auto
    then show "ensures (case x of (r, outBuf, error_list, s) \<Rightarrow>
        if r \<noteq> 0 then Some (r, s)
        else do {
          (r, s) \<leftarrow> delay_stage E len outBuf cm s;
          if r \<noteq> 0 then Some (r, s)
          else do {
            (r, _, s) \<leftarrow> file_stages E q len (outBuf, s);
            if r \<noteq> 0 then Some (r, s) else Some (FUZZING_NORMAL, set_wasFuzzed q s) } }) (\<lambda>x. fst x = FUZZING_NORMAL \<and> main_rel E n q s0 x)"
      using delay [of s'] by simp
  qed
qed

lemma FuzzMain_outcome:
  assumes "maps_ok n s" and rd: "can_read E s" and len: "length (errorList s) < 2 ^ 32"
  shows "ensures (FuzzMain E q s) (\<lambda>x. main_rel E n q s x \<and>
    (\<not> fst (should_skip (queue s ! q) s) \<longrightarrow> fst x = FUZZING_NORMAL))"
proof -
  obtain skip s1 where sk: "should_skip (queue s ! q) s = (skip, s1)" by fastforce
  have rel: "stage_rel E n s s1" using stage_rel_refl [OF assms(1)] should_skip_stage [OF sk] by simp
  have el: "ensures (if NO_FUZZING_ERROR E then Some [] else load_error_list E e s1)
      (\<lambda>el. NO_FUZZING_ERROR E \<or> length el = length (errorList s))" for e
    using load_error_list_length [of s1 E e] stage_rel_lists [OF rel] len by (simp add: ensures_Some)
  have rel2: "stage_rel E n s (if NO_FUZZING_ERROR E then s1 else s1\<lparr>errorList := el\<rparr>)"
    if "NO_FUZZING_ERROR E \<or> length el = length (errorList s)" for el
    using that rel stage_rel_errorList [OF rel] stage_rel_lists [OF rel] by auto
  show ?thesis
    unfolding FuzzMain_def sk Let_def prod.case fst_conv
    apply (rule ensures_if, simp add: ensures_None)
    apply (rule ensures_if, simp add: ensures_Some main_rel_cases rel)
    apply (rule ensures_bind [OF ensures_True], rule ensures_bind [OF el], rule ensures_bind [OF ensures_True])
    apply (rule ensures_weaken [OF FuzzMain_stages [where n = n, OF _ rd]])
      apply (simp add: rel2)
     apply assumption
    apply blast
    done
qed

lemma FuzzMain_rel:
  assumes "maps_ok n s" and "can_read E s" and "length (errorList s) < 2 ^ 32"
  shows "ensures (FuzzMain E q s) (main_rel E n q s)"
  by (rule ensures_weaken [OF FuzzMain_outcome [OF assms]]) blast

section \<open>Seeds are fuzzed under the injection that made them interesting\<close>

lemma length_matrix_bytes [simp]: "length (matrix_bytes ms) = 16 * length ms"
  by (induction ms) (simp_all add: matrix_bytes_def)

lemma matrix_of_bytes_matrix_bytes [simp]: "matrix_of_bytes (matrix_bytes ms) = ms"
proof (induction ms)
  case Nil
  then show ?case by (simp add: matrix_bytes_def matrix_of_bytes.simps)
next
  case (Cons m ms)
  have "matrix_bytes (m # ms) = le_bytes 8 (hash_1 m) @ le_bytes 8 (hash_2 m) @ matrix_bytes ms"
    by (simp add: matrix_bytes_def)
  then show ?case using Cons by (simp add: matrix_of_bytes.simps [of "_ @ _"] le_word_le_bytes)
qed

lemma mmap_copy_whole: "0 < length contents \<Longrightarrow> mmap_copy (length contents) contents = Some contents"
  by (simp add: mmap_copy_def mem_read_def Let_def)

lemma WriteMem2File_file:
  "WriteMem2File E f mem len s = Some s' \<Longrightarrow> files s' f = Some (take (to_u32 len) mem) \<and> io_ok E f"
  "WriteMem2File E f mem len s = Some s' \<Longrightarrow> files s g = Some x \<Longrightarrow> files s' g = Some x"
  by (auto simp: WriteMem2File_Some)

lemma keep_seed_lists:
  assumes "keep_seed E mem len nb ef cf s = Some s'"
  defines "sd \<equiv> last (queue s')"
  shows "fileLen sd = len \<and> files s' (fileName sd) = Some (take (to_u32 len) mem) \<and> io_ok E (fileName sd) \<and> to_u32 len \<le> length mem"
    "if ef then elistFileName sd \<noteq> [] \<and> io_ok E (elistFileName sd) \<and>
        files s' (elistFileName sd) = Some (take (to_u32 (length (errorList s))) (errorList s)) else elistFileName sd = []"
    "if cf then control_matrix_file sd \<noteq> [] \<and> io_ok E (control_matrix_file sd) \<and>
        files s' (control_matrix_file sd) = Some (take (to_u32 (16 * length (control_matrix s))) (matrix_bytes (control_matrix s)))
      else control_matrix_file sd = []"
proof -
  obtain name el cm s1 s2 s3 where name: "seed_name s nb = Some name"
    and el_def: "el = (if ef then Some (outputDir E @ ''errorList/'' @ name) else None)"
    and cm_def: "cm = (if cf then Some (outputDir E @ ''delayList/'' @ name) else None)"
    and s1: "(case el of None \<Rightarrow> Some s | Some f \<Rightarrow> do {
        s \<leftarrow> WriteMem2File E f (errorList s) (length (errorList s)) s;
        Some (s\<lparr>useful_error_seq := inc64 (useful_error_seq s)\<rparr>) }) = Some s1"
    and s2: "(case cm of None \<Rightarrow> Some s1 | Some f \<Rightarrow> WriteMem2File E f (matrix_bytes (control_matrix s1))
        (length (matrix_bytes (control_matrix s1))) s1) = Some s2"
    and s3: "WriteMem2File E (outputDir E @ ''queue/'' @ name) mem len
        (AddToQueue (outputDir E @ ''queue/'' @ name) len el cm
          (if \<not> ef \<and> \<not> cf then s2\<lparr>usefule_input := inc64 (usefule_input s2)\<rparr> else s2)) = Some s3"
    and s': "s3\<lparr>queue := (queue s3)[length (queue s3) - 1 := (queue s3 ! (length (queue s3) - 1))
        \<lparr>cksum := trace_cksum (globalTraceBit s3), execTime := 1\<rparr>]\<rparr> = s'"
    using keep_seed_steps [OF assms(1)] .
  let ?a = "AddToQueue (outputDir E @ ''queue/'' @ name) len el cm
    (if \<not> ef \<and> \<not> cf then s2\<lparr>usefule_input := inc64 (usefule_input s2)\<rparr> else s2)"
  have fa: "files ?a = files s2" by (simp add: AddToQueue_def Let_def)
  have "queue s3 = queue ?a" using s3 by (simp add: WriteMem2File_Some)
  then have "queue s3 \<noteq> [] \<and> last (queue s3) = (case cm of None \<Rightarrow> id | Some c \<Rightarrow> control_matrix_file_update (\<lambda>_. c))
      ((case el of None \<Rightarrow> id | Some e \<Rightarrow> elistFileName_update (\<lambda>_. e)) (new_seed (outputDir E @ ''queue/'' @ name) len))"
    by (simp add: AddToQueue_def Let_def split: option.split)
  then have sd: "fileName sd = outputDir E @ ''queue/'' @ name" "fileLen sd = len"
    "elistFileName sd = (case el of None \<Rightarrow> [] | Some e \<Rightarrow> e)"
    "control_matrix_file sd = (case cm of None \<Rightarrow> [] | Some c \<Rightarrow> c)"
    unfolding sd_def s' [symmetric] by (auto simp: last_list_update last_conv_nth new_seed_def split: option.split)
  have files: "files s' = files s3" using s' by auto
  have q: "files s' (fileName sd) = Some (take (to_u32 len) mem) \<and> io_ok E (fileName sd)" "to_u32 len \<le> length mem"
    using WriteMem2File_file(1) [OF s3] s3 unfolding files sd(1) by (simp_all add: WriteMem2File_Some)
  show "fileLen sd = len \<and> files s' (fileName sd) = Some (take (to_u32 len) mem) \<and> io_ok E (fileName sd) \<and> to_u32 len \<le> length mem"
    using q sd(2) by simp
  have cm1: "control_matrix s1 = control_matrix s"
    using s1 by (auto simp: WriteMem2File_Some bind_eq_Some_conv split: option.splits)
  have later: "files s1 g = Some x \<Longrightarrow> files s2 g = Some x" for g x
    using s2 WriteMem2File_file(2) [of E _ _ _ s1 s2] by (auto split: option.splits)
  have last: "files s2 g = Some x \<Longrightarrow> files s' g = Some x" for g x
    using WriteMem2File_file(2) [OF s3] fa files by simp
  show "if ef then elistFileName sd \<noteq> [] \<and> io_ok E (elistFileName sd) \<and>
      files s' (elistFileName sd) = Some (take (to_u32 (length (errorList s))) (errorList s)) else elistFileName sd = []"
    using s1 later last WriteMem2File_file(1) [of E _ "errorList s" _ s]
    by (auto simp: sd el_def bind_eq_Some_conv split: if_splits)
  show "if cf then control_matrix_file sd \<noteq> [] \<and> io_ok E (control_matrix_file sd) \<and>
      files s' (control_matrix_file sd) = Some (take (to_u32 (16 * length (control_matrix s))) (matrix_bytes (control_matrix s)))
    else control_matrix_file sd = []"
    using s2 last WriteMem2File_file(1) [of E _ "matrix_bytes (control_matrix s)" _ s1]
    by (auto simp: sd cm_def cm1 split: if_splits)
qed

text \<open>
  C21: a kept test case comes back exactly.  When \<open>FuzzMain\<close> later loads the seed that
  \<open>keep_seed\<close> added, it gets the bytes of the test case, and the error list and the control
  matrix under which it was interesting; a seed kept without them gets cleared ones.
\<close>

theorem kept_seed_roundtrip:
  assumes "keep_seed E mem len nb ef cf s = Some s'" and "0 < len" and "len < 2 ^ 32"
    and "length (errorList s) < 2 ^ 32" and "length (control_matrix s) < 2 ^ 28"
  defines "sd \<equiv> last (queue s')"
  shows "load_seed E sd s' = Some (take len mem) \<and>
    load_error_list E sd s' = Some (if ef then errorList s else replicate (length (errorList s)) 0) \<and>
    load_control_matrix E sd s' = Some (if cf then control_matrix s else replicate (length (control_matrix s)) zero_element)"
proof -
  note kept = keep_seed_lists [OF assms(1), folded sd_def]
  obtain fs a b q where s': "s' = s\<lparr>files := fs, useful_error_seq := a, usefule_input := b, queue := q\<rparr>"
    using keep_seed_spec [OF assms(1)] by blast
  then have same: "errorList s' = errorList s" "control_matrix s' = control_matrix s" by simp_all
  have len: "to_u32 len = len" "to_u32 (length (errorList s)) = length (errorList s)"
    "to_u32 (16 * length (control_matrix s)) = 16 * length (control_matrix s)"
    using assms(3-5) by (simp_all add: to_u32_def)
  have "load_seed E sd s' = Some (take len mem)"
    using kept(1) assms(2) mmap_copy_whole [of "take len mem"] by (simp add: load_seed_def len min_absorb2)
  moreover have "load_error_list E sd s' = Some (if ef then errorList s else replicate (length (errorList s)) 0)"
    using kept(2) by (simp add: load_error_list_def ReadFile2Mem_def len same split: if_splits)
  moreover have "load_control_matrix E sd s' =
      Some (if cf then control_matrix s else replicate (length (control_matrix s)) zero_element)"
    using kept(3) by (simp add: load_control_matrix_def ReadFile2Mem_def len same split: if_splits)
  ultimately show ?thesis by blast
qed

theorem kept_seed_roundtrip_witness:
  "\<exists>s'. keep_seed plain_env [7, 8, 9] 2 2 True False (one_seed\<lparr>errorList := [0, 1]\<rparr>) = Some s' \<and>
    load_seed plain_env (last (queue s')) s' = Some [7, 8] \<and>
    load_error_list plain_env (last (queue s')) s' = Some [0, 1]"
proof -
  let ?s = "one_seed\<lparr>errorList := [0, 1]\<rparr>"
  have "\<exists>d. num2str_Keep6bit 1 = Some d"
    by (simp add: num2str_Keep6bit_def dec_digits.simps Let_def)
  then obtain d where "num2str_Keep6bit (Suc 0) = Some d" by auto
  then have "keep_seed plain_env [7, 8, 9] 2 2 True False ?s \<noteq> None"
    by (simp add: keep_seed_def one_seed_def initial_fuzzer_def plain_env_def WriteMem2File_def mem_read_def
        AddToQueue_def to_u32_def Let_def)
  then obtain s' where run: "keep_seed plain_env [7, 8, 9] 2 2 True False ?s = Some s'" by blast
  show ?thesis
    using kept_seed_roundtrip [OF run] run by (simp add: one_seed_def initial_fuzzer_def)
qed

lemma can_read_wasFuzzed:
  assumes "can_read E s" and "q < length (queue s)"
  shows "can_read E (set_wasFuzzed q s)"
proof -
  have "\<exists>sd0 \<in> set (queue s). fileName sd = fileName sd0 \<and> fileLen sd = fileLen sd0"
    if "sd \<in> set (queue (set_wasFuzzed q s))" for sd
  proof (cases "sd \<in> set (queue s)")
    case False
    then have "sd = (queue s ! q)\<lparr>wasFuzzed := True\<rparr>"
      using that set_update_subset_insert [of "queue s" q] by (auto simp: set_wasFuzzed_def)
    then show ?thesis using assms(2) by (intro bexI [of _ "queue s ! q"]) simp_all
  qed blast
  moreover have "files (set_wasFuzzed q s) = files s" by (simp add: set_wasFuzzed_def)
  ultimately show ?thesis using assms(1) unfolding can_read_def queue_files_ok_iff by metis
qed

text \<open>
  C20: fuzzing a seed never reports an error and loses nothing, provided the seeds have their
  files.  The seeds that were there stay as they are, the fuzzed one is marked, new seeds are
  only appended, and every seed has its file again afterwards.
\<close>

theorem FuzzMain_keeps_seeds:
  assumes "maps_ok n s" and "can_read E s" and "length (errorList s) < 2 ^ 32"
    and "FuzzMain E q s = Some (r, s')"
  shows "(r = FUZZING_NORMAL \<or> r = FUZZING_SKIP) \<and> maps_ok n s' \<and> can_read E s' \<and>
    length (queue s) \<le> length (queue s') \<and> q < length (queue s) \<and>
    (\<forall>k < length (queue s). queue s' ! k =
       (if k = q \<and> r = FUZZING_NORMAL then (queue s ! k)\<lparr>wasFuzzed := True\<rparr> else queue s ! k)) \<and>
    seen (virginMap s) \<subseteq> seen (virginMap s') \<and> queueTop s' = queueTop s"
proof -
  have q: "q < length (queue s)" using assms(4) by (auto simp: FuzzMain_def split: if_splits)
  obtain s1 where rel: "stage_rel E n s s1"
    and s': "r = FUZZING_SKIP \<and> s' = s1 \<or> r = FUZZING_NORMAL \<and> s' = set_wasFuzzed q s1"
    using ensuresD [OF FuzzMain_rel [OF assms(1-3)] assms(4)] by (auto simp: main_rel_def)
  have pre: "prefix (queue s) (queue s1)" and s1: "maps_ok n s1" "can_read E s1" "queueTop s1 = queueTop s"
    "seen (virginMap s) \<subseteq> seen (virginMap s1)"
    using rel can_read_stage [OF assms(2) rel] by (simp_all add: stage_rel_def fuzz_rel_def grows_def)
  have len: "length (queue s) \<le> length (queue s1)" "\<forall>k < length (queue s). queue s1 ! k = queue s ! k"
    using pre by (auto simp: prefix_def nth_append)
  have "maps_ok n (set_wasFuzzed q s1)" using s1(1) by (simp add: set_wasFuzzed_def maps_ok_def)
  moreover have "can_read E (set_wasFuzzed q s1)" using can_read_wasFuzzed [OF s1(2)] q len(1) by simp
  ultimately show ?thesis
    using s' s1 len q by (auto simp: set_wasFuzzed_def nth_list_update FUZZING_NORMAL_def FUZZING_SKIP_def)
qed

theorem FuzzMain_keeps_seeds_witness:
  "\<exists>s'. FuzzMain plain_env 0 one_seed = Some (FUZZING_SKIP, s') \<and> can_read plain_env s'"
proof -
  have "should_skip (queue one_seed ! 0) one_seed = (True, one_seed\<lparr>rand_tape := \<lambda>_. 0\<rparr>)"
    by (simp add: should_skip_def skip_with_def rnd_def randNum_def one_seed_def initial_fuzzer_def new_seed_def
        to_u32_def SKIP_NFAV_OLD_PROB_def)
  then have run: "FuzzMain plain_env 0 one_seed = Some (FUZZING_SKIP, one_seed\<lparr>rand_tape := \<lambda>_. 0\<rparr>)"
    by (simp add: FuzzMain_def) (simp add: one_seed_def)
  have "maps_ok 8 one_seed" "length (errorList one_seed) < 2 ^ 32"
    by (simp_all add: maps_ok_def one_seed_def initial_fuzzer_def)
  moreover have "can_read plain_env one_seed"
    by (simp add: can_read_def queue_files_ok_def one_seed_def initial_fuzzer_def new_seed_def plain_env_def)
  ultimately show ?thesis using FuzzMain_keeps_seeds [OF _ _ _ run] run by blast
qed



end
