(* ===== verification/Synchronize.thy ===== *)
theory Synchronize
  imports Unit_Properties Det_Stages
begin

text \<open>
  Importing the test cases of other fuzzer instances (\<open>Synchronize.cpp\<close>).  The instances
  share a directory with one subdirectory each; for every other instance the number of the next
  test case to import is kept in a file.
\<close>

section \<open>Test case numbers\<close>

text \<open>
  \<open>sscanf(name, "%06u", &id)\<close>: white space is skipped, then at most six characters are read,
  an optional sign and digits; a negative number wraps around.
\<close>

definition scan_06u :: "string \<Rightarrow> nat option" where
  "scan_06u str =
     (let xs = take 6 (dropWhile is_space str);
          neg = (xs \<noteq> [] \<and> hd xs = CHR ''-'');
          signed = (xs \<noteq> [] \<and> (hd xs = CHR ''-'' \<or> hd xs = CHR ''+''));
          ds = takeWhile is_digit (if signed then tl xs else xs)
      in if ds = [] then None
         else Some (if neg then (2 ^ 32 - dec_value ds) mod 2 ^ 32 else dec_value ds))"

section \<open>Importing\<close>

text \<open>What the test case of another instance is run under, and the run.\<close>

definition import_case :: "fuzz_env \<Rightarrow> string \<Rightarrow> u8 list \<Rightarrow> fuzzer \<Rightarrow> fuzzer option" where
  "import_case E errorlist_path mem s =
     do {
       el \<leftarrow> (if files s errorlist_path \<noteq> None then ReadFile2Mem E errorlist_path (length (errorList s)) s
              else Some (replicate (length (errorList s)) 0));
       let s = s\<lparr>errorList := el\<rparr>;
       s \<leftarrow> WriteToTestcase E mem (length mem) s;
       (fault, s) \<leftarrow> ExecuteCase E (exec_tmout s) s;
       (_, s) \<leftarrow> AddInterestingSeed E mem (length mem) fault s;
       Some s
     }"

text \<open>Hidden entries and entries without a number are passed over.\<close>

definition entry_id :: "string \<Rightarrow> nat option" where
  "entry_id d_name = (if take 1 d_name = ''.'' then None else scan_06u d_name)"

definition sync_entry ::
  "fuzz_env \<Rightarrow> string \<Rightarrow> nat \<Rightarrow> string \<Rightarrow> nat \<times> fuzzer \<Rightarrow> (nat \<times> fuzzer) option" where
  "sync_entry E peer_dir min_accept d_name = (\<lambda>(next_min_accept, s).
     case entry_id d_name of
       None \<Rightarrow> Some (next_min_accept, s)
     | Some syncing_id \<Rightarrow>
         if syncing_id < min_accept then Some (next_min_accept, s)
         else do {
           let next_min_accept = (if syncing_id \<ge> next_min_accept then inc32 syncing_id else next_min_accept);
           let path = peer_dir @ ''/queue/'' @ d_name;
           case files s path of
             None \<Rightarrow> Some (next_min_accept, s)
           | Some mem \<Rightarrow>
               if \<not> io_ok E path then Some (next_min_accept, s)
               else if mem \<noteq> [] \<and> length mem \<le> MAX_FILE_LEN then do {
                 s \<leftarrow> import_case E (peer_dir @ ''/errorList/'' @ d_name) mem s;
                 Some (next_min_accept, s) }
               else Some (next_min_accept, s)
         })"

text \<open>
  The directory tree as the operating system lists it: the entries of the shared directory, each
  with the sorted entries of its \<open>queue\<close> directory, if it has one that can be opened.
\<close>

type_synonym peer = "string \<times> string list option"

definition sync_peer :: "fuzz_env \<Rightarrow> string \<Rightarrow> string \<Rightarrow> peer \<Rightarrow> fuzzer \<Rightarrow> fuzzer option" where
  "sync_peer E syncdir syncid = (\<lambda>(name, listing) s.
     if take 1 name = ''.'' \<or> name = syncid then Some s
     else case listing of
       None \<Rightarrow> Some s
     | Some namelist \<Rightarrow>
         let synced = outputDir E @ ''.synced/'' @ name
         in if \<not> io_ok E synced then None
            else do {
              let s = (if files s synced = None then s\<lparr>files := (files s)(synced \<mapsto> [])\<rparr> else s);
              old \<leftarrow> files s synced;
              let min_accept = unat (le_word (take 4 old) :: u32);
              (next_min_accept, s) \<leftarrow> foldM (sync_entry E (syncdir @ ''/'' @ name) min_accept) namelist (min_accept, s);
              old \<leftarrow> files s synced;
              Some (s\<lparr>files := (files s)(synced \<mapsto> le_bytes 4 (of_nat next_min_accept :: u32) @ drop 4 old)\<rparr>)
            })"

definition SychronizeFuzzer :: "fuzz_env \<Rightarrow> string \<Rightarrow> string \<Rightarrow> peer list \<Rightarrow> fuzzer \<Rightarrow> fuzzer option" where
  "SychronizeFuzzer E syncdir syncid peers s = foldM (sync_peer E syncdir syncid) peers s"

section \<open>Numbers in names\<close>

lemma scan_digits:
  assumes "list_all is_digit ds" and "length ds = 6"
  shows "scan_06u (ds @ rest) = Some (dec_value ds)"
proof -
  have "ds \<noteq> []" using assms(2) by auto
  then obtain c cs where ds: "ds = c # cs" by (cases ds) auto
  have c: "is_digit c" using assms(1) by (simp add: ds)
  then have "\<not> is_space c" "c \<noteq> CHR ''-''" "c \<noteq> CHR ''+''" by (auto simp: is_digit_def is_space_def)
  then have "take 6 (dropWhile is_space (ds @ rest)) = ds" "hd ds \<noteq> CHR ''-''" "hd ds \<noteq> CHR ''+''"
    using assms(2) by (simp_all add: ds)
  moreover have tw: "takeWhile is_digit ds = ds" using assms(1) by (simp add: list_all_iff)
  ultimately show ?thesis using \<open>ds \<noteq> []\<close> by (simp add: scan_06u_def Let_def tw)
qed

lemma read_number:
  assumes "num2str_Keep6bit n = Some d"
  shows "\<exists>m. scan_06u (d @ rest) = Some m \<and> (if n < 10 ^ 6 then m = n else m < 10 ^ 6)"
proof -
  let ?ds = "dec_digits n"
  have d: "d = replicate (6 - length ?ds) CHR ''0'' @ ?ds"
    using assms by (auto simp: num2str_Keep6bit_def Let_def split: if_splits)
  have digits: "list_all is_digit d" using dec_digits_props [of n] zero_digit by (auto simp: d list_all_iff)
  have long: "length ?ds \<le> 6 \<longleftrightarrow> n < 10 ^ 6" by (rule length_dec_digits) simp
  have six: "length (take 6 d) = 6" by (simp add: d)
  have part: "list_all is_digit (take 6 d)" using digits by (auto simp: list_all_iff dest: in_set_takeD)
  have "d @ rest = take 6 d @ drop 6 d @ rest" by simp
  then have scan: "scan_06u (d @ rest) = Some (dec_value (take 6 d))" using scan_digits [OF part six] by metis
  show ?thesis
  proof (cases "n < 10 ^ 6")
    case True
    then have "take 6 d = d" using long by (simp add: d)
    then have "dec_value (take 6 d) = n" using dec_digits_props [of n] by (simp add: d dec_value_zeros)
    then show ?thesis using scan True by simp
  next
    case False
    have "dec_value (take 6 d) < 10 ^ 6" using dec_value_less [OF part] unfolding six .
    then show ?thesis using scan False by simp
  qed
qed

text \<open>
  The number of a kept test case is read back from its file name exactly for the first
  million test cases; from then on the six characters that are read give a smaller number.
\<close>

theorem seed_number_roundtrip:
  assumes "num2str_Keep6bit n = Some d"
  shows "\<exists>m. scan_06u (d @ rest) = Some m \<and> (if n < 10 ^ 6 then m = n else m < 10 ^ 6)"
  using assms by (rule read_number)

theorem seed_number_roundtrip_witness:
  "\<exists>d m. num2str_Keep6bit 1234567 = Some d \<and> scan_06u (d @ ''+cov'') = Some m \<and> m < 10 ^ 6"
proof -
  have "\<exists>d. num2str_Keep6bit 1234567 = Some d"
    by (simp add: num2str_Keep6bit_def dec_digits.simps Let_def)
  then obtain d where d: "num2str_Keep6bit 1234567 = Some d" by blast
  from seed_number_roundtrip [OF d, of "''+cov''"] d show ?thesis by auto
qed

section \<open>Importing keeps what is there\<close>

lemma import_case_rel:
  assumes "fuzz_rel E n s0 s" and "length (errorList s0) < 2 ^ 32"
  shows "ensures (import_case E p mem s) (fuzz_rel E n s0)"
proof -
  have len: "length (errorList s) = length (errorList s0)" using fuzz_relD [OF assms(1)] by simp
  have el: "ensures (if files s p \<noteq> None then ReadFile2Mem E p (length (errorList s)) s
      else Some (replicate (length (errorList s)) 0)) (\<lambda>el. fuzz_rel E n s0 (s\<lparr>errorList := el\<rparr>))"
    using assms len
    by (auto simp: ensures_def ReadFile2Mem_def to_u32_def bind_eq_Some_conv fuzz_rel_def maps_ok_def grows_def
        split: if_splits)
  show ?thesis
    unfolding import_case_def Let_def
    by (rule ensures_bind [OF el]) (rule ens_binds ens_rules | assumption | simp)+
qed

lemma sync_entry_rel:
  assumes "fuzz_rel E n s0 s" and "length (errorList s0) < 2 ^ 32"
  shows "ensures (sync_entry E dir m x (k, s)) (\<lambda>(k', s'). fuzz_rel E n s0 s')"
  unfolding sync_entry_def prod.case Let_def
  by (rule ensures_case_option ensures_if ensures_bind [OF import_case_rel [OF assms]] |
      (simp add: ensures_Some assms; fail))+

lemma sync_entries_rel:
  assumes "fuzz_rel E n s0 s" and "length (errorList s0) < 2 ^ 32"
  shows "ensures (foldM (sync_entry E dir m) xs (k, s)) (\<lambda>(k', s'). fuzz_rel E n s0 s')"
  using assms(1)
proof (induction xs arbitrary: k s)
  case (Cons x xs)
  show ?case
    unfolding foldM.simps
    by (rule ensures_bind_pair [OF sync_entry_rel [OF Cons.prems assms(2)]]) (rule Cons.IH)
qed (simp add: ensures_Some)

text \<open>The numbers of the entries of a listing are below a bound.\<close>

definition ids_below :: "nat \<Rightarrow> string list \<Rightarrow> bool" where
  "ids_below k xs \<longleftrightarrow> (\<forall>x \<in> set xs. \<forall>i. entry_id x = Some i \<longrightarrow> i < k)"

lemma ids_below_Cons: "ids_below k (x # xs) \<longleftrightarrow> (\<forall>i. entry_id x = Some i \<longrightarrow> i < k) \<and> ids_below k xs"
  by (simp add: ids_below_def)

lemma sync_entry_next:
  assumes "sync_entry E dir m x (k, s) = Some (k', s')" and "m \<le> k" and "k < 2 ^ 32"
    and "\<forall>i. entry_id x = Some i \<longrightarrow> i < 2 ^ 32 - 1"
  shows "k \<le> k' \<and> k' < 2 ^ 32 \<and> (\<forall>i. entry_id x = Some i \<longrightarrow> i < k')"
  using assms by (auto simp: sync_entry_def inc32_def Let_def bind_eq_Some_conv split: if_splits option.splits)

lemma sync_entries_next:
  assumes "foldM (sync_entry E dir m) xs (k, s) = Some (k', s')" and "m \<le> k" and "k < 2 ^ 32" and "ids_below (2 ^ 32 - 1) xs"
  shows "k \<le> k' \<and> k' < 2 ^ 32 \<and> ids_below k' xs"
  using assms
proof (induction xs arbitrary: k s)
  case Nil
  then show ?case by (simp add: ids_below_def)
next
  case (Cons x xs)
  then obtain k1 s1 where step: "sync_entry E dir m x (k, s) = Some (k1, s1)"
    and rest: "foldM (sync_entry E dir m) xs (k1, s1) = Some (k', s')" by (auto simp: bind_eq_Some_conv)
  have k1: "k \<le> k1" "k1 < 2 ^ 32" "\<forall>i. entry_id x = Some i \<longrightarrow> i < k1"
    using sync_entry_next [OF step Cons.prems(2,3)] Cons.prems(4) by (simp_all add: ids_below_Cons)
  then show ?case
    using Cons.IH [OF rest] Cons.prems(2,4) by (auto simp: ids_below_Cons dest: less_le_trans)
qed

lemma sync_entries_idle:
  "ids_below m xs \<Longrightarrow> foldM (sync_entry E dir m) xs (k, s) = Some (k, s)"
  by (induction xs) (auto simp: ids_below_Cons sync_entry_def split: option.split)

text \<open>A peer is done when the file with its next number is above all its entries.\<close>

definition peer_done :: "fuzz_env \<Rightarrow> string \<Rightarrow> peer \<Rightarrow> fuzzer \<Rightarrow> bool" where
  "peer_done E syncid = (\<lambda>(name, listing) s.
     take 1 name = ''.'' \<or> name = syncid \<or>
     (case listing of None \<Rightarrow> True | Some xs \<Rightarrow>
        io_ok E (outputDir E @ ''.synced/'' @ name) \<and>
        (\<exists>k rest. files s (outputDir E @ ''.synced/'' @ name) = Some (le_bytes 4 (of_nat k :: u32) @ rest) \<and>
           k < 2 ^ 32 \<and> ids_below k xs)))"

lemma le_word_of_nat4:
  assumes "k < 2 ^ 32"
  shows "unat (le_word (take 4 (le_bytes 4 (of_nat k :: u32) @ rest)) :: u32) = k"
proof -
  have "le_word (le_bytes 4 (of_nat k :: u32)) = (of_nat k :: u32)" by (rule le_word_le_bytes) simp
  then show ?thesis using assms by (simp add: unsigned_of_nat take_bit_nat_eq_self)
qed

lemma sync_peer_idle:
  assumes "peer_done E syncid p s"
  shows "sync_peer E syncdir syncid p s = Some s"
proof -
  obtain name listing where p: "p = (name, listing)" by fastforce
  show ?thesis
  proof (cases "take 1 name = ''.'' \<or> name = syncid \<or> listing = None")
    case True
    then show ?thesis by (auto simp: p sync_peer_def)
  next
    case False
    let ?f = "outputDir E @ ''.synced/'' @ name"
    obtain xs k rest where xs: "listing = Some xs" "io_ok E ?f" "k < 2 ^ 32" "ids_below k xs"
      and f: "files s ?f = Some (le_bytes 4 (of_nat k :: u32) @ rest)"
      using assms False by (auto simp: p peer_done_def)
    have "(files s)(?f \<mapsto> le_bytes 4 (of_nat k :: u32) @ rest) = files s" using f by (simp add: fun_upd_idem)
    then show ?thesis
      using False xs f le_word_of_nat4 [OF xs(3), of rest] by (simp add: p sync_peer_def Let_def sync_entries_idle)
  qed
qed

text \<open>What a pass over a peer keeps: the relation of a unit of fuzzing, but for the numbers of the peers.\<close>

definition synced_ok :: "fuzz_env \<Rightarrow> nat \<Rightarrow> fuzzer \<Rightarrow> bool" where
  "synced_ok E n s \<longleftrightarrow> maps_ok n s \<and> length (errorList s) < 2 ^ 32"

lemma sync_peer_done:
  assumes ok: "synced_ok E n s" and dir: "\<not> prefix (outputDir E) (testfile E)"
    and run: "sync_peer E syncdir syncid (name, listing) s = Some s'"
    and ids: "\<forall>xs. listing = Some xs \<longrightarrow> ids_below (2 ^ 32 - 1) xs"
  shows "synced_ok E n s'" "peer_done E syncid (name, listing) s'"
    "\<And>f x. f \<noteq> outputDir E @ ''.synced/'' @ name \<Longrightarrow> f \<noteq> testfile E \<Longrightarrow> files s f = Some x \<Longrightarrow> files s' f = Some x"
proof -
  let ?f = "outputDir E @ ''.synced/'' @ name" and ?e = "sync_entry E (syncdir @ ''/'' @ name)"
  have "synced_ok E n s' \<and> peer_done E syncid (name, listing) s' \<and>
      (\<forall>f x. f \<noteq> ?f \<longrightarrow> f \<noteq> testfile E \<longrightarrow> files s f = Some x \<longrightarrow> files s' f = Some x)"
  proof (cases "take 1 name = ''.'' \<or> name = syncid \<or> listing = None")
    case True
    then show ?thesis using run ok by (auto simp: sync_peer_def peer_done_def split: if_splits)
  next
    case False
    define s0 where "s0 = (if files s ?f = None then s\<lparr>files := (files s)(?f \<mapsto> [])\<rparr> else s)"
    obtain xs old k s1 old1 where xs: "listing = Some xs" and io: "io_ok E ?f" and old: "files s0 ?f = Some old"
      and loop: "foldM (?e (unat (le_word (take 4 old) :: u32))) xs (unat (le_word (take 4 old) :: u32), s0) = Some (k, s1)"
      and s': "s' = s1\<lparr>files := (files s1)(?f \<mapsto> le_bytes 4 (of_nat k :: u32) @ drop 4 old1)\<rparr>"
      using run False by (auto simp: sync_peer_def s0_def Let_def bind_eq_Some_conv split: if_splits)
    have s0: "maps_ok n s0" "length (errorList s0) < 2 ^ 32" using ok by (simp_all add: s0_def synced_ok_def maps_ok_def)
    have rel: "fuzz_rel E n s0 s1" using ensuresD [OF sync_entries_rel [OF fuzz_rel_refl [OF s0(1)] s0(2)] loop] by simp
    have "unat (le_word (take 4 old) :: u32) < 2 ^ 32" by (rule order.strict_trans2 [OF unsigned_less]) simp
    then have k: "k < 2 ^ 32" "ids_below k xs" using sync_entries_next [OF loop order_refl] ids xs by auto
    have keep: "f \<noteq> testfile E \<Longrightarrow> files s0 f \<noteq> None \<Longrightarrow> files s1 f = files s0 f" for f
      using rel by (simp add: fuzz_rel_def grows_def)
    have "files s' f = Some x" if "f \<noteq> ?f" "f \<noteq> testfile E" "files s f = Some x" for f x
      using keep [of f] that by (simp add: s' s0_def split: if_splits)
    moreover have "synced_ok E n s'" using rel s0(2) by (simp add: s' synced_ok_def fuzz_rel_def maps_ok_def grows_def)
    ultimately show ?thesis using k io xs by (auto simp: s' peer_done_def)
  qed
  then show "synced_ok E n s'" "peer_done E syncid (name, listing) s'"
    "\<And>f x. f \<noteq> ?f \<Longrightarrow> f \<noteq> testfile E \<Longrightarrow> files s f = Some x \<Longrightarrow> files s' f = Some x" by blast+
qed

lemma sync_all_done:
  assumes "foldM (sync_peer E syncdir syncid) peers s = Some s'" and "synced_ok E n s"
    and dir: "\<not> prefix (outputDir E) (testfile E)" and "distinct (map fst peers)"
    and "\<forall>(name, listing) \<in> set peers. \<forall>xs. listing = Some xs \<longrightarrow> ids_below (2 ^ 32 - 1) xs"
  shows "(\<forall>p \<in> set peers. peer_done E syncid p s') \<and>
    (\<forall>p. fst p \<notin> fst ` set peers \<longrightarrow> peer_done E syncid p s \<longrightarrow> peer_done E syncid p s')"
  using assms(1,2,4,5)
proof (induction peers arbitrary: s)
  case Nil
  then show ?case by simp
next
  case (Cons p peers)
  obtain name listing where p: "p = (name, listing)" by fastforce
  obtain s1 where step: "sync_peer E syncdir syncid (name, listing) s = Some s1"
    and rest: "foldM (sync_peer E syncdir syncid) peers s1 = Some s'"
    using Cons.prems(1) by (auto simp: p bind_eq_Some_conv)
  have ids: "\<forall>xs. listing = Some xs \<longrightarrow> ids_below (2 ^ 32 - 1) xs" using Cons.prems(4) by (simp add: p)
  note dn = sync_peer_done [OF Cons.prems(2) dir step ids]
  have IH: "\<forall>p \<in> set peers. peer_done E syncid p s'"
    "\<And>p. fst p \<notin> fst ` set peers \<Longrightarrow> peer_done E syncid p s1 \<Longrightarrow> peer_done E syncid p s'"
    using Cons.IH [OF rest dn(1)] Cons.prems(3,4) by auto
  have other: "peer_done E syncid p' s1" if "fst p' \<noteq> name" "peer_done E syncid p' s" for p'
  proof -
    have "outputDir E @ x \<noteq> testfile E" for x using dir by (metis prefixI)
    then show ?thesis using that dn(3) [of "outputDir E @ ''.synced/'' @ fst p'"]
      by (auto simp: peer_done_def case_prod_beta split: option.splits)
  qed
  show ?case using IH dn(2) other Cons.prems(3) by (auto simp: p)
qed

text \<open>
  C29: no test case of another instance is imported twice.  Once the shared directory has been
  processed, processing the same directory again runs nothing and changes nothing.
\<close>

theorem SychronizeFuzzer_once:
  assumes "SychronizeFuzzer E syncdir syncid peers s = Some s'" and "maps_ok n s" and "length (errorList s) < 2 ^ 32"
    and "\<not> prefix (outputDir E) (testfile E)" and "distinct (map fst peers)"
    and "\<forall>(name, listing) \<in> set peers. \<forall>xs. listing = Some xs \<longrightarrow> ids_below (2 ^ 32 - 1) xs"
  shows "SychronizeFuzzer E syncdir syncid peers s' = Some s'"
proof -
  have "\<forall>p \<in> set peers. peer_done E syncid p s'"
    using sync_all_done [OF assms(1) [unfolded SychronizeFuzzer_def] _ assms(4-6)] assms(2,3)
    by (simp add: synced_ok_def)
  moreover have "foldM (sync_peer E syncdir syncid) ps s' = Some s'" if "\<forall>p \<in> set ps. peer_done E syncid p s'" for ps
    using that by (induction ps) (simp_all add: sync_peer_idle)
  ultimately show ?thesis unfolding SychronizeFuzzer_def by blast
qed

theorem SychronizeFuzzer_once_witness:
  "\<exists>s'. SychronizeFuzzer plain_env ''sync'' ''me'' [(''peer'', Some [''.x'', ''notes''])] one_seed = Some s' \<and>
    SychronizeFuzzer plain_env ''sync'' ''me'' [(''peer'', Some [''.x'', ''notes''])] s' = Some s'"
proof -
  let ?p = "[(''peer'', Some [''.x'', ''notes''])] :: peer list"
  have none: "entry_id ''.x'' = None" "entry_id ''notes'' = None"
    by (simp_all add: entry_id_def scan_06u_def is_space_def is_digit_def Let_def)
  then have ids: "ids_below (2 ^ 32 - 1) [''.x'', ''notes'']" by (simp add: ids_below_def)
  have "\<exists>s'. SychronizeFuzzer plain_env ''sync'' ''me'' ?p one_seed = Some s'"
    by (simp add: SychronizeFuzzer_def sync_peer_def sync_entry_def none plain_env_def one_seed_def initial_fuzzer_def
        Let_def)
  then obtain s' where run: "SychronizeFuzzer plain_env ''sync'' ''me'' ?p one_seed = Some s'" by blast
  have "SychronizeFuzzer plain_env ''sync'' ''me'' ?p s' = Some s'"
    by (rule SychronizeFuzzer_once [OF run, where n = 8])
      (use ids in \<open>simp_all add: maps_ok_def one_seed_def initial_fuzzer_def plain_env_def\<close>)
  with run show ?thesis by blast
qed

text \<open>
  After the first million test cases of an instance have been imported, no further one is:
  the number read from its name is below the next expected one.
\<close>

theorem later_seeds_not_imported:
  assumes "num2str_Keep6bit n = Some d" and "10 ^ 6 \<le> n" and "10 ^ 6 \<le> min_accept"
  shows "sync_entry E dir min_accept (d @ rest) (k, s) = Some (k, s)"
proof -
  obtain m where "scan_06u (d @ rest) = Some m" "m < 10 ^ 6"
    using read_number [OF assms(1)] assms(2) by (metis linorder_not_le)
  then have "entry_id (d @ rest) = None \<or> entry_id (d @ rest) = Some m \<and> m < min_accept"
    using assms(3) by (simp add: entry_id_def)
  then show ?thesis by (auto simp: sync_entry_def)
qed

theorem later_seeds_not_imported_witness:
  "\<exists>d. num2str_Keep6bit 1234567 = Some d \<and>
    sync_entry plain_env ''sync/peer'' 1234567 (d @ ''+cov'') (1234567, one_seed) = Some (1234567, one_seed)"
proof -
  have "\<exists>d. num2str_Keep6bit 1234567 = Some d"
    by (simp add: num2str_Keep6bit_def dec_digits.simps Let_def)
  then obtain d where d: "num2str_Keep6bit 1234567 = Some d" by blast
  from later_seeds_not_imported [OF d] d show ?thesis by auto
qed

end
