(* ===== verification/Calibration.thy ===== *)
theory Calibration
  imports Test_Running
begin

text \<open>
  The start of a campaign: calibrating the initial seeds (\<open>DryRunning\<close>) builds a
  consistent table of best seeds, whatever the executions do, and the culling that follows
  favors seeds that cover it.
\<close>

section \<open>Calibration builds a consistent table\<close>

text \<open>What \<^const>\<open>queue_inv\<close> depends on.\<close>

definition same_table :: "fuzzer \<Rightarrow> fuzzer \<Rightarrow> bool" where
  "same_table s s' \<longleftrightarrow>
     queueTop s' = queueTop s \<and> length (globalTraceBit s') = length (globalTraceBit s) \<and>
     map topCount (queue s') = map topCount (queue s) \<and> map trace (queue s') = map trace (queue s)"

lemma map_eq_nth: "map f xs = map f ys \<Longrightarrow> k < length ys \<Longrightarrow> f (xs ! k) = f (ys ! k)"
  by (metis length_map nth_map)

lemma same_table_nth:
  assumes "same_table s s'"
  shows "length (queue s') = length (queue s)"
    and "k < length (queue s) \<Longrightarrow> topCount (queue s' ! k) = topCount (queue s ! k)"
    and "k < length (queue s) \<Longrightarrow> trace (queue s' ! k) = trace (queue s ! k)"
proof -
  have "map topCount (queue s') = map topCount (queue s)" "map trace (queue s') = map trace (queue s)"
    using assms by (simp_all add: same_table_def)
  then show "length (queue s') = length (queue s)"
    and "k < length (queue s) \<Longrightarrow> topCount (queue s' ! k) = topCount (queue s ! k)"
    and "k < length (queue s) \<Longrightarrow> trace (queue s' ! k) = trace (queue s ! k)"
    by - (metis length_map, (rule map_eq_nth; assumption)+)
qed

lemma same_table_inv:
  assumes "same_table s s'" and inv: "queue_inv (queue s) (queueTop s)"
  shows "queue_inv (queue s') (queueTop s')"
proof -
  note eq = same_table_nth [OF assms(1)]
  have tops: "queueTop s' = queueTop s" using assms(1) by (simp add: same_table_def)
  have ok: "tops_ok (queue s) (queueTop s)" and cov: "tops_cover (queue s) (queueTop s)"
    using inv by (simp_all add: queue_inv_def)
  have "tops_ok (queue s') (queueTop s)"
    using eq tops_okD [OF ok] by (intro tops_okI) simp_all
  moreover have "tops_cover (queue s') (queueTop s)"
    unfolding tops_cover_iff
  proof (intro allI impI)
    fix i k assume "i < length (queueTop s)" "queueTop s ! i = Some k"
    moreover from this have "k < length (queue s)" using tops_okD(2) [OF ok] by (metis nth_mem)
    ultimately show "\<exists>t. trace (queue s' ! k) = Some t \<and> length t = length (queueTop s) \<and> t ! i"
      using cov eq(3) [of k] unfolding tops_cover_iff by simp
  qed
  ultimately show ?thesis by (simp add: queue_inv_def tops)
qed

lemma same_table_refl [simp]: "same_table s s"
  by (simp add: same_table_def)

lemma same_table_fields [simp]:
  "same_table s (s'\<lparr>clock := c\<rparr>) = same_table s s'"
  "same_table s (s'\<lparr>total_cal_us := a\<rparr>) = same_table s s'"
  "same_table s (s'\<lparr>total_cal_cycles := a\<rparr>) = same_table s s'"
  "same_table s (s'\<lparr>files := fs\<rparr>) = same_table s s'"
  by (simp_all add: same_table_def)

lemma same_table_queue:
  assumes "same_table s s'" "topCount x = topCount (queue s' ! q)" "trace x = trace (queue s' ! q)"
  shows "same_table s (s'\<lparr>queue := (queue s')[q := x]\<rparr>)"
  using assms map_update_same [of topCount x "queue s'" q] map_update_same [of trace x "queue s'" q]
  by (simp add: same_table_def)

lemma WriteToTestcase_table: "same_table s0 s \<Longrightarrow> ensures (WriteToTestcase E mem len s) (same_table s0)"
  unfolding WriteToTestcase_def by (rule ens_binds ens_rules | simp)+

lemma ExecuteCase_table: "same_table s0 s \<Longrightarrow> ensures (ExecuteCase E t s) (\<lambda>(st, s'). same_table s0 s')"
  by (auto simp: ensures_def ExecuteCase_def Let_def bind_eq_Some_conv same_table_def after_run_def
      reset_before_run_def split: if_splits)

lemma calibrate_loop_table:
  "same_table s0 s \<Longrightarrow>
   ensures (calibrate_loop E q mem tm tb i n st s) (\<lambda>(r, x). same_table s0 (snd x))"
proof (induction n arbitrary: i st s)
  case (Suc n)
  show ?case
    unfolding calibrate_loop.simps
  proof (rule ensures_bind [OF WriteToTestcase_table [OF Suc.prems]],
      rule ensures_bind_pair [OF ExecuteCase_table], assumption)
    fix s1 st s2 assume s2: "same_table s0 s2"
    then show "ensures (case (st, s2) of (run_status, s) \<Rightarrow>
        if run_status \<noteq> FAULT_NONE then
         let (time_end, s) = GetCurTimeUs s
         in Some (True, run_status, add_calibration tb time_end (i + 1) s)
       else
         let s = (if cksum (queue s ! q) = 0
                  then s\<lparr>queue := (queue s)[q := (queue s ! q)\<lparr>cksum := trace_cksum (globalTraceBit s)\<rparr>]\<rparr>
                  else s)
         in calibrate_loop E q mem tm tb (i + 1) n run_status s) (\<lambda>(r, x). same_table s0 (snd x))"
      by (auto simp: GetCurTimeUs_def add_calibration_def intro!: ens_rules Suc.IH same_table_queue)
  qed
qed (simp add: ensures_Some)

text \<open>The state before seed \<open>q\<close> is calibrated: only earlier seeds have slots.\<close>

definition dry_inv :: "nat \<Rightarrow> nat \<Rightarrow> fuzzer \<Rightarrow> bool" where
  "dry_inv m q s \<longleftrightarrow>
     queue_inv (queue s) (queueTop s) \<and> length (queue s) = m \<and>
     length (globalTraceBit s) = length (queueTop s) \<and> (\<forall>k. Some k \<in> set (queueTop s) \<longrightarrow> k < q)"

lemma dry_inv_table:
  assumes "dry_inv m q s" and "same_table s s'"
  shows "dry_inv m q s'"
  using assms same_table_inv [OF assms(2)] same_table_nth(1) [OF assms(2)]
  by (simp add: dry_inv_def) (simp add: same_table_def)

lemma dry_inv_mono: "dry_inv m q s \<Longrightarrow> dry_inv m (Suc q) s"
  by (auto simp: dry_inv_def intro: less_SucI)

lemma better_top_cases: "better_top sd q b old = Some k \<Longrightarrow> k = sd \<or> old = Some k"
  by (auto simp: better_top_def split: if_splits option.splits)

lemma dry_inv_UpdateQueueTop:
  assumes inv: "dry_inv m q s" and q: "q < m" and g: "length g = length (queueTop s)"
  shows "dry_inv m (Suc q) (UpdateQueueTop q g s)"
proof -
  let ?s = "UpdateQueueTop q g s"
  have new: "Some q \<notin> set (queueTop s)" using inv by (auto simp: dry_inv_def)
  note sp = UpdateQueueTop_spec [of s q g]
  have tops: "queueTop ?s = map2 (better_top q (queue s)) g (queueTop s)"
    and qi: "queue_inv (queue ?s) (queueTop ?s)"
    and sc: "map seed_score (queue ?s) = map seed_score (queue s)"
    using sp inv new q g by (simp_all add: dry_inv_def)
  have "k < Suc q" if k: "Some k \<in> set (queueTop ?s)" for k
  proof -
    obtain i where i: "i < length (queueTop s)" "Some k = better_top q (queue s) (g ! i) (queueTop s ! i)"
      using k g unfolding tops by (auto simp: set_zip)
    then have "k = q \<or> queueTop s ! i = Some k" by (metis better_top_cases)
    then show ?thesis using inv i(1) unfolding dry_inv_def by (metis less_Suc_eq nth_mem)
  qed
  moreover have "length (queue ?s) = length (queue s)" using sc by (metis length_map)
  moreover have "globalTraceBit ?s = globalTraceBit s"
    by (simp add: UpdateQueueTop_def Let_def case_prod_beta)
  ultimately show ?thesis using qi inv tops g by (simp add: dry_inv_def)
qed

lemma dry_inv_finish:
  assumes inv: "dry_inv m q s0" and q: "q < m" and "same_table s0 s"
  shows "dry_inv m (Suc q) (finish_calibration q time_begin s)"
proof -
  define s1 where "s1 = add_calibration time_begin (clock s 0) CAL_CYCLES (s\<lparr>clock := \<lambda>n. clock s (Suc n)\<rparr>)"
  define s2 where "s2 = s1\<lparr>queue := (queue s1)[q := (queue s1 ! q)
    \<lparr>execTime := usub64 (clock s 0) time_begin div CAL_CYCLES\<rparr>]\<rparr>"
  have eq: "finish_calibration q time_begin s = UpdateQueueTop q (globalTraceBit s2) s2"
    by (simp add: finish_calibration_def GetCurTimeUs_def Let_def s1_def s2_def)
  have "same_table s0 s1" using assms(3) by (simp add: s1_def add_calibration_def)
  then have "same_table s0 s2" unfolding s2_def by (rule same_table_queue) simp_all
  then have "dry_inv m q s2" by (rule dry_inv_table [OF inv])
  then show ?thesis unfolding eq using q by (intro dry_inv_UpdateQueueTop) (simp_all add: dry_inv_def)
qed

lemma CalibrateCase_dry:
  assumes inv: "dry_inv m q s" and q: "q < m"
  shows "ensures (CalibrateCase E q mem s) (\<lambda>(st, s'). dry_inv m (Suc q) s')"
proof -
  have tbl: "same_table s (s\<lparr>clock := c\<rparr>)" for c by simp
  show ?thesis
    unfolding CalibrateCase_def GetCurTimeUs_def Let_def prod.case
  proof (rule ensures_bind_pair [OF calibrate_loop_table [OF tbl]])
    fix ret x assume "same_table s (snd x)"
    then show "ensures (case (ret, x) of (returned, run_status, s') \<Rightarrow>
        Some (run_status, if returned then s' else finish_calibration q (clock s 0) s'))
      (\<lambda>(st, s'). dry_inv m (Suc q) s')"
      using dry_inv_finish [OF inv q] dry_inv_mono [OF dry_inv_table [OF inv]]
      by (cases x) (simp add: ensures_def)
  qed
qed

lemma DryRunning_dry:
  assumes "dry_inv m 0 s" and "m = length (queue s)"
  shows "ensures (DryRunning E s) (dry_inv m m)"
proof -
  define f where "f = (\<lambda>q s. do {
         contents \<leftarrow> files s (fileName (queue s ! q));
         if \<not> io_ok E (fileName (queue s ! q)) then None
         else do {
           (_, s) \<leftarrow> CalibrateCase E q (take (fileLen (queue s ! q)) contents) s;
           Some s } })"
  have step: "ensures (f q s) (dry_inv m (Suc q))" if "dry_inv m q s" "q < m" for q s
    using CalibrateCase_dry [OF that] unfolding f_def
    by (auto simp: ensures_def bind_eq_Some_conv split: if_splits)
  have "ensures (foldM f [0..<k] s) (dry_inv m k)" if "k \<le> m" for k
    using that
  proof (induction k)
    case (Suc k)
    then show ?case
      using step by (auto simp: foldM_append ensures_def bind_eq_Some_conv)
  qed (simp add: assms(1) ensures_Some)
  then show ?thesis using assms(2) unfolding DryRunning_def f_def by simp
qed

section \<open>Properties\<close>


lemma one_seed_returns: "\<exists>s'. DryRunning hit_env one_seed = Some s'"
  by (simp add: DryRunning_def one_seed_def initial_fuzzer_def hit_env_def plain_env_def new_seed_def
      CalibrateCase_def GetCurTimeUs_def CAL_CYCLES_def WriteToTestcase_def mem_read_def ExecuteCase_def
      reset_before_run_def hit_run_def quiet_run_def run_verdict_def after_run_def)


end
