(* ===== verification/Main_Loop.thy ===== *)
theory Main_Loop
  imports Fuzz_Main Synchronize Calibration
begin

text \<open>
  \<open>main\<close> of the fuzzer (\<open>Main.cpp\<close>): the start, and the loop that takes one seed after the
  other.  The loop is a step relation; its invariants hold in every state it reaches.
\<close>

section \<open>The start\<close>

text \<open>
  The coverage shared between instances (\<open>multi_proc_shm_create\<close>, \<open>multi_proc_shm_get\<close>):
  a master creates both segments filled with \<open>0xff\<close>, a slave attaches what the master
  shares.  A lock file that is missing is created.
\<close>

definition attach_coverage ::
  "fuzz_env \<Rightarrow> u8 list \<Rightarrow> u8 list \<Rightarrow> fuzzer \<Rightarrow> fuzzer" where
  "attach_coverage E shared shared_branch s =
     (if sync_cov E \<and> sync_id E \<noteq> [] then
        let n = length (virginMap s);
            s = (if sync_state E = ''MASTER''
                 then s\<lparr>sync_cov_ptr := Some (replicate n 255), sync_branch_cov_ptr := Some (replicate n 255)\<rparr>
                 else s\<lparr>sync_cov_ptr := Some shared, sync_branch_cov_ptr := Some shared_branch\<rparr>)
        in if files s ''file_lock'' = None
           then s\<lparr>files := (files s)(''file_lock'' \<mapsto> map of_char ''file_lock'')\<rparr> else s
      else s)"

definition begin_queue :: "fuzzer \<Rightarrow> nat option" where
  "begin_queue s = (if queue s = [] then None else Some 0)"

definition startup ::
  "fuzz_env \<Rightarrow> string list \<Rightarrow> u8 list \<Rightarrow> u8 list \<Rightarrow> fuzzer \<Rightarrow> fuzzer option" where
  "startup E entries shared shared_branch s =
     do {
       let s = print_result E ''Start'' s;
       s \<leftarrow> ReadTestcases E (inputDir E) entries s;
       let s = attach_coverage E shared shared_branch s;
       let s = s\<lparr>queueCur := begin_queue s\<rparr>;
       let s = s\<lparr>queueTop := map (\<lambda>_. None) (queueTop s), concurrent_queue_top := map (\<lambda>_. None) (concurrent_queue_top s)\<rparr>;
       s \<leftarrow> DryRunning E s;
       let s = CullQueue E s;
       Some (init_stats s)
     }"

section \<open>The loop\<close>

text \<open>
  \<open>queueCur\<close> is \<open>None\<close> at the end of the queue.  The counter of the synchronisations is
  taken modulo \<open>SYNC_CYCLE\<close>, which is 1, so none is left out.
\<close>

definition start_cycle :: "fuzzer \<Rightarrow> fuzzer" where
  "start_cycle s =
     (if queueCur s = None then s\<lparr>queueCycle := inc64 (queueCycle s), queueCur := begin_queue s\<rparr> else s)"

definition next_seed :: "fuzzer \<Rightarrow> fuzzer" where
  "next_seed s =
     s\<lparr>queueCur := (case queueCur s of None \<Rightarrow> None
                   | Some q \<Rightarrow> if Suc q < length (queue s) then Some (Suc q) else None)\<rparr>"

definition main_iteration :: "fuzz_env \<Rightarrow> string \<Rightarrow> peer list \<Rightarrow> fuzzer \<Rightarrow> fuzzer option" where
  "main_iteration E syncdir peers s =
     do {
       let s = start_cycle (CullQueue E s);
       q \<leftarrow> queueCur s;
       (stateFuzz, s) \<leftarrow> FuzzMain E q s;
       let s = next_seed s;
       if \<not> sync_cov E \<and> sync_id E \<noteq> [] \<and> stateFuzz = 0
       then SychronizeFuzzer E syncdir (sync_id E) peers s
       else Some s
     }"

text \<open>The states the loop reaches; what the other instances share may be different every time.\<close>

inductive main_reach :: "fuzz_env \<Rightarrow> string \<Rightarrow> fuzzer \<Rightarrow> fuzzer \<Rightarrow> bool" for E syncdir s where
  reach_start: "main_reach E syncdir s s"
| reach_step: "main_reach E syncdir s s1 \<Longrightarrow> main_iteration E syncdir peers s1 = Some s2 \<Longrightarrow> main_reach E syncdir s s2"

inductive_cases main_reach_cases: "main_reach E syncdir s s'"

section \<open>Invariant\<close>

definition cur_ok :: "fuzzer \<Rightarrow> bool" where
  "cur_ok s \<longleftrightarrow> queue s \<noteq> [] \<and> (case queueCur s of None \<Rightarrow> True | Some q \<Rightarrow> q < length (queue s))"

definition main_inv :: "nat \<Rightarrow> fuzz_env \<Rightarrow> fuzzer \<Rightarrow> bool" where
  "main_inv n E s \<longleftrightarrow> maps_ok n s \<and> can_read E s \<and> length (errorList s) < 2 ^ 32 \<and> cur_ok s"

text \<open>What an iteration keeps of the seeds that were there.\<close>

definition same_seed :: "seed \<Rightarrow> seed \<Rightarrow> bool" where
  "same_seed a b \<longleftrightarrow> fileName a = fileName b \<and> fileLen a = fileLen b \<and> elistFileName a = elistFileName b \<and>
     control_matrix_file a = control_matrix_file b \<and> (wasFuzzed a \<longrightarrow> wasFuzzed b)"

definition keeps_queue :: "fuzzer \<Rightarrow> fuzzer \<Rightarrow> bool" where
  "keeps_queue s s' \<longleftrightarrow> length (queue s) \<le> length (queue s') \<and>
     (\<forall>k < length (queue s). same_seed (queue s ! k) (queue s' ! k)) \<and> seen (virginMap s) \<subseteq> seen (virginMap s')"

lemma keeps_queue_trans: "keeps_queue s s' \<Longrightarrow> keeps_queue s' s'' \<Longrightarrow> keeps_queue s s''"
  by (fastforce simp: keeps_queue_def same_seed_def)

section \<open>One iteration\<close>

text \<open>Culling changes only which seeds are favored.\<close>

definition marks :: "seed list \<Rightarrow> seed list \<Rightarrow> bool" where
  "marks q q' \<longleftrightarrow> list_all2 (\<lambda>a b. a\<lparr>favored := True\<rparr> = b\<lparr>favored := True\<rparr>) q q'"

lemma marks_refl: "marks q q"
  by (simp add: marks_def list_all2_refl)

lemma marks_favored: "marks q q' \<Longrightarrow> marks q (q'[k := (q' ! k)\<lparr>favored := b\<rparr>])"
  by (cases "k < length q'") (auto simp: marks_def list_all2_conv_all_nth nth_list_update)

lemma marks_loop: "marks q (fst (snd st)) \<Longrightarrow> marks q (fst (snd (cull_loop tr tops xs st)))"
proof (induction xs arbitrary: st)
  case (Cons i xs)
  obtain r q' p where st: "st = (r, q', p)" by (cases st)
  have "marks q (fst (snd (cull_step tr tops i st)))"
    using Cons.prems marks_favored by (auto simp: st cull_step_def split: option.split)
  then show ?case using Cons.IH by (simp add: cull_loop_def)
qed (simp add: cull_loop_def)

lemma CullQueue_marks: "marks (queue s) (queue (CullQueue E s))"
proof (cases "scoreChange s")
  case True
  let ?n = "length (queueTop s)" and ?q = "map (\<lambda>sd. sd\<lparr>favored := False\<rparr>) (queue s)"
  obtain r q p where l1: "cull_loop trace (queueTop s) [0..<?n] (replicate ?n False, ?q, False) = (r, q, p)"
    by (metis prod_cases3)
  obtain r' q' p' where l2: "cull_loop concurrent_trace (concurrent_queue_top s) [0..<?n] (replicate ?n False, q, p) = (r', q', p')"
    by (metis prod_cases3)
  have "marks (queue s) ?q" by (simp add: marks_def list_all2_conv_all_nth)
  then have q: "marks (queue s) q" using marks_loop [of "queue s" "(replicate ?n False, ?q, False)"] l1 by (metis fst_conv snd_conv)
  then have "marks (queue s) q'" using marks_loop [of "queue s" "(replicate ?n False, q, p)"] l2 by (metis fst_conv snd_conv)
  then show ?thesis using q l1 l2 True by (simp add: CullQueue_def Let_def)
qed (simp add: CullQueue_def marks_refl)

lemma marks_nth: "marks q q' \<Longrightarrow> k < length q \<Longrightarrow> (q ! k)\<lparr>favored := favored (q' ! k)\<rparr> = q' ! k"
proof -
  assume "marks q q'" "k < length q"
  then have "(q ! k)\<lparr>favored := True\<rparr> = (q' ! k)\<lparr>favored := True\<rparr>" by (simp add: marks_def list_all2_conv_all_nth)
  then show "(q ! k)\<lparr>favored := favored (q' ! k)\<rparr> = q' ! k" by (cases "q ! k"; cases "q' ! k") simp
qed

lemma marks_same:
  assumes "marks q q'"
  shows "length q' = length q" "k < length q \<Longrightarrow> same_seed (q ! k) (q' ! k)" "k < length q \<Longrightarrow> wasFuzzed (q' ! k) = wasFuzzed (q ! k)"
proof -
  show "length q' = length q" using assms by (simp add: marks_def list_all2_lengthD)
  assume "k < length q"
  then obtain b where "q' ! k = (q ! k)\<lparr>favored := b\<rparr>" using marks_nth [OF assms] by metis
  then show "same_seed (q ! k) (q' ! k)" "wasFuzzed (q' ! k) = wasFuzzed (q ! k)" by (simp_all add: same_seed_def)
qed

lemma CullQueue_fields [simp]:
  "maps_ok n (CullQueue E s) = maps_ok n s" "files (CullQueue E s) = files s" "errorList (CullQueue E s) = errorList s"
  "queueCur (CullQueue E s) = queueCur s" "virginMap (CullQueue E s) = virginMap s" "queueTop (CullQueue E s) = queueTop s"
  "rand_tape (CullQueue E s) = rand_tape s" "queueCycle (CullQueue E s) = queueCycle s"
  by (simp_all add: CullQueue_def Let_def case_prod_beta maps_ok_def)

lemma queue_files_ok_same_seeds:
  assumes "queue_files_ok E s" and "files s' = files s" and "length (queue s') = length (queue s)"
    and "\<And>k. k < length (queue s) \<Longrightarrow> same_seed (queue s ! k) (queue s' ! k)"
  shows "queue_files_ok E s'"
  unfolding queue_files_ok_iff
proof
  fix sd assume "sd \<in> set (queue s')"
  then obtain k where k: "k < length (queue s)" "sd = queue s' ! k" using assms(3) by (auto simp: in_set_conv_nth)
  then have "fileName sd = fileName (queue s ! k)" "fileLen sd = fileLen (queue s ! k)"
    using assms(4) [OF k(1)] by (simp_all add: same_seed_def)
  then show "fileName sd \<noteq> testfile E \<and> (\<exists>c. files s' (fileName sd) = Some c \<and> length c = fileLen sd)"
    using assms(1,2) k(1) nth_mem [OF k(1)] unfolding queue_files_ok_iff by metis
qed

lemma start_cycle_fields [simp]:
  "maps_ok n (start_cycle s) = maps_ok n s" "files (start_cycle s) = files s" "errorList (start_cycle s) = errorList s"
  "queue (start_cycle s) = queue s" "virginMap (start_cycle s) = virginMap s" "queueTop (start_cycle s) = queueTop s"
  "scoreChange (start_cycle s) = scoreChange s" "pendFavor (start_cycle s) = pendFavor s"
  by (simp_all add: start_cycle_def maps_ok_def)

lemma start_main_inv:
  assumes "main_inv n E s"
  shows "main_inv n E (start_cycle (CullQueue E s))"
proof -
  note m = marks_same [OF CullQueue_marks [of s E]]
  have "queue_files_ok E (start_cycle (CullQueue E s))"
    by (rule queue_files_ok_same_seeds [of E s]) (use assms m in \<open>simp_all add: main_inv_def can_read_def\<close>)
  moreover have "cur_ok (start_cycle (CullQueue E s))"
    using assms m(1) by (auto simp: main_inv_def cur_ok_def start_cycle_def begin_queue_def split: option.splits)
  ultimately show ?thesis using assms by (simp add: main_inv_def can_read_def)
qed

lemma start_keeps_queue: "keeps_queue s (start_cycle (CullQueue E s))"
  using marks_same [OF CullQueue_marks [of s E]] by (simp add: keeps_queue_def)

lemma next_seed_fields [simp]:
  "maps_ok n (next_seed s) = maps_ok n s" "files (next_seed s) = files s" "errorList (next_seed s) = errorList s"
  "queue (next_seed s) = queue s" "virginMap (next_seed s) = virginMap s" "queueTop (next_seed s) = queueTop s"
  "scoreChange (next_seed s) = scoreChange s" "pendFavor (next_seed s) = pendFavor s"
  "can_read E (next_seed s) = can_read E s"
  by (simp_all add: next_seed_def maps_ok_def can_read_def queue_files_ok_def)

text \<open>The default build shares coverage instead of test cases, so the loop does not import any.\<close>

definition no_import :: "fuzz_env \<Rightarrow> bool" where
  "no_import E \<longleftrightarrow> sync_cov E \<or> sync_id E = []"

lemma main_iterationD:
  assumes "main_inv n E s" and "no_import E" and "main_iteration E syncdir peers s = Some s'"
  obtains q r s0 s1 where "s0 = start_cycle (CullQueue E s)" and "queueCur s0 = Some q" and "q < length (queue s0)"
    and "FuzzMain E q s0 = Some (r, s1)" and "s' = next_seed s1" and "main_rel E n q s0 (r, s1)"
proof -
  let ?s = "start_cycle (CullQueue E s)"
  obtain q r s1 where q: "queueCur ?s = Some q" and run: "FuzzMain E q ?s = Some (r, s1)" and s': "s' = next_seed s1"
    using assms(2,3) by (auto simp: main_iteration_def no_import_def Let_def bind_eq_Some_conv split: if_splits)
  have inv: "main_inv n E ?s" by (rule start_main_inv [OF assms(1)])
  then have "q < length (queue ?s)" using q by (simp add: main_inv_def cur_ok_def)
  moreover have "main_rel E n q ?s (r, s1)"
    using ensuresD [OF FuzzMain_rel run] inv by (simp add: main_inv_def)
  ultimately show ?thesis using that [OF refl q _ run s'] by blast
qed

lemma main_relD:
  assumes "main_rel E n q s (r, s')" and "q < length (queue s)" and "can_read E s"
  shows "maps_ok n s'" "can_read E s'" "length (errorList s') = length (errorList s)"
    "length (queue s) \<le> length (queue s')" "queueCur s' = queueCur s" "scoreChange s' = scoreChange s"
    "pendFavor s' = pendFavor s" "queueTop s' = queueTop s" "seen (virginMap s) \<subseteq> seen (virginMap s')"
    "\<And>k. k < length (queue s) \<Longrightarrow> queue s' ! k =
       (if k = q \<and> r = FUZZING_NORMAL then (queue s ! k)\<lparr>wasFuzzed := True\<rparr> else queue s ! k)"
    "\<And>k. length (queue s) \<le> k \<Longrightarrow> k < length (queue s') \<Longrightarrow> \<not> favored (queue s' ! k) \<and> \<not> wasFuzzed (queue s' ! k)"
    "r = FUZZING_NORMAL \<or> r = FUZZING_SKIP"
proof -
  obtain s1 where rel: "stage_rel E n s s1"
    and s': "r = FUZZING_SKIP \<and> s' = s1 \<or> r = FUZZING_NORMAL \<and> s' = set_wasFuzzed q s1"
    using assms(1) by (auto simp: main_rel_def)
  have s1: "maps_ok n s1" "prefix (queue s) (queue s1)" "length (errorList s1) = length (errorList s)"
    "queueCur s1 = queueCur s" "scoreChange s1 = scoreChange s" "pendFavor s1 = pendFavor s"
    "queueTop s1 = queueTop s" "seen (virginMap s) \<subseteq> seen (virginMap s1)" "fresh_from (length (queue s)) (queue s1)"
    using rel by (simp_all add: stage_rel_def fuzz_rel_def grows_def)
  have len: "length (queue s) \<le> length (queue s1)" "\<And>k. k < length (queue s) \<Longrightarrow> queue s1 ! k = queue s ! k"
    using s1(2) by (auto simp: prefix_def nth_append)
  have fresh: "\<not> favored (queue s1 ! k) \<and> \<not> wasFuzzed (queue s1 ! k)" if "length (queue s) \<le> k" "k < length (queue s1)" for k
  proof -
    have "drop (length (queue s)) (queue s1) ! (k - length (queue s)) = queue s1 ! k" using that by simp
    then show ?thesis using s1(9) that unfolding fresh_from_def list_all_length by (metis diff_less_mono length_drop)
  qed
  have rd: "can_read E s1" by (rule can_read_stage [OF assms(3) rel])
  show "maps_ok n s'" "length (errorList s') = length (errorList s)" "length (queue s) \<le> length (queue s')"
    "queueCur s' = queueCur s" "scoreChange s' = scoreChange s" "pendFavor s' = pendFavor s" "queueTop s' = queueTop s"
    "seen (virginMap s) \<subseteq> seen (virginMap s')" "r = FUZZING_NORMAL \<or> r = FUZZING_SKIP"
    using s' s1(1,3-8) len(1) by (auto simp: set_wasFuzzed_def maps_ok_def)
  show "can_read E s'" using s' rd can_read_wasFuzzed [OF rd] assms(2) len(1) by auto
  show "queue s' ! k = (if k = q \<and> r = FUZZING_NORMAL then (queue s ! k)\<lparr>wasFuzzed := True\<rparr> else queue s ! k)"
    if "k < length (queue s)" for k
    using s' len that by (auto simp: set_wasFuzzed_def nth_list_update FUZZING_NORMAL_def FUZZING_SKIP_def)
  show "\<not> favored (queue s' ! k) \<and> \<not> wasFuzzed (queue s' ! k)" if "length (queue s) \<le> k" "k < length (queue s')" for k
    using s' fresh [of k] that assms(2) by (auto simp: set_wasFuzzed_def nth_list_update)
qed

lemma main_iteration_inv:
  assumes "main_inv n E s" and "no_import E" and "main_iteration E syncdir peers s = Some s'"
  shows "main_inv n E s'" "keeps_queue s s'"
proof -
  obtain q r s0 s1 where s0: "s0 = start_cycle (CullQueue E s)" and q: "queueCur s0 = Some q" "q < length (queue s0)"
    and s': "s' = next_seed s1" and rel: "main_rel E n q s0 (r, s1)"
    by (rule main_iterationD [OF assms])
  have inv: "main_inv n E s0" unfolding s0 by (rule start_main_inv [OF assms(1)])
  then have rd: "can_read E s0" by (simp add: main_inv_def)
  note D = main_relD [OF rel q(2) rd]
  have "queue s1 \<noteq> []" using D(4) q(2) by auto
  then have "cur_ok s'" by (simp add: s' cur_ok_def next_seed_def split: option.split)
  then show "main_inv n E s'" using D(1-3) inv by (simp add: s' main_inv_def)
  have "same_seed (queue s0 ! k) (queue s1 ! k)" if "k < length (queue s0)" for k
    using D(10) [OF that] by (simp add: same_seed_def)
  then have "keeps_queue s0 s'" using D(4,9) by (simp add: s' keeps_queue_def)
  then show "keeps_queue s s'" using keeps_queue_trans [OF start_keeps_queue [of s E]] by (simp add: s0)
qed

section \<open>Properties of the loop\<close>

text \<open>
  C25: as long as the loop runs, every seed of the queue has its file, all maps have their size,
  the current seed is in the queue, and no seed, no mark on a fuzzed seed and no coverage is
  ever lost.
\<close>

theorem main_loop_invariant:
  assumes "main_reach E syncdir s s'" and "main_inv n E s" and "no_import E"
  shows "main_inv n E s' \<and> keeps_queue s s'"
  using assms(1)
proof induction
  case reach_start
  then show ?case using assms(2) by (simp add: keeps_queue_def same_seed_def)
next
  case (reach_step s1 peers s2)
  then show ?case using main_iteration_inv [OF _ assms(3) reach_step.hyps(2)] keeps_queue_trans by blast
qed

lemma skip_run:
  "main_iteration plain_env d ps one_seed = Some (next_seed (start_cycle (CullQueue plain_env one_seed)))"
  "main_inv 8 plain_env one_seed" "no_import plain_env"
proof -
  have "should_skip (queue one_seed ! 0) s = (True, s)" if "pendFavor s = False" "rand_tape s = (\<lambda>_. 0)" for s
  proof -
    have "s\<lparr>rand_tape := \<lambda>_. 0\<rparr> = s" using that(2) by (cases s) simp
    then show ?thesis
      using that by (simp add: should_skip_def skip_with_def rnd_def randNum_def one_seed_def new_seed_def to_u32_def
          SKIP_NFAV_OLD_PROB_def SKIP_NFAV_NEW_PROB_def)
  qed
  then show "main_iteration plain_env d ps one_seed = Some (next_seed (start_cycle (CullQueue plain_env one_seed)))"
    by (simp add: main_iteration_def FuzzMain_def CullQueue_def start_cycle_def begin_queue_def plain_env_def
        one_seed_def initial_fuzzer_def)
  show "main_inv 8 plain_env one_seed"
    by (simp add: main_inv_def maps_ok_def can_read_def queue_files_ok_def cur_ok_def one_seed_def initial_fuzzer_def
        new_seed_def plain_env_def)
  show "no_import plain_env" by (simp add: no_import_def plain_env_def)
qed

theorem main_loop_invariant_witness:
  "\<exists>s'. main_iteration plain_env ''sync'' [] one_seed = Some s' \<and> main_inv 8 plain_env s'"
proof -
  obtain s' where run: "main_iteration plain_env ''sync'' [] one_seed = Some s'" using skip_run(1) by blast
  have "main_reach plain_env ''sync'' one_seed s'" by (rule main_reach.intros(2) [OF main_reach.intros(1) run])
  from main_loop_invariant [OF this skip_run(2,3)] run show ?thesis by blast
qed

text \<open>What the loop never changes once the culling of the start is done.\<close>

definition frozen :: "fuzzer \<Rightarrow> fuzzer \<Rightarrow> bool" where
  "frozen s s' \<longleftrightarrow> \<not> scoreChange s' \<and> pendFavor s' = pendFavor s \<and> queueTop s' = queueTop s \<and>
     length (queue s) \<le> length (queue s') \<and>
     (\<forall>k < length (queue s'). favored (queue s' ! k) \<longleftrightarrow> k < length (queue s) \<and> favored (queue s ! k))"

lemma main_iteration_frozen:
  assumes "main_inv n E s1" and "no_import E" and "main_iteration E syncdir peers s1 = Some s2" and "frozen s s1"
  shows "frozen s s2"
proof -
  obtain q r s0 t where s0: "s0 = start_cycle (CullQueue E s1)" and q: "queueCur s0 = Some q" "q < length (queue s0)"
    and s2: "s2 = next_seed t" and rel: "main_rel E n q s0 (r, t)"
    by (rule main_iterationD [OF assms(1-3)])
  have "can_read E s0" unfolding s0 using start_main_inv [OF assms(1)] by (simp add: main_inv_def)
  note D = main_relD [OF rel q(2) this]
  have "CullQueue E s1 = s1" using assms(4) by (simp add: CullQueue_def frozen_def)
  then have same: "queue s0 = queue s1" "pendFavor s0 = pendFavor s1" "queueTop s0 = queueTop s1" "scoreChange s0 = scoreChange s1"
    by (simp_all add: s0)
  have "favored (queue t ! k) \<longleftrightarrow> k < length (queue s) \<and> favored (queue s ! k)" if "k < length (queue t)" for k
  proof (cases "k < length (queue s1)")
    case True
    then have "favored (queue t ! k) = favored (queue s1 ! k)" using D(10) [of k] same(1) by simp
    then show ?thesis using assms(4) True by (simp add: frozen_def)
  next
    case False
    then show ?thesis using D(11) [of k] that same(1) assms(4) by (simp add: frozen_def)
  qed
  then show ?thesis
    using D(4,6-8) same assms(4) by (simp add: s2 frozen_def)
qed

text \<open>
  C28: after the start nothing is culled any more.  The table of best seeds, the favored seeds
  and the flag that some favored seed is still to be fuzzed stay as the first culling left them,
  and no seed found later is ever favored; while the flag is set, every seed found later is
  skipped unless the random number is 99.
\<close>

theorem culling_stays_frozen:
  assumes "main_reach E syncdir s s'" and "main_inv n E s" and "no_import E" and "\<not> scoreChange s"
  shows "queueTop s' = queueTop s \<and> pendFavor s' = pendFavor s \<and>
    (\<forall>k < length (queue s'). favored (queue s' ! k) \<longleftrightarrow> k < length (queue s) \<and> favored (queue s ! k)) \<and>
    (pendFavor s \<longrightarrow> (\<forall>k < length (queue s'). length (queue s) \<le> k \<longrightarrow>
       should_skip (queue s' ! k) s' = skip_with SKIP_TO_NEW_PROB s'))"
proof -
  have "main_inv n E s' \<and> frozen s s'"
    using assms(1)
  proof induction
    case reach_start
    then show ?case using assms(2,4) by (simp add: frozen_def)
  next
    case (reach_step s1 peers s2)
    then show ?case
      using main_iteration_inv [OF _ assms(3) reach_step.hyps(2)] main_iteration_frozen [OF _ assms(3) reach_step.hyps(2)]
      by blast
  qed
  then show ?thesis by (auto simp: frozen_def should_skip_def)
qed

theorem culling_stays_frozen_witness:
  "\<exists>s'. main_iteration plain_env ''sync'' [] one_seed = Some s' \<and> queueTop s' = queueTop one_seed"
proof -
  obtain s' where run: "main_iteration plain_env ''sync'' [] one_seed = Some s'" using skip_run(1) by blast
  have reach: "main_reach plain_env ''sync'' one_seed s'" by (rule main_reach.intros(2) [OF main_reach.intros(1) run])
  have "\<not> scoreChange one_seed" by (simp add: one_seed_def initial_fuzzer_def)
  from culling_stays_frozen [OF reach skip_run(2,3) this] run show ?thesis by blast
qed

text \<open>The loop for a number of iterations.\<close>

primrec main_loop :: "fuzz_env \<Rightarrow> string \<Rightarrow> nat \<Rightarrow> fuzzer \<Rightarrow> fuzzer option" where
  "main_loop E syncdir 0 s = Some s"
| "main_loop E syncdir (Suc j) s = do { s \<leftarrow> main_iteration E syncdir [] s; main_loop E syncdir j s }"

lemma main_iteration_cur:
  assumes "main_inv n E s" and "no_import E" and "main_iteration E syncdir peers s = Some s'" and "queueCur s = Some k"
  shows "k < length (queue s)" "queueCur s' = (if Suc k < length (queue s') then Some (Suc k) else None)"
    "favored (queue (CullQueue E s) ! k) \<Longrightarrow> \<not> wasFuzzed (queue s ! k) \<Longrightarrow> wasFuzzed (queue s' ! k)"
proof -
  obtain q r s0 t where s0: "s0 = start_cycle (CullQueue E s)" and q: "queueCur s0 = Some q" "q < length (queue s0)"
    and run: "FuzzMain E q s0 = Some (r, t)" and s': "s' = next_seed t" and rel: "main_rel E n q s0 (r, t)"
    by (rule main_iterationD [OF assms(1-3)])
  have "can_read E s0" unfolding s0 using start_main_inv [OF assms(1)] by (simp add: main_inv_def)
  note D = main_relD [OF rel q(2) this]
  have k: "q = k" using q(1) assms(4) by (simp add: s0 start_cycle_def)
  note m = marks_same [OF CullQueue_marks [of s E]]
  show lt: "k < length (queue s)" using q(2) m(1) by (simp add: k s0)
  show "queueCur s' = (if Suc k < length (queue s') then Some (Suc k) else None)"
    using D(5) q(1) by (simp add: s' next_seed_def k)
  assume fav: "favored (queue (CullQueue E s) ! k)" and "\<not> wasFuzzed (queue s ! k)"
  then have "fst (should_skip (queue s0 ! q) s0) = False"
    using m(3) [OF lt] by (simp add: s0 k should_skip_def)
  moreover have "main_inv n E s0" unfolding s0 by (rule start_main_inv [OF assms(1)])
  ultimately have "r = FUZZING_NORMAL" using ensuresD [OF FuzzMain_outcome [where n = n] run] by (simp add: main_inv_def)
  then show "wasFuzzed (queue s' ! k)" using D(10) [of k] q(2) by (simp add: s' k)
qed

lemma main_loop_cur:
  assumes "main_loop E syncdir j s = Some s'" and "main_inv n E s" and "no_import E" and "queueCur s = Some k"
    and "k + j < length (queue s)"
  shows "queueCur s' = Some (k + j) \<and> main_inv n E s' \<and> keeps_queue s s'"
  using assms(1,2,4,5)
proof (induction j arbitrary: s k)
  case 0
  then show ?case by (simp add: keeps_queue_def same_seed_def)
next
  case (Suc j)
  obtain s1 where step: "main_iteration E syncdir [] s = Some s1" and rest: "main_loop E syncdir j s1 = Some s'"
    using Suc.prems(1) by (auto simp: bind_eq_Some_conv)
  note inv = main_iteration_inv [OF Suc.prems(2) assms(3) step]
  have len: "length (queue s) \<le> length (queue s1)" using inv(2) by (simp add: keeps_queue_def)
  then have "queueCur s1 = Some (Suc k)"
    using main_iteration_cur(2) [OF Suc.prems(2) assms(3) step Suc.prems(3)] Suc.prems(4) by simp
  from Suc.IH [OF rest inv(1) this] show ?case using len Suc.prems(4) keeps_queue_trans [OF inv(2)] by auto
qed



section \<open>The start establishes the invariant\<close>

text \<open>What the dry run keeps: the maps' sizes, the seeds' files, and every file but the test case.\<close>

definition dry_rel :: "fuzz_env \<Rightarrow> nat \<Rightarrow> fuzzer \<Rightarrow> fuzzer \<Rightarrow> bool" where
  "dry_rel E n s s' \<longleftrightarrow> maps_ok n s' \<and> map fileName (queue s') = map fileName (queue s) \<and>
     map fileLen (queue s') = map fileLen (queue s) \<and> (\<forall>f. f \<noteq> testfile E \<longrightarrow> files s' f = files s f) \<and>
     length (errorList s') = length (errorList s) \<and> queueCur s' = queueCur s"

lemma dry_rel_refl: "maps_ok n s \<Longrightarrow> dry_rel E n s s"
  by (simp add: dry_rel_def)

lemma dry_rel_fields [simp]:
  "dry_rel E n s (s'\<lparr>clock := c\<rparr>) = dry_rel E n s s'"
  "dry_rel E n s (s'\<lparr>total_cal_us := a\<rparr>) = dry_rel E n s s'"
  "dry_rel E n s (s'\<lparr>total_cal_cycles := a\<rparr>) = dry_rel E n s s'"
  by (simp_all add: dry_rel_def maps_ok_def)

lemma dry_rel_queue:
  assumes "dry_rel E n s s'" and "fileName x = fileName (queue s' ! q)" and "fileLen x = fileLen (queue s' ! q)"
  shows "dry_rel E n s (s'\<lparr>queue := (queue s')[q := x]\<rparr>)"
  using assms map_update_same [of fileName x "queue s'" q] map_update_same [of fileLen x "queue s'" q]
  by (simp add: dry_rel_def maps_ok_def)

lemma WriteToTestcase_keeps_dry: "dry_rel E n s0 s \<Longrightarrow> ensures (WriteToTestcase E mem len s) (dry_rel E n s0)"
  by (auto simp: ensures_def WriteToTestcase_def bind_eq_Some_conv dry_rel_def maps_ok_def split: if_splits)

lemma ExecuteCase_keeps_dry:
  assumes "dry_rel E n s0 s"
  shows "ensures (ExecuteCase E t s) (\<lambda>(st, s'). dry_rel E n s0 s')"
proof (rule ensuresI, clarify)
  fix st s' assume run: "ExecuteCase E t s = Some (st, s')"
  then obtain x where s': "s' = after_run x (reset_before_run E s)" by (auto simp: ExecuteCase_def Let_def bind_eq_Some_conv)
  have "maps_ok n s'"
    using ensuresD [OF ExecuteCase_ens [OF fuzz_rel_refl] run] assms by (auto simp: dry_rel_def fuzz_rel_def)
  moreover have "queue s' = queue s" "files s' = files s" "errorList s' = errorList s" "queueCur s' = queueCur s"
    by (simp_all add: s' after_run_def reset_before_run_def Let_def)
  ultimately show "dry_rel E n s0 s'" using assms by (simp add: dry_rel_def)
qed

lemma calibrate_loop_keeps_dry:
  "dry_rel E n s0 s \<Longrightarrow> ensures (calibrate_loop E q mem tm tb i m st s) (\<lambda>(r, x). dry_rel E n s0 (snd x))"
proof (induction m arbitrary: i st s)
  case (Suc m)
  show ?case
    unfolding calibrate_loop.simps
  proof (rule ensures_bind [OF WriteToTestcase_keeps_dry [OF Suc.prems]],
      rule ensures_bind_pair [OF ExecuteCase_keeps_dry], assumption)
    fix s1 st s2 assume s2: "dry_rel E n s0 s2"
    then show "ensures (case (st, s2) of (run_status, s) \<Rightarrow>
        if run_status \<noteq> FAULT_NONE then
         let (time_end, s) = GetCurTimeUs s
         in Some (True, run_status, add_calibration tb time_end (i + 1) s)
       else
         let s = (if cksum (queue s ! q) = 0
                  then s\<lparr>queue := (queue s)[q := (queue s ! q)\<lparr>cksum := trace_cksum (globalTraceBit s)\<rparr>]\<rparr>
                  else s)
         in calibrate_loop E q mem tm tb (i + 1) m run_status s) (\<lambda>(r, x). dry_rel E n s0 (snd x))"
      by (auto simp: GetCurTimeUs_def add_calibration_def intro!: ens_rules Suc.IH dry_rel_queue)
  qed
qed (simp add: ensures_Some)

lemma finish_calibration_keeps_dry: "dry_rel E n s0 s \<Longrightarrow> dry_rel E n s0 (finish_calibration q tb s)"
proof -
  assume rel: "dry_rel E n s0 s"
  define s2 where "s2 = (let s1 = add_calibration tb (clock s 0) CAL_CYCLES (s\<lparr>clock := \<lambda>n. clock s (Suc n)\<rparr>)
    in s1\<lparr>queue := (queue s1)[q := (queue s1 ! q)\<lparr>execTime := usub64 (clock s 0) tb div CAL_CYCLES\<rparr>]\<rparr>)"
  have "dry_rel E n s0 s2" unfolding s2_def Let_def by (rule dry_rel_queue) (simp_all add: rel add_calibration_def)
  moreover have "map fileName (queue (UpdateQueueTop q g s2)) = map fileName (queue s2)"
    "map fileLen (queue (UpdateQueueTop q g s2)) = map fileLen (queue s2)" for g
    by (rule UpdateQueueTop_map; simp)+
  ultimately have "dry_rel E n s0 (UpdateQueueTop q g s2)" for g
    by (simp add: dry_rel_def) (simp add: UpdateQueueTop_def Let_def case_prod_beta maps_ok_def)
  then show ?thesis by (simp add: finish_calibration_def GetCurTimeUs_def s2_def Let_def)
qed

lemma CalibrateCase_keeps_dry:
  assumes "dry_rel E n s0 s"
  shows "ensures (CalibrateCase E q mem s) (\<lambda>(st, s'). dry_rel E n s0 s')"
  unfolding CalibrateCase_def GetCurTimeUs_def Let_def prod.case
proof (rule ensures_bind_pair [OF calibrate_loop_keeps_dry])
  show "dry_rel E n s0 (s\<lparr>clock := \<lambda>n. clock s (Suc n)\<rparr>)" using assms by simp
  fix ret x assume "dry_rel E n s0 (snd x)"
  then show "ensures (case (ret, x) of (returned, run_status, s') \<Rightarrow>
      Some (run_status, if returned then s' else finish_calibration q (clock s 0) s')) (\<lambda>(st, s'). dry_rel E n s0 s')"
    by (cases x) (simp add: ensures_def finish_calibration_keeps_dry)
qed

lemma DryRunning_keeps_dry:
  assumes "maps_ok n s"
  shows "ensures (DryRunning E s) (dry_rel E n s)"
  unfolding DryRunning_def
proof (rule ensures_foldM)
  fix q s1 assume rel: "dry_rel E n s s1"
  show "ensures (do {
         contents \<leftarrow> files s1 (fileName (queue s1 ! q));
         if \<not> io_ok E (fileName (queue s1 ! q)) then None
         else do {
           (_, s1) \<leftarrow> CalibrateCase E q (take (fileLen (queue s1 ! q)) contents) s1;
           Some s1 } }) (dry_rel E n s)"
    by (rule ensures_bind [OF ensures_True], intro ensures_if, simp add: ensures_None,
        rule ensures_bind_pair [OF CalibrateCase_keeps_dry [OF rel]]) (simp add: ensures_Some)
qed (rule dry_rel_refl [OF assms])

definition read_ok :: "fuzz_env \<Rightarrow> fuzzer \<Rightarrow> fuzzer \<Rightarrow> bool" where
  "read_ok E s0 s \<longleftrightarrow> s = s0\<lparr>queue := queue s\<rparr> \<and>
     (\<forall>sd \<in> set (queue s). prefix (inputDir E) (fileName sd) \<and> (\<exists>c. files s0 (fileName sd) = Some c \<and> length c = fileLen sd))"

lemma ReadTestcases_ok:
  assumes "queue s = []"
  shows "ensures (ReadTestcases E (inputDir E) entries s) (read_ok E s)"
  unfolding ReadTestcases_def
proof (rule ensures_foldM)
  fix d_name s1 assume ok: "read_ok E s s1"
  then have s1: "s1 = s\<lparr>queue := queue s1\<rparr>" by (simp add: read_ok_def)
  have fs: "files s1 = files s" by (subst s1) simp
  have "read_ok E s (AddToQueue (inputDir E @ d_name) (length c) None None s1)"
    if "files s1 (inputDir E @ d_name) = Some c" for c
  proof -
    have "s1\<lparr>queue := q\<rparr> = s\<lparr>queue := q\<rparr>" for q by (subst s1) simp
    then show ?thesis
      using ok that fs by (auto simp: read_ok_def AddToQueue_def new_seed_def Let_def)
  qed
  then show "ensures (if d_name \<noteq> ''.'' \<and> d_name \<noteq> ''..'' then
         do { fsize \<leftarrow> GetFileSize E (inputDir E @ d_name) s1;
              Some (AddToQueue (inputDir E @ d_name) fsize None None s1) }
       else Some s1) (read_ok E s)"
    using ok by (auto simp: ensures_def GetFileSize_def bind_eq_Some_conv split: if_splits)
qed (use assms in \<open>simp add: read_ok_def\<close>)

lemma dry_rel_files:
  assumes "dry_rel E n s s'" and "queue_files_ok E s"
  shows "queue_files_ok E s'"
  unfolding queue_files_ok_iff
proof
  fix sd assume "sd \<in> set (queue s')"
  then obtain k where k: "k < length (queue s')" "sd = queue s' ! k" by (auto simp: in_set_conv_nth)
  have names: "map fileName (queue s') = map fileName (queue s)" "map fileLen (queue s') = map fileLen (queue s)"
    and fs: "\<And>f. f \<noteq> testfile E \<Longrightarrow> files s' f = files s f" using assms(1) by (simp_all add: dry_rel_def)
  have len: "length (queue s') = length (queue s)" using names(1) by (rule map_eq_imp_length_eq)
  have sd: "fileName sd = fileName (queue s ! k)" "fileLen sd = fileLen (queue s ! k)"
    unfolding k(2) by (rule map_eq_nth; use names k(1) len in simp)+
  have "queue s ! k \<in> set (queue s)" using k(1) len by simp
  then show "fileName sd \<noteq> testfile E \<and> (\<exists>c. files s' (fileName sd) = Some c \<and> length c = fileLen sd)"
    using assms(2) sd fs unfolding queue_files_ok_iff by metis
qed

lemma init_stats_fields [simp]:
  "maps_ok n (init_stats s) = maps_ok n s" "queue (init_stats s) = queue s" "files (init_stats s) = files s"
  "errorList (init_stats s) = errorList s" "queueCur (init_stats s) = queueCur s" "scoreChange (init_stats s) = scoreChange s"
  "queue_files_ok E (init_stats s) = queue_files_ok E s"
  by (simp_all add: init_stats_def Let_def maps_ok_def queue_files_ok_def)

lemma CullQueue_settled [simp]: "\<not> scoreChange (CullQueue E s)"
  by (simp add: CullQueue_def Let_def case_prod_beta)

text \<open>
  C26: the start leads into the loop.  If the start succeeds on at least one test case, the
  invariant of the loop holds, and nothing is left to cull, so what the loop never changes is
  what the start found.
\<close>

theorem startup_establishes_invariant:
  assumes "startup E entries shared shared_branch s = Some s'" and "maps_ok n s" and "queue s = []"
    and "length (errorList s) < 2 ^ 32" and "length shared = n" and "length shared_branch = n"
    and "\<forall>f. io_ok E f" and "\<not> prefix (outputDir E) (testfile E)" and "\<not> prefix (inputDir E) (testfile E)"
    and "queue s' \<noteq> []"
  shows "main_inv n E s' \<and> \<not> scoreChange s'"
proof -
  let ?p = "print_result E ''Start'' s"
  obtain s1 s3 where s1: "ReadTestcases E (inputDir E) entries ?p = Some s1"
    and s3: "DryRunning E (let s = attach_coverage E shared shared_branch s1; s = s\<lparr>queueCur := begin_queue s\<rparr>
       in s\<lparr>queueTop := map (\<lambda>_. None) (queueTop s), concurrent_queue_top := map (\<lambda>_. None) (concurrent_queue_top s)\<rparr>) = Some s3"
    and s': "s' = init_stats (CullQueue E s3)"
    using assms(1) by (auto simp: startup_def Let_def bind_eq_Some_conv)
  define s2 where "s2 = (let s = attach_coverage E shared shared_branch s1; s = s\<lparr>queueCur := begin_queue s\<rparr>
    in s\<lparr>queueTop := map (\<lambda>_. None) (queueTop s), concurrent_queue_top := map (\<lambda>_. None) (concurrent_queue_top s)\<rparr>)"
  have p: "maps_ok n ?p" "queue ?p = []" "errorList ?p = errorList s"
    using assms(2,3) by (simp_all add: print_result_def GetTimeStr_def GetCurTimeUs_def Let_def maps_ok_def)
  have ok: "read_ok E ?p s1" using ensuresD [OF ReadTestcases_ok [OF p(2)] s1] .
  then have eq: "s1 = ?p\<lparr>queue := queue s1\<rparr>" by (simp add: read_ok_def)
  have m1: "maps_ok n s1" "errorList s1 = errorList s" "files s1 = files ?p" using p by (subst eq, simp add: maps_ok_def)+
  have "queue_files_ok E s1"
    using ok assms(9) m1(3) unfolding queue_files_ok_iff read_ok_def by metis
  then have s2: "maps_ok n s2" "queue_files_ok E s2" "errorList s2 = errorList s" "queueCur s2 = begin_queue s2"
    using m1 assms(5,6)
    by (auto simp: s2_def attach_coverage_def begin_queue_def maps_ok_def queue_files_ok_def Let_def split: option.splits)
  have rel: "dry_rel E n s2 s3"
    using ensuresD [OF DryRunning_keeps_dry [OF s2(1)]] s3 by (simp add: s2_def)
  have s3': "queue_files_ok E s3" by (rule dry_rel_files [OF rel s2(2)])
  note m = marks_same [OF CullQueue_marks [of s3 E]]
  have "queue_files_ok E (CullQueue E s3)"
    by (rule queue_files_ok_same_seeds [OF s3' _ m(1,2)]) simp_all
  moreover have "length (queue s3) = length (queue s2)"
    using rel unfolding dry_rel_def by (metis map_eq_imp_length_eq)
  moreover from this have "cur_ok s'"
    using rel s2(4) assms(10) m(1) by (simp add: s' cur_ok_def dry_rel_def begin_queue_def split: option.split)
  ultimately show ?thesis
    using rel s2(3) assms(4,7,8) by (simp add: s' main_inv_def can_read_def dry_rel_def)
qed

lemma length_finish [simp]: "length (queue (finish_calibration q tb s)) = length (queue s)"
proof -
  have "length (queue (UpdateQueueTop q g t)) = length (queue t)" for g t
    by (rule map_eq_imp_length_eq [OF UpdateQueueTop_map [of fileName]]) simp
  then show ?thesis by (simp add: finish_calibration_def GetCurTimeUs_def add_calibration_def Let_def)
qed

theorem startup_establishes_invariant_witness:
  "\<exists>s'. startup plain_env [''.'', ''a''] (replicate 8 255) (replicate 8 255)
      (initial_fuzzer 8 0 0 0 0 [''in/a'' \<mapsto> [1, 2, 3]] (\<lambda>_. 0) (\<lambda>_. 0)) = Some s' \<and> main_inv 8 plain_env s'"
proof -
  let ?i = "initial_fuzzer 8 0 0 0 0 [''in/a'' \<mapsto> [1, 2, 3]] (\<lambda>_. 0) (\<lambda>_. 0)"
  let ?m = "startup plain_env [''.'', ''a''] (replicate 8 255) (replicate 8 255) ?i"
  have "\<exists>s'. ?m = Some s' \<and> length (queue s') = 1"
    by (simp add: startup_def ReadTestcases_def GetFileSize_def AddToQueue_def attach_coverage_def begin_queue_def
        print_result_def GetTimeStr_def initial_fuzzer_def DryRunning_def plain_env_def new_seed_def
        CalibrateCase_def GetCurTimeUs_def CAL_CYCLES_def WriteToTestcase_def mem_read_def ExecuteCase_def
        reset_before_run_def quiet_run_def run_verdict_def after_run_def marks_same(1) [OF CullQueue_marks] Let_def)
  then obtain s' where run: "?m = Some s'" and "length (queue s') = 1" by (elim exE conjE)
  then have q: "queue s' \<noteq> []" by auto
  have "main_inv 8 plain_env s' \<and> \<not> scoreChange s'"
    by (rule startup_establishes_invariant [OF run]) (use q in \<open>simp_all add: initial_fuzzer_def maps_ok_def plain_env_def\<close>)
  with run show ?thesis by blast
qed

end
