(* ===== verification/Dst_Random.thy ===== *)
theory Dst_Random
  imports DF_Prelude
begin

text \<open>
  The random file of a tested system (\<open>src/core/src/dst_default_random.c\<close>): every decision
  of the fault injectors and of the test driver is read from a file that the fuzzer mutates.
  The reader hands out the bytes of the file in order and zeros once the file is used up.  Several
  threads of the driver call it at the same time; a mutex is held during each call.  The step
  relation \<open>reader_step\<close> models the calls byte by byte, with the mutex, and the property of this
  theory is that every interleaving of the calls cuts the file into consecutive pieces.

  Allocation succeeds in the model, and \<open>fread\<close> delivers the whole file; the length is therefore
  the length of the array.
\<close>

named_theorems random_simps \<open>reading the random file\<close>

section \<open>The reader\<close>

record rand_file =
  fuzz_file_index :: nat
  fuzz_file_array :: "u8 list"

definition fuzz_file_length :: "rand_file \<Rightarrow> nat" where
  "fuzz_file_length r = length (fuzz_file_array r)"

definition no_file :: rand_file where
  "no_file = \<lparr>fuzz_file_index = 0, fuzz_file_array = []\<rparr>"

definition read_byte :: "rand_file \<Rightarrow> u8 \<times> rand_file" where
  "read_byte r =
     (if fuzz_file_length r \<le> fuzz_file_index r then (0, r)
      else (fuzz_file_array r ! fuzz_file_index r,
            r\<lparr>fuzz_file_index := to_u32 (fuzz_file_index r + 1)\<rparr>))"

text \<open>Opening the file; \<^term>\<open>None\<close> is \<open>exit(-1)\<close>.  The index keeps its value.\<close>

definition file_to_string :: "(string \<Rightarrow> u8 list option) \<Rightarrow> string \<Rightarrow> rand_file \<Rightarrow> rand_file option" where
  "file_to_string fs name r = do { bytes \<leftarrow> fs name; Some (r\<lparr>fuzz_file_array := bytes\<rparr>) }"

definition init_random_file ::
  "(string \<Rightarrow> u8 list option) \<Rightarrow> (string \<Rightarrow> string option) \<Rightarrow> rand_file \<Rightarrow> rand_file option" where
  "init_random_file fs env r =
     (case env ''__DST_ENV_RANDOM_FILE__'' of None \<Rightarrow> Some r | Some name \<Rightarrow> file_to_string fs name r)"

definition dst_reinit_random ::
  "(string \<Rightarrow> u8 list option) \<Rightarrow> string option \<Rightarrow> rand_file \<Rightarrow> rand_file option" where
  "dst_reinit_random fs file_name r =
     (case file_name of None \<Rightarrow> Some r | Some name \<Rightarrow> file_to_string fs name (r\<lparr>fuzz_file_array := []\<rparr>))"

definition get_random_uint8_t :: "rand_file \<Rightarrow> u8 \<times> rand_file" where
  "get_random_uint8_t r = read_byte r"

definition get_random_uint16_t :: "rand_file \<Rightarrow> u16 \<times> rand_file" where
  "get_random_uint16_t r =
     (let (b, r) = read_byte r; result = push_bit 8 (ucast b);
          (b, r) = read_byte r; result = result OR ucast b
      in (result, r))"

definition get_random_uint32_t :: "rand_file \<Rightarrow> u32 \<times> rand_file" where
  "get_random_uint32_t r =
     (let (b, r) = read_byte r; result = push_bit 8 (ucast b);
          (b, r) = read_byte r; result = push_bit 8 (result OR ucast b);
          (b, r) = read_byte r; result = push_bit 8 (result OR ucast b);
          (b, r) = read_byte r; result = result OR ucast b
      in (result, r))"

fun get_random_string :: "nat \<Rightarrow> rand_file \<Rightarrow> u8 list \<times> rand_file" where
  "get_random_string 0 r = ([], r)"
| "get_random_string (Suc n) r =
     (let (b, r) = read_byte r; (bs, r) = get_random_string n r in (b # bs, r))"

section \<open>Calls of several threads\<close>

text \<open>
  A thread is outside the reader, waits for the mutex in a call for some number of bytes, or
  holds it and has read some of them.  The answers (thread, number of bytes asked for, bytes) are
  listed in the order of the returns.
\<close>

datatype reader_pc = Outside | Waits nat | Holds nat "u8 list"

record reader =
  owner :: "nat option"
  rfile :: rand_file
  pcs :: "nat \<Rightarrow> reader_pc"
  answers :: "(nat \<times> nat \<times> u8 list) list"

definition reader_start :: "rand_file \<Rightarrow> reader" where
  "reader_start r = \<lparr>owner = None, rfile = r, pcs = (\<lambda>_. Outside), answers = []\<rparr>"

inductive reader_step :: "reader \<Rightarrow> reader \<Rightarrow> bool" where
  call: "pcs s t = Outside \<Longrightarrow> reader_step s (s\<lparr>pcs := (pcs s)(t := Waits n)\<rparr>)"
| lock: "pcs s t = Waits n \<Longrightarrow> owner s = None \<Longrightarrow>
    reader_step s (s\<lparr>owner := Some t, pcs := (pcs s)(t := Holds n [])\<rparr>)"
| read: "pcs s t = Holds n bs \<Longrightarrow> length bs < n \<Longrightarrow> read_byte (rfile s) = (b, r) \<Longrightarrow>
    reader_step s (s\<lparr>rfile := r, pcs := (pcs s)(t := Holds n (bs @ [b]))\<rparr>)"
| unlock: "pcs s t = Holds n bs \<Longrightarrow> length bs = n \<Longrightarrow>
    reader_step s (s\<lparr>owner := None, pcs := (pcs s)(t := Outside), answers := answers s @ [(t, n, bs)]\<rparr>)"

inductive_cases reader_stepE: "reader_step s s'"

section \<open>What a call returns\<close>

definition byte_at :: "rand_file \<Rightarrow> nat \<Rightarrow> u8" where
  "byte_at r i = (if i < fuzz_file_length r then fuzz_file_array r ! i else 0)"

text \<open>The next \<open>n\<close> bytes of the stream: the rest of the file, then zeros.\<close>

definition stream :: "rand_file \<Rightarrow> nat \<Rightarrow> u8 list" where
  "stream r n = map (\<lambda>i. byte_at r (fuzz_file_index r + i)) [0..<n]"

definition skip_bytes :: "nat \<Rightarrow> rand_file \<Rightarrow> rand_file" where
  "skip_bytes n r = r\<lparr>fuzz_file_index := (if fuzz_file_length r \<le> fuzz_file_index r then fuzz_file_index r
     else min (fuzz_file_index r + n) (fuzz_file_length r))\<rparr>"

lemma length_stream [simp]: "length (stream r n) = n"
  by (simp add: stream_def)

lemma stream_0 [simp]: "stream r 0 = []"
  by (simp add: stream_def)

lemma skip_0 [simp]: "skip_bytes 0 r = r"
  by (cases r) (simp add: skip_bytes_def fuzz_file_length_def)

lemma skip_length [simp]: "fuzz_file_length (skip_bytes n r) = fuzz_file_length r"
  by (simp add: skip_bytes_def fuzz_file_length_def)

lemma skip_skip [simp]: "skip_bytes m (skip_bytes n r) = skip_bytes (n + m) r"
  by (auto simp: skip_bytes_def fuzz_file_length_def)

lemma byte_at_skip: "byte_at (skip_bytes n r) i = byte_at r i"
  by (simp add: byte_at_def fuzz_file_length_def skip_bytes_def)

lemma stream_nth: "i < n \<Longrightarrow> stream r n ! i = byte_at r (fuzz_file_index r + i)"
  by (simp add: stream_def)

lemma stream_append: "stream r (m + n) = stream r m @ stream (skip_bytes m r) n"
proof (rule nth_equalityI)
  fix i
  assume i: "i < length (stream r (m + n))"
  show "stream r (m + n) ! i = (stream r m @ stream (skip_bytes m r) n) ! i"
  proof (cases "i < m")
    case True
    then show ?thesis by (simp add: nth_append stream_nth)
  next
    case False
    then have "byte_at r (fuzz_file_index r + i) = byte_at r (fuzz_file_index (skip_bytes m r) + (i - m))"
      by (auto simp: byte_at_def fuzz_file_length_def skip_bytes_def)
    with False i show ?thesis by (simp add: nth_append stream_nth byte_at_skip)
  qed
qed simp

lemma read_byte_stream [random_simps]:
  assumes "fuzz_file_length r < 2 ^ 32"
  shows "read_byte r = (byte_at r (fuzz_file_index r), skip_bytes 1 r)"
  using assms by (auto simp: read_byte_def byte_at_def skip_bytes_def to_u32_def Suc_leI)

text \<open>The multi-byte reads deliver the bytes of the stream, the first one most significant.\<close>

lemma get_random_string_stream [random_simps]:
  "fuzz_file_length r < 2 ^ 32 \<Longrightarrow> get_random_string n r = (stream r n, skip_bytes n r)"
proof (induction n arbitrary: r)
  case (Suc n)
  have "stream r (1 + n) = stream r 1 @ stream (skip_bytes 1 r) n" by (rule stream_append)
  with Suc show ?case by (simp add: random_simps stream_def)
qed simp

lemma get_random_uint8_string:
  "get_random_uint8_t r = (let (bs, r') = get_random_string 1 r in (bs ! 0, r'))"
  by (simp add: get_random_uint8_t_def split_beta Let_def)

lemma get_random_uint16_string:
  "get_random_uint16_t r =
     (let (bs, r') = get_random_string 2 r in (push_bit 8 (ucast (bs ! 0)) OR ucast (bs ! 1), r'))"
  by (simp add: get_random_uint16_t_def split_beta Let_def numeral_2_eq_2)

lemma get_random_uint32_string:
  "get_random_uint32_t r =
     (let (bs, r') = get_random_string 4 r
      in (push_bit 8 (push_bit 8 (push_bit 8 (ucast (bs ! 0)) OR ucast (bs ! 1)) OR ucast (bs ! 2))
            OR ucast (bs ! 3), r'))"
proof -
  have four: "4 = Suc (Suc (Suc (Suc 0)))" by simp
  show ?thesis
    unfolding four by (simp add: get_random_uint32_t_def split_beta Let_def)
qed

section \<open>Atomic calls\<close>

text \<open>The sequential reader: the calls are served one after the other.\<close>

fun serve :: "(nat \<times> nat) list \<Rightarrow> rand_file \<Rightarrow> (nat \<times> nat \<times> u8 list) list \<times> rand_file" where
  "serve [] r = ([], r)"
| "serve ((t, n) # cs) r =
     (let (bs, r) = get_random_string n r; (as, r) = serve cs r in ((t, n, bs) # as, r))"

definition calls_of :: "(nat \<times> nat \<times> u8 list) list \<Rightarrow> (nat \<times> nat) list" where
  "calls_of as = map (\<lambda>(t, n, bs). (t, n)) as"

lemma get_random_string_snoc:
  "get_random_string n r = (bs, r') \<Longrightarrow> read_byte r' = (b, r'') \<Longrightarrow>
   get_random_string (Suc n) r = (bs @ [b], r'')"
proof (induction n arbitrary: r bs)
  case (Suc n)
  then show ?case by (auto simp: split_beta Let_def prod_eq_iff)
qed (auto simp: split_beta)

lemma length_get_random_string [simp]: "length (fst (get_random_string n r)) = n"
  by (induction n arbitrary: r) (auto simp: split_beta Let_def)

lemma serve_append:
  "serve (cs @ ds) r = (let (as, r) = serve cs r; (as', r) = serve ds r in (as @ as', r))"
  by (induction cs arbitrary: r) (auto simp: split_beta Let_def)

lemma serve_stream:
  assumes "fuzz_file_length r < 2 ^ 32"
  shows "concat (map (snd \<circ> snd) (fst (serve cs r))) = stream r (sum_list (map snd cs))
    \<and> snd (serve cs r) = skip_bytes (sum_list (map snd cs)) r"
  using assms
proof (induction cs r rule: serve.induct)
  case (2 t n cs r)
  then show ?case by (simp add: random_simps split_beta stream_append)
qed simp

text \<open>
  The mutex is held by the thread that is reading, and what was returned so far is what the
  sequential reader returns for the same calls.
\<close>

definition holds :: "reader \<Rightarrow> nat \<Rightarrow> bool" where
  "holds s t \<longleftrightarrow> (\<exists>n bs. pcs s t = Holds n bs)"

definition serial :: "rand_file \<Rightarrow> reader \<Rightarrow> bool" where
  "serial r s \<longleftrightarrow> (\<exists>r'. serve (calls_of (answers s)) r = (answers s, r') \<and>
     (case owner s of
        None \<Rightarrow> rfile s = r' \<and> (\<forall>t. \<not> holds s t)
      | Some t \<Rightarrow> (\<forall>t'. holds s t' \<longrightarrow> t' = t) \<and>
          (\<exists>n bs. pcs s t = Holds n bs \<and> get_random_string (length bs) r' = (bs, rfile s))))"

lemma serial_owner:
  assumes "serial r s" and "pcs s t = Holds n bs"
  obtains r' where "owner s = Some t" and "serve (calls_of (answers s)) r = (answers s, r')"
    and "\<forall>t'. holds s t' \<longrightarrow> t' = t" and "get_random_string (length bs) r' = (bs, rfile s)"
proof (cases "owner s")
  case None
  with assms show ?thesis by (simp add: serial_def holds_def)
next
  case (Some u)
  then have "u = t" using assms by (auto simp: serial_def holds_def)
  with Some assms that show ?thesis by (auto simp: serial_def)
qed

lemma serial_free:
  assumes "serial r s" and "owner s = None"
  obtains "serve (calls_of (answers s)) r = (answers s, rfile s)" and "\<forall>t. \<not> holds s t"
  using assms that by (auto simp: serial_def)

lemma serialI_free:
  "owner s = None \<Longrightarrow> serve (calls_of (answers s)) r = (answers s, rfile s) \<Longrightarrow> \<forall>t. \<not> holds s t \<Longrightarrow> serial r s"
  by (simp add: serial_def)

lemma serialI_owner:
  "owner s = Some t \<Longrightarrow> serve (calls_of (answers s)) r = (answers s, r') \<Longrightarrow> \<forall>t'. holds s t' \<longrightarrow> t' = t \<Longrightarrow>
   pcs s t = Holds n bs \<Longrightarrow> get_random_string (length bs) r' = (bs, rfile s) \<Longrightarrow> serial r s"
  by (auto simp: serial_def)

lemma serial_call:
  assumes "serial r s" and "pcs s t = Outside"
  shows "serial r (s\<lparr>pcs := (pcs s)(t := Waits n)\<rparr>)"
proof (cases "owner s")
  case None
  with assms(1) show ?thesis
    by (rule serial_free) (use None in \<open>auto intro!: serialI_free simp: holds_def split: if_splits\<close>)
next
  case (Some u)
  then obtain k bs where u: "pcs s u = Holds k bs" using assms(1) by (auto simp: serial_def)
  from assms(1) u show ?thesis
    by (rule serial_owner) (rule serialI_owner [of _ u], use u assms(2) Some in \<open>auto simp: holds_def\<close>)
qed

lemma serial_step:
  assumes "reader_step s s'" and "serial r s"
  shows "serial r s'"
  using assms(1)
proof (cases rule: reader_step.cases)
  case (call t n)
  then show ?thesis using assms(2) by (simp add: serial_call)
next
  case (lock t n)
  from assms(2) lock(3) show ?thesis
    by (rule serial_free) (rule serialI_owner [of _ t], use lock in \<open>auto simp: holds_def\<close>)
next
  case (read t n bs b r'')
  from assms(2) read(2) obtain r' where r': "owner s = Some t" "serve (calls_of (answers s)) r = (answers s, r')"
    "\<forall>t'. holds s t' \<longrightarrow> t' = t" "get_random_string (length bs) r' = (bs, rfile s)"
    by (rule serial_owner)
  show ?thesis
    unfolding read(1)
  proof (rule serialI_owner)
    show "get_random_string (length (bs @ [b])) r' = (bs @ [b], rfile (s\<lparr>rfile := r'', pcs := (pcs s)(t := Holds n (bs @ [b]))\<rparr>))"
      using get_random_string_snoc [OF r'(4) read(4)] by simp
  qed (use r' in \<open>auto simp: holds_def\<close>)
next
  case (unlock t n bs)
  from assms(2) unlock(2) obtain r' where r': "owner s = Some t" "serve (calls_of (answers s)) r = (answers s, r')"
    "\<forall>t'. holds s t' \<longrightarrow> t' = t" "get_random_string (length bs) r' = (bs, rfile s)"
    by (rule serial_owner)
  have "serve (calls_of (answers s) @ [(t, n)]) r = (answers s @ [(t, n, bs)], rfile s)"
    using r'(2,4) unlock(3) by (simp add: serve_append)
  then show ?thesis
    unfolding unlock(1) by (intro serialI_free) (use r'(3) in \<open>auto simp: calls_of_def holds_def\<close>)
qed

lemma serial_reach:
  assumes "reader_step\<^sup>*\<^sup>* (reader_start r) s"
  shows "serial r s"
  using assms
proof (induction rule: rtranclp_induct)
  case base
  then show ?case by (simp add: serial_def reader_start_def calls_of_def holds_def)
next
  case (step s s')
  then show ?case by (blast intro: serial_step)
qed

text \<open>
  C30: The calls that threads make to the reader of the random file are atomic: in every
  interleaving of their steps the answers returned so far are those of the sequential reader that
  serves the same calls in the order of their returns.  For a file below four gigabytes the answers,
  one after the other, are the bytes of the file followed by zeros, so no byte is lost or handed out
  twice.
\<close>

theorem random_reads_atomic:
  assumes "reader_step\<^sup>*\<^sup>* (reader_start r) s"
  shows "fst (serve (calls_of (answers s)) r) = answers s \<and>
    (fuzz_file_length r < 2 ^ 32 \<longrightarrow>
      concat (map (snd \<circ> snd) (answers s)) = stream r (sum_list (map snd (calls_of (answers s)))))"
proof -
  have "fst (serve (calls_of (answers s)) r) = answers s"
    using serial_reach [OF assms] by (auto simp: serial_def)
  with serve_stream [of r "calls_of (answers s)"] show ?thesis by simp
qed

definition two_bytes :: rand_file where
  "two_bytes = \<lparr>fuzz_file_index = 0, fuzz_file_array = [7, 9]\<rparr>"

theorem random_reads_atomic_witness:
  "\<exists>s. reader_step\<^sup>*\<^sup>* (reader_start two_bytes) s \<and>
     answers s = [(1, 1, [7])] \<and>
     fst (serve (calls_of (answers s)) two_bytes) = answers s \<and>
     concat (map (snd \<circ> snd) (answers s)) = stream two_bytes 1"
proof -
  define s0 where "s0 = reader_start two_bytes"
  define s1 where "s1 = s0\<lparr>pcs := (pcs s0)(1 := Waits 1)\<rparr>"
  define s2 where "s2 = s1\<lparr>pcs := (pcs s1)(0 := Waits 2)\<rparr>"
  define s3 where "s3 = s2\<lparr>owner := Some 1, pcs := (pcs s2)(1 := Holds 1 [])\<rparr>"
  define s4 where "s4 = s3\<lparr>rfile := skip_bytes 1 two_bytes, pcs := (pcs s3)(1 := Holds 1 ([] @ [7]))\<rparr>"
  define s5 where "s5 = s4\<lparr>owner := None, pcs := (pcs s4)(1 := Outside), answers := answers s4 @ [(1, 1, [7])]\<rparr>"
  note defs = s0_def s1_def s2_def s3_def s4_def s5_def
  have "reader_step s0 s1" unfolding s1_def by (rule reader_step.call) (simp add: s0_def reader_start_def)
  moreover have "reader_step s1 s2" unfolding s2_def by (rule reader_step.call) (simp add: defs reader_start_def)
  moreover have "reader_step s2 s3" unfolding s3_def by (rule reader_step.lock) (simp_all add: defs reader_start_def)
  moreover have "reader_step s3 s4" unfolding s4_def
    by (rule reader_step.read)
      (simp_all add: defs reader_start_def two_bytes_def read_byte_def skip_bytes_def fuzz_file_length_def)
  moreover have "reader_step s4 s5" unfolding s5_def
    by (rule reader_step.unlock) (simp_all add: defs)
  ultimately have reach: "reader_step\<^sup>*\<^sup>* (reader_start two_bytes) s5"
    by (simp add: s0_def [symmetric])
  have "answers s5 = [(1, 1, [7])]" by (simp add: defs reader_start_def)
  with random_reads_atomic [OF reach] reach show ?thesis
    by (intro exI [of _ s5]) (simp add: calls_of_def two_bytes_def fuzz_file_length_def)
qed

end
