(* ===== verification/Syscall_Filter.thy ===== *)
theory Syscall_Filter
  imports Dst_Random C_Strings
begin

text \<open>
  What the two system call injectors (\<open>src/strace/src/dst_fuzz.c\<close> and
  \<open>src/rr/src/dst_fuzz.cc\<close>) share: the tables of error codes, the system calls they look at and
  the decision whether the file behind a descriptor takes part in fault injection.
\<close>

section \<open>Error codes and system calls\<close>

definition EAGAIN :: int where "EAGAIN = 11"

definition READ_ERROR_CODES :: "int list" where
  "READ_ERROR_CODES = [0, EAGAIN, 11, 9, 14, 4, 22, 5]"

definition WRITE_ERROR_CODES :: "int list" where
  "WRITE_ERROR_CODES = [EAGAIN, 11, 9, 89, 122, 14, 27, 4, 22, 5, 28, 1, 32]"

text \<open>The x86-64 numbers of the system calls.\<close>

datatype syscall_args = ByCount | ByIovec | ByMsg | ByMmsg

definition fuzzed_syscall :: "nat \<Rightarrow> (bool \<times> syscall_args) option" where
  "fuzzed_syscall scno =
     (if scno = 0 then Some (False, ByCount)
      else if scno = 1 then Some (True, ByCount)
      else if scno \<in> {19, 295, 327} then Some (False, ByIovec)
      else if scno \<in> {20, 296, 328} then Some (True, ByIovec)
      else if scno = 45 then Some (False, ByCount)
      else if scno = 44 then Some (True, ByCount)
      else if scno = 47 then Some (False, ByMsg)
      else if scno = 46 then Some (True, ByMsg)
      else if scno = 299 then Some (False, ByMmsg)
      else if scno = 307 then Some (True, ByMmsg)
      else None)"

definition error_codes_for :: "bool \<Rightarrow> int list" where
  "error_codes_for is_send = (if is_send then WRITE_ERROR_CODES else READ_ERROR_CODES)"

section \<open>The file behind a descriptor\<close>

datatype fd_class = Exempt | Fuzzed (is_file: bool) (is_eventfd: bool)

definition exempt_parts :: "string list" where
  "exempt_parts = [''.o'', ''.so'', ''.cfg'', ''lib'', ''/sys'', ''/usr'', ''/proc'', ''/dev'', ''/etc'',
     ''.properties'', ''.jar'']"

definition listed_no_fault :: "string option \<Rightarrow> string \<Rightarrow> bool" where
  "listed_no_fault no_fault_files path =
     (case no_fault_files of None \<Rightarrow> False
      | Some fs \<Rightarrow> list_ex (strstr path) (strtok (CHR '','') fs []))"

definition classify_path :: "string option \<Rightarrow> string \<Rightarrow> fd_class" where
  "classify_path no_fault_files path =
     (if take 1 path = ''s'' then Fuzzed False False
      else if take 1 path = ''p'' then Exempt
      else if list_ex (strstr path) exempt_parts then Exempt
      else if listed_no_fault no_fault_files path then Exempt
      else Fuzzed True (strstr path ''[eventfd]''))"

lemma error_codes_nonempty [simp]: "error_codes_for b \<noteq> []" "0 < length (error_codes_for b)"
  by (simp_all add: error_codes_for_def READ_ERROR_CODES_def WRITE_ERROR_CODES_def)

lemma error_codes_range: "e \<in> set (error_codes_for b) \<Longrightarrow> 0 \<le> e \<and> e \<le> 122"
  by (auto simp: error_codes_for_def READ_ERROR_CODES_def WRITE_ERROR_CODES_def EAGAIN_def split: if_splits)

end
