(* ===== verification/Strace_Fuzz.thy ===== *)
theory Strace_Fuzz
  imports Syscall_Filter
begin

text \<open>
  The system call injector of the modified \<open>strace\<close> (\<open>src/strace/src/dst_fuzz.c\<close>), which
  the test driver starts every node under.  At the entry of a system call that moves data it draws
  from the random file whether to delay the call, let it fail, drop it or repeat it, and counts the
  event in the coverage map that the fuzzer reads.

  \<^item> \<open>tracer\<close> holds the globals of the injector and the two arenas of \<open>strace\<close> that it fills
    (\<open>retval.c\<close>, \<open>delay.c\<close>); \<open>tcb\<close> is what the injector uses of a traced thread.
  \<^item> \<open>strace_env\<close> holds what is outside: the environment, the links under \<open>/proc\<close>, shared
    memory, the contents of fresh allocations and the memory of the traced process, read with
    \<open>umove\<close>.
  \<^item> \<^term>\<open>None\<close> is the end of the process: \<open>error_func_msg_and_die\<close>, a null pointer, or an access
    outside an array.

  \<open>strace\<close> runs without \<open>-e inject\<close>, so that a thread has no injection options of its own, and
  Kafka support is not compiled in.
\<close>

section \<open>State\<close>

datatype x86_reg = R15 | R14 | R13 | R12 | RBP | RBX | R11 | R10 | R9 | R8 | RAX | RCX | RDX | RSI | RDI
  | ORIG_RAX | RIP | CS | EFLAGS | RSP | SS | FS_BASE | GS_BASE | DS | ES | FS | GS

type_synonym user_regs_struct = "x86_reg \<Rightarrow> u64"

definition compared_regs :: "x86_reg list" where
  "compared_regs = [R15, R14, R13, R12, RBP, RBX, R11, R10, R9, R8, RAX, RCX, RDX, RSI, RDI, ORIG_RAX, RIP, CS,
     EFLAGS, RSP, SS, FS_BASE, GS_BASE, DS, ES, FS, GS]"

record inject_opts =
  opt_first :: u16
  opt_last :: u16
  opt_step :: u16
  opt_flags :: u8
  opt_signo :: u8
  opt_scno :: u16
  opt_rval_idx :: u16
  opt_delay_idx :: u16

record tcb =
  pid :: nat
  scno :: nat
  u_arg :: "nat \<Rightarrow> u64"
  tcb_flags :: u32
  qual_flg :: u32
  inject_vec :: "inject_opts option"
  u_rval :: u64
  u_error :: u64
  delay_expiration_time :: nat
  user_regs :: user_regs_struct

record tracer =
  random :: rand_file
  event_index :: u64
  global_index :: u64
  fuzz_coverage_map :: "u8 list"
  stored_regs :: "user_regs_struct option"
  net_partition :: bool
  last_injected :: bool
  printed_fuzzing_stopped :: bool
  is_dst_fuzz :: bool
  tmp_offset :: u64
  retval_vec :: "u64 list"
  delay_data_vec :: "nat list"

record strace_env =
  getenv :: "string \<Rightarrow> string option"
  readlink :: "nat \<Rightarrow> int \<Rightarrow> string option"
  shm_map :: "u32 \<Rightarrow> u8 list option"
  shm_index :: "u32 \<Rightarrow> u64 option"
  malloc_map :: "u8 list"
  malloc_index :: u64
  peek_iov_len :: "u64 \<Rightarrow> u64"
  peek_msghdr :: "u64 \<Rightarrow> u64 \<times> u64"

definition FUZZ_COVERAGE_MAP_SIZE :: nat where "FUZZ_COVERAGE_MAP_SIZE = 2 ^ 23"
definition MAX_DELAY_MILLSECONDS :: nat where "MAX_DELAY_MILLSECONDS = 1000"

definition QUAL_INJECT :: u32 where "QUAL_INJECT = 0x10"
definition INJECT_F_ERROR :: u8 where "INJECT_F_ERROR = 0x02"
definition INJECT_F_RETVAL :: u8 where "INJECT_F_RETVAL = 0x04"
definition INJECT_F_DELAY_ENTER :: u8 where "INJECT_F_DELAY_ENTER = 0x08"

datatype INJECT_EVENT = DELAY | FAIL | LOST | DUP | NETPART

definition NUM_INJECT_EVENTS :: nat where "NUM_INJECT_EVENTS = 5"

definition events :: "INJECT_EVENT list" where "events = [DELAY, FAIL, LOST, DUP]"

section \<open>The arenas\<close>

text \<open>An index is sixteen bits wide; the process ends when the next one does not fit.\<close>

definition retval_new :: "u64 \<Rightarrow> tracer \<Rightarrow> (u16 \<times> tracer) option" where
  "retval_new rval s =
     (let idx = of_nat (length (retval_vec s)) :: u16
      in if unat idx < length (retval_vec s) then None
         else Some (idx, s\<lparr>retval_vec := retval_vec s @ [rval]\<rparr>))"

definition retval_get :: "u16 \<Rightarrow> tracer \<Rightarrow> u64 option" where
  "retval_get idx s = get_byte (unat idx) (retval_vec s)"

definition alloc_delay_data :: "tracer \<Rightarrow> (u16 \<times> tracer) option" where
  "alloc_delay_data s =
     (let rval = of_nat (length (delay_data_vec s)) :: u16
      in if unat rval < length (delay_data_vec s) then None
         else Some (rval, s\<lparr>delay_data_vec := delay_data_vec s @ [0]\<rparr>))"

definition fill_delay_data :: "u16 \<Rightarrow> nat \<Rightarrow> tracer \<Rightarrow> tracer option" where
  "fill_delay_data idx nsec s =
     do { v \<leftarrow> set_byte (unat idx) nsec (delay_data_vec s); Some (s\<lparr>delay_data_vec := v\<rparr>) }"

section \<open>Coverage of an event\<close>

text \<open>
  \<open>event_index\<close> is cut to an \<open>int\<close>, the product with the system call number and the sum with the
  index are 32 bits wide, the rest is 64 bits wide.
\<close>

definition get_hash_value :: "strace_env \<Rightarrow> nat \<Rightarrow> u64 \<Rightarrow> bool \<Rightarrow> tracer \<Rightarrow> (nat \<times> tracer) option" where
  "get_hash_value E syscall_no len fault_injected s =
     do {
       (node_id, index) \<leftarrow>
         (if getenv E ''NO_REDUCTION'' \<noteq> None then do { node \<leftarrow> getenv E ''NODE_ID''; Some (atoi node, ucast (global_index s)) }
          else Some (0, ucast (event_index s)));
       let hash_value = ucast (index + of_nat syscall_no * 10 :: u32) + len + scast (node_id * 100 :: u32);
       let hash_value = (push_bit (of_bool fault_injected) hash_value :: u64);
       Some (unat hash_value mod FUZZ_COVERAGE_MAP_SIZE,
             s\<lparr>event_index := event_index s + 1, global_index := global_index s + 1\<rparr>)
     }"

definition record_event :: "strace_env \<Rightarrow> nat \<Rightarrow> u64 \<Rightarrow> bool \<Rightarrow> tracer \<Rightarrow> tracer option" where
  "record_event E syscall_no len fault_injected s =
     do {
       (hash_index, s) \<leftarrow> get_hash_value E syscall_no len fault_injected s;
       b \<leftarrow> get_byte hash_index (fuzz_coverage_map s);
       m \<leftarrow> set_byte hash_index (b + 1) (fuzz_coverage_map s);
       Some (s\<lparr>fuzz_coverage_map := m\<rparr>)
     }"

section \<open>Choosing and preparing a fault\<close>

definition draw8 :: "tracer \<Rightarrow> nat \<times> tracer" where
  "draw8 s = (let (b, r) = get_random_uint8_t (random s) in (unat b, s\<lparr>random := r\<rparr>))"

definition draw16 :: "tracer \<Rightarrow> nat \<times> tracer" where
  "draw16 s = (let (b, r) = get_random_uint16_t (random s) in (unat b, s\<lparr>random := r\<rparr>))"

definition new_opts :: inject_opts where
  "new_opts = \<lparr>opt_first = 1, opt_last = - 1, opt_step = 1, opt_flags = 0, opt_signo = 0, opt_scno = 0,
     opt_rval_idx = - 1, opt_delay_idx = - 1\<rparr>"

text \<open>Return value injection, shared by the failing, the lost and the partitioned call.\<close>

definition inject_retval :: "u64 \<Rightarrow> tcb \<Rightarrow> tracer \<Rightarrow> (tcb \<times> tracer) option" where
  "inject_retval v tcp s =
     do {
       (idx, s) \<leftarrow> retval_new v s;
       Some (tcp\<lparr>qual_flg := qual_flg tcp OR QUAL_INJECT,
                 tcb_flags := tcb_flags tcp OR ucast INJECT_F_RETVAL,
                 inject_vec := Some (new_opts\<lparr>opt_flags := INJECT_F_RETVAL, opt_rval_idx := idx\<rparr>)\<rparr>, s)
     }"

definition inject_delay :: "tcb \<Rightarrow> tracer \<Rightarrow> (tcb \<times> tracer) option" where
  "inject_delay tcp s =
     do {
       (idx, s) \<leftarrow> alloc_delay_data s;
       let (random, s) = draw16 s;
       s \<leftarrow> fill_delay_data idx (random mod MAX_DELAY_MILLSECONDS * 10 ^ 6) s;
       Some (tcp\<lparr>qual_flg := qual_flg tcp OR QUAL_INJECT,
                 tcb_flags := tcb_flags tcp OR ucast INJECT_F_DELAY_ENTER,
                 inject_vec := Some (new_opts\<lparr>opt_flags := INJECT_F_DELAY_ENTER, opt_delay_idx := idx\<rparr>)\<rparr>, s)
     }"

definition inject_fail :: "bool \<Rightarrow> int list \<Rightarrow> tcb \<Rightarrow> tracer \<Rightarrow> (tcb \<times> tracer) option" where
  "inject_fail eventfd error_codes tcp s =
     do {
       (ret_val, s) \<leftarrow> (if eventfd then Some (EAGAIN, s)
         else let (random, s) = draw8 s
              in do { e \<leftarrow> get_byte (random mod length error_codes) error_codes; Some (e, s) });
       inject_retval (word_of_int (- ret_val)) tcp s
     }"

definition apply_event :: "bool \<Rightarrow> u64 \<Rightarrow> int list \<Rightarrow> INJECT_EVENT \<Rightarrow> tcb \<Rightarrow> tracer \<Rightarrow> (tcb \<times> tracer) option" where
  "apply_event eventfd len error_codes ev tcp s =
     (case ev of
        DELAY \<Rightarrow> inject_delay tcp s
      | FAIL \<Rightarrow> inject_fail eventfd error_codes tcp s
      | LOST \<Rightarrow> inject_retval len tcp s
      | DUP \<Rightarrow> Some (tcp, s\<lparr>stored_regs := Some (user_regs tcp)\<rparr>)
      | NETPART \<Rightarrow> inject_retval (- 1) tcp (s\<lparr>net_partition := True\<rparr>))"

text \<open>
  With a network partition the call fails or the partition heals; then an event is chosen from
  \<^const>\<open>events\<close>, which has four elements, with an index below five for messages that are sent.
\<close>

definition inject_fault :: "bool \<Rightarrow> u64 \<Rightarrow> int list \<Rightarrow> bool \<Rightarrow> bool \<Rightarrow> tcb \<Rightarrow> tracer \<Rightarrow> (tcb \<times> tracer) option" where
  "inject_fault is_send len error_codes file eventfd tcp s =
     do {
       let s = s\<lparr>last_injected := True\<rparr>;
       let tcp = tcp\<lparr>inject_vec := Some new_opts\<rparr>;
       let supported_event_size = (if \<not> is_send \<or> file then 2 else NUM_INJECT_EVENTS);
       let (partitioned, s) =
         (if net_partition s \<and> \<not> file then
            let (random, s) = draw8 s
            in if random mod 2 = 0 then (False, s\<lparr>net_partition := False\<rparr>) else (True, s)
          else (False, s));
       if partitioned then inject_retval (- 1) tcp s
       else let (random, s) = draw8 s
            in do {
              ev \<leftarrow> get_byte (random mod supported_event_size) events;
              apply_event eventfd len error_codes ev tcp s
            }
     }"

definition handle_random_event ::
  "strace_env \<Rightarrow> bool \<Rightarrow> bool \<Rightarrow> u64 \<Rightarrow> int list \<Rightarrow> tcb \<Rightarrow> tracer \<Rightarrow> (tcb \<times> tracer) option" where
  "handle_random_event E fuzzing is_send len error_codes tcp s =
     (if stored_regs s \<noteq> None then Some (tcp, s\<lparr>stored_regs := None\<rparr>)
      else if \<not> fuzzing then Some (tcp, s\<lparr>printed_fuzzing_stopped := True\<rparr>)
      else if u_arg tcp 0 < 3 then Some (tcp, s)
      else case readlink E (pid tcp) (sint (ucast (u_arg tcp 0) :: u32)) of
        None \<Rightarrow> Some (tcp, s)
      | Some file_path \<Rightarrow>
          (case classify_path (getenv E ''NO_FAULT_FILES'') file_path of
             Exempt \<Rightarrow> Some (tcp, s)
           | Fuzzed file eventfd \<Rightarrow>
               do {
                 (tcp, s, fault_injected) \<leftarrow>
                   (if getenv E ''NO_FAULT'' \<noteq> None then Some (tcp, s, False)
                    else let (random, s) = draw8 s
                         in if random < 50 then Some (tcp, s, False)
                            else do {
                              (tcp, s) \<leftarrow> inject_fault is_send len error_codes file eventfd tcp s;
                              Some (tcp, s, True)
                            });
                 s \<leftarrow> record_event E (scno tcp) len fault_injected s;
                 Some (tcp, s)
               }))"

section \<open>Lengths of the data\<close>

text \<open>
  \<open>struct iovec\<close> has 16 bytes and \<open>struct mmsghdr\<close> 64.  \<open>msg.msg_iov\<close> is a pointer to a
  \<open>struct iovec\<close>, so that adding \<open>sizeof(struct iovec) * i\<close> moves it by 256 bytes per step; the
  inner loop over a message of \<open>recvmmsg\<close> and \<open>sendmmsg\<close> uses the index of the message.
\<close>

definition get_length_from_iovec :: "strace_env \<Rightarrow> tcb \<Rightarrow> u64" where
  "get_length_from_iovec E tcp =
     fold (\<lambda>i len. len + peek_iov_len E (u_arg tcp 1 + 16 * of_nat i)) [0..<unat (u_arg tcp 2)] 0"

definition get_length_from_msg :: "strace_env \<Rightarrow> tcb \<Rightarrow> u64" where
  "get_length_from_msg E tcp =
     (let (msg_iov, msg_iovlen) = peek_msghdr E (u_arg tcp 1)
      in fold (\<lambda>i len. len + peek_iov_len E (msg_iov + 16 * 16 * of_nat i)) [0..<unat msg_iovlen] 0)"

definition get_length_from_mmsg :: "strace_env \<Rightarrow> tcb \<Rightarrow> u64" where
  "get_length_from_mmsg E tcp =
     fold (\<lambda>i len.
       let (msg_iov, msg_iovlen) = peek_msghdr E (u_arg tcp 1 + 64 * of_nat i)
       in fold (\<lambda>j len. len + peek_iov_len E (msg_iov + 16 * 16 * of_nat i)) [0..<unat msg_iovlen] len)
     [0..<unat (u_arg tcp 2)] 0"

definition syscall_length :: "strace_env \<Rightarrow> syscall_args \<Rightarrow> tcb \<Rightarrow> u64" where
  "syscall_length E args tcp =
     (case args of
        ByCount \<Rightarrow> u_arg tcp 2
      | ByIovec \<Rightarrow> get_length_from_iovec E tcp
      | ByMsg \<Rightarrow> get_length_from_msg E tcp
      | ByMmsg \<Rightarrow> get_length_from_mmsg E tcp)"

section \<open>Hooks of the tracer\<close>

definition init_dst_fuzz :: "strace_env \<Rightarrow> tracer \<Rightarrow> tracer option" where
  "init_dst_fuzz E s =
     do {
       (m, i) \<leftarrow>
         (if getenv E ''DST_FUZZ'' \<noteq> None then do {
            m \<leftarrow> (case getenv E ''AFLCplusplus_BRANCH_TRACE_SHM_ID'' of
                    None \<Rightarrow> Some (malloc_map E) | Some shm_id \<Rightarrow> shm_map E (atoi shm_id));
            i \<leftarrow> (case getenv E ''AFLCplusplus_VARIABLE_COUNT_SHMD_ID'' of
                    None \<Rightarrow> Some 0 | Some shm_id \<Rightarrow> shm_index E (atoi shm_id));
            Some (m, i)
          }
          else Some (malloc_map E, malloc_index E));
       Some (s\<lparr>fuzz_coverage_map := m, global_index := i, is_dst_fuzz := True\<rparr>)
     }"

definition dst_fuzz_syscall_enter :: "strace_env \<Rightarrow> bool \<Rightarrow> tcb \<Rightarrow> tracer \<Rightarrow> (tcb \<times> tracer) option" where
  "dst_fuzz_syscall_enter E fuzzing tcp s =
     do {
       s \<leftarrow> (if is_dst_fuzz s then Some s else init_dst_fuzz E s);
       case fuzzed_syscall (scno tcp) of
         None \<Rightarrow> Some (tcp, s)
       | Some (is_send, args) \<Rightarrow>
           handle_random_event E fuzzing is_send (syscall_length E args tcp) (error_codes_for is_send) tcp s
     }"

definition compare_and_warning_regs_differences :: "user_regs_struct \<Rightarrow> user_regs_struct \<Rightarrow> nat" where
  "compare_and_warning_regs_differences new old =
     fold (\<lambda>x diff_count. if new x \<noteq> old x then diff_count + 1 else diff_count) compared_regs 0"

text \<open>The registers of the traced thread are read and, for a call that is repeated, written.\<close>

definition dst_fuzz_syscall_exiting_finish :: "tcb \<Rightarrow> tracer \<Rightarrow> tcb \<times> tracer" where
  "dst_fuzz_syscall_exiting_finish tcp s =
     (if \<not> is_dst_fuzz s then (tcp, s)
      else (case stored_regs s of
          None \<Rightarrow> tcp
        | Some old \<Rightarrow>
            if compare_and_warning_regs_differences (user_regs tcp) old < 2
            then tcp\<lparr>user_regs := (user_regs tcp)(RAX := old ORIG_RAX, RIP := old RIP - 2)\<rparr>
            else tcp,
        s\<lparr>tmp_offset := 0\<rparr>))"

end
