(* ===== verification/Event_Recorder.thy ===== *)
theory Event_Recorder
  imports DF_Prelude
begin

text \<open>
  The contract between the three fault injectors (\<open>strace\<close>, \<open>rr\<close>, eBPF) and the fuzzer, which
  reads their coverage map: handling a system call counts at most one event, in one cell.  The first
  cell is excepted, because one of the injectors clears it.  Whatever the injector, the map is then a
  histogram of the events of a run.
\<close>

definition counts_at :: "u8 list \<Rightarrow> u8 list \<Rightarrow> nat \<Rightarrow> bool" where
  "counts_at m m' h \<longleftrightarrow> length m' = length m \<and>
     (\<forall>i. 0 < i \<longrightarrow> i < length m \<longrightarrow> m' ! i = m ! i + (if i = h then 1 else 0))"

lemma counts_at_update: "h < length m \<Longrightarrow> \<exists>k. counts_at m (m[h := m ! h + 1]) k"
  by (auto simp: counts_at_def nth_list_update intro!: exI [of _ h])

lemma counts_at_none: "\<exists>k. counts_at m m k"
  by (auto simp: counts_at_def intro!: exI [of _ 0])

text \<open>No cell is changed, or one is increased by one.\<close>

definition counted :: "u8 list \<Rightarrow> u8 list \<Rightarrow> bool" where
  "counted m m' \<longleftrightarrow> m' = m \<or> (\<exists>h < length m. m' = m[h := m ! h + 1])"

lemma counted_refl [simp]: "counted m m"
  by (simp add: counted_def)

lemma counted_update: "h < length m \<Longrightarrow> counted m (m[h := m ! h + 1])"
  by (auto simp: counted_def)

lemma counted_counts_at: "counted m m' \<Longrightarrow> \<exists>k. counts_at m m' k"
  by (auto simp: counted_def counts_at_none counts_at_update)

lemma counted_clear: "counted m m' \<Longrightarrow> \<exists>k. counts_at m (m'[0 := 0]) k"
  by (auto dest!: counted_counts_at simp: counts_at_def)

locale event_recorder =
  fixes coverage :: "'s \<Rightarrow> u8 list" and ready :: "'s \<Rightarrow> bool" and step :: "'x \<Rightarrow> 's \<Rightarrow> 's option"
  assumes stays_ready: "step x s = Some s' \<Longrightarrow> ready s \<Longrightarrow> ready s'"
    and counts_once: "step x s = Some s' \<Longrightarrow> ready s \<Longrightarrow> \<exists>h. counts_at (coverage s) (coverage s') h"
begin

lemma run_ready: "foldM step xs s = Some s' \<Longrightarrow> ready s \<Longrightarrow> ready s'"
  by (rule foldM_invariant [where P = ready]) (auto dest: stays_ready)

text \<open>A run is a histogram of at most as many events as it has system calls.\<close>

lemma run_histogram:
  assumes "foldM step xs s = Some s'" and "ready s"
  shows "length (coverage s') = length (coverage s) \<and>
    (\<exists>c. sum c {0<..<length (coverage s)} \<le> length xs \<and>
      (\<forall>i. 0 < i \<longrightarrow> i < length (coverage s) \<longrightarrow> coverage s' ! i = coverage s ! i + of_nat (c i)))"
  using assms
proof (induction xs arbitrary: s)
  case Nil
  then show ?case by (auto intro!: exI [of _ "\<lambda>_. 0"])
next
  case (Cons x xs)
  then obtain t where t: "step x s = Some t" "foldM step xs t = Some s'" by (auto simp: bind_eq_Some_conv)
  obtain h where h: "counts_at (coverage s) (coverage t) h" using counts_once [OF t(1) Cons.prems(2)] by blast
  then have len: "length (coverage t) = length (coverage s)" by (simp add: counts_at_def)
  from Cons.IH [OF t(2) stays_ready [OF t(1) Cons.prems(2)]] len
  obtain c where c: "sum c {0<..<length (coverage s)} \<le> length xs" "length (coverage s') = length (coverage s)"
    "\<forall>i. 0 < i \<longrightarrow> i < length (coverage s) \<longrightarrow> coverage s' ! i = coverage t ! i + of_nat (c i)" by auto
  let ?c = "\<lambda>i. c i + (if i = h then 1 else 0)"
  have "sum ?c {0<..<length (coverage s)} \<le> sum c {0<..<length (coverage s)} + 1"
    by (simp add: sum.distrib)
  then have "sum ?c {0<..<length (coverage s)} \<le> length (x # xs)" using c(1) by simp
  moreover have "coverage s' ! i = coverage s ! i + of_nat (?c i)" if "0 < i" "i < length (coverage s)" for i
    using c(3) h that by (simp add: counts_at_def)
  ultimately show ?case using c(2) by blast
qed

end

end
