(* ===== verification/Strace_Tamper.thy ===== *)
theory Strace_Tamper
  imports Strace_Fuzz Event_Recorder
begin

text \<open>
  A system call of a traced node from its entry to its exit (\<open>src/strace/src/syscall.c\<close>,
  \<open>delay.c\<close>): \<open>strace\<close> stops the thread at the entry, the injector of theory \<open>Strace_Fuzz\<close>
  prepares the injection options, \<open>strace\<close> carries them out, the kernel runs the call, and at the
  exit \<open>strace\<close> replaces the result.  The registers of the stopped thread are read and written
  with \<open>ptrace\<close>, which succeeds in the model.

  The kernel is an argument: it maps a system call number and the registers to the result.  A number
  that is no system call, such as the \<open>-1\<close> that \<open>strace\<close> stores to suppress a call, yields
  \<open>-ENOSYS\<close>.  Poking memory is never asked for by the injector and is left out, as is the
  printing of the calls.
\<close>

section \<open>Flags of a traced thread\<close>

definition TCB_INSYSCALL :: u32 where "TCB_INSYSCALL = 0x04"
definition TCB_FILTERED :: u32 where "TCB_FILTERED = 0x20"
definition TCB_TAMPERED :: u32 where "TCB_TAMPERED = 0x40"
definition TCB_HIDE_LOG :: u32 where "TCB_HIDE_LOG = 0x80"
definition TCB_CHECK_EXEC_SYSCALL :: u32 where "TCB_CHECK_EXEC_SYSCALL = 0x100"
definition TCB_RECOVERING :: u32 where "TCB_RECOVERING = 0x800"
definition TCB_INJECT_DELAY_EXIT :: u32 where "TCB_INJECT_DELAY_EXIT = 0x1000"
definition TCB_INJECT_POKE_EXIT :: u32 where "TCB_INJECT_POKE_EXIT = 0x2000"
definition TCB_DELAYED :: u32 where "TCB_DELAYED = 0x4000"
definition TCB_TAMPERED_DELAYED :: u32 where "TCB_TAMPERED_DELAYED = 0x8000"
definition TCB_TAMPERED_POKED :: u32 where "TCB_TAMPERED_POKED = 0x10000"
definition TCB_TAMPERED_NO_FAIL :: u32 where "TCB_TAMPERED_NO_FAIL = 0x20000"
definition QUAL_TRACE :: u32 where "QUAL_TRACE = 0x001"

lemmas tcb_bits = TCB_INSYSCALL_def TCB_FILTERED_def TCB_TAMPERED_def TCB_HIDE_LOG_def
  TCB_CHECK_EXEC_SYSCALL_def TCB_RECOVERING_def TCB_INJECT_DELAY_EXIT_def TCB_INJECT_POKE_EXIT_def
  TCB_DELAYED_def TCB_TAMPERED_DELAYED_def TCB_TAMPERED_POKED_def TCB_TAMPERED_NO_FAIL_def QUAL_TRACE_def

definition INJECT_F_SIGNAL :: u8 where "INJECT_F_SIGNAL = 0x01"
definition INJECT_F_DELAY_EXIT :: u8 where "INJECT_F_DELAY_EXIT = 0x10"
definition INJECT_F_SYSCALL :: u8 where "INJECT_F_SYSCALL = 0x20"

definition INJECT_LAST_INF :: u16 where "INJECT_LAST_INF = - 1"

definition MAX_ERRNO_VALUE :: nat where "MAX_ERRNO_VALUE = 4095"

definition has_flag :: "u32 \<Rightarrow> tcb \<Rightarrow> bool" where
  "has_flag f tcp \<longleftrightarrow> tcb_flags tcp AND f \<noteq> 0"

section \<open>Results of system calls\<close>

definition is_negated_errno :: "u64 \<Rightarrow> bool" where
  "is_negated_errno v \<longleftrightarrow> 2 ^ 64 - MAX_ERRNO_VALUE \<le> unat v"

definition get_error :: "tcb \<Rightarrow> tcb" where
  "get_error tcp =
     (let rax = user_regs tcp RAX
      in if is_negated_errno rax then tcp\<lparr>u_rval := - 1, u_error := - rax\<rparr>
         else tcp\<lparr>u_rval := rax, u_error := 0\<rparr>)"

definition set_error :: "u64 \<Rightarrow> tcb \<Rightarrow> tcb" where
  "set_error new_error tcp =
     (if new_error = u_error tcp \<or> MAX_ERRNO_VALUE < unat new_error then tcp
      else get_error (tcp\<lparr>u_error := new_error, user_regs := (user_regs tcp)(RAX := - new_error)\<rparr>))"

definition set_success :: "u64 \<Rightarrow> tcb \<Rightarrow> tcb" where
  "set_success new_rval tcp =
     get_error (tcp\<lparr>u_rval := new_rval, user_regs := (user_regs tcp)(RAX := new_rval)\<rparr>)"

section \<open>Carrying out the injection\<close>

text \<open>\<open>now\<close> is the monotonic clock in nanoseconds.\<close>

definition delay_tcb :: "nat \<Rightarrow> u16 \<Rightarrow> tcb \<Rightarrow> tracer \<Rightarrow> tcb option" where
  "delay_tcb now delay_idx tcp s =
     do {
       ts_diff \<leftarrow> get_byte (unat delay_idx) (delay_data_vec s);
       Some (tcp\<lparr>tcb_flags := tcb_flags tcp OR TCB_DELAYED OR TCB_TAMPERED_DELAYED,
                 delay_expiration_time := now + ts_diff\<rparr>)
     }"

definition tamper_with_syscall_entering :: "nat \<Rightarrow> tcb \<Rightarrow> tracer \<Rightarrow> (nat \<times> tcb) option" where
  "tamper_with_syscall_entering now tcp s =
     (case inject_vec tcp of
        None \<Rightarrow> Some (0, tcp)
      | Some opts \<Rightarrow>
          if opt_first opts = 0 \<or> opt_last opts = 0 then Some (0, tcp)
          else do {
            let opts = (if opt_last opts \<noteq> INJECT_LAST_INF then opts\<lparr>opt_last := opt_last opts - 1\<rparr> else opts);
            let opts = opts\<lparr>opt_first := opt_first opts - 1\<rparr>;
            if opt_first opts \<noteq> 0 then Some (0, tcp\<lparr>inject_vec := Some opts\<rparr>)
            else do {
              let opts = opts\<lparr>opt_first := opt_step opts\<rparr>;
              let tcp = tcp\<lparr>inject_vec := Some opts\<rparr>;
              if has_flag TCB_RECOVERING tcp then Some (0, tcp)
              else do {
                let signo = (if opt_flags opts AND INJECT_F_SIGNAL \<noteq> 0 then unat (opt_signo opts) else 0);
                let tcp =
                  (if opt_flags opts AND (INJECT_F_ERROR OR INJECT_F_RETVAL) \<noteq> 0 then
                     let substitute = (opt_flags opts AND INJECT_F_SYSCALL \<noteq> 0)
                     in tcp\<lparr>user_regs := (user_regs tcp)(ORIG_RAX := (if substitute then ucast (opt_scno opts) else - 1)),
                            tcb_flags := tcb_flags tcp OR TCB_TAMPERED OR (if substitute then TCB_TAMPERED_NO_FAIL else 0)\<rparr>
                   else tcp);
                tcp \<leftarrow> (if opt_flags opts AND INJECT_F_DELAY_ENTER \<noteq> 0 then delay_tcb now (opt_delay_idx opts) tcp s
                         else Some tcp);
                let tcp = (if opt_flags opts AND INJECT_F_DELAY_EXIT \<noteq> 0
                           then tcp\<lparr>tcb_flags := tcb_flags tcp OR TCB_INJECT_DELAY_EXIT\<rparr> else tcp);
                Some (signo, tcp)
              }
            }
          })"

definition tamper_with_syscall_exiting :: "nat \<Rightarrow> tcb \<Rightarrow> tracer \<Rightarrow> tcb option" where
  "tamper_with_syscall_exiting now tcp s =
     (case inject_vec tcp of
        None \<Rightarrow> Some tcp
      | Some opts \<Rightarrow>
          do {
            tcp \<leftarrow> (if has_flag TCB_INJECT_DELAY_EXIT tcp then delay_tcb now (opt_delay_idx opts) tcp s else Some tcp);
            if \<not> has_flag TCB_TAMPERED tcp then Some tcp
            else if (u_error tcp = 0) \<noteq> has_flag TCB_TAMPERED_NO_FAIL tcp then Some tcp
            else do {
              v \<leftarrow> retval_get (opt_rval_idx opts) s;
              Some (if opt_flags opts AND INJECT_F_RETVAL \<noteq> 0 then set_success v tcp else set_error v tcp)
            }
          })"

section \<open>A traced system call\<close>

text \<open>The number and the arguments are decoded from the registers; no injection is pending.\<close>

definition syscall_entering_decode :: "tcb \<Rightarrow> tcb" where
  "syscall_entering_decode tcp =
     (let r = user_regs tcp
      in tcp\<lparr>scno := unat (r ORIG_RAX), qual_flg := 0x007,
             u_arg := (\<lambda>i. if i = 0 then r RDI else if i = 1 then r RSI else if i = 2 then r RDX
                           else if i = 3 then r R10 else if i = 4 then r R8 else r R9)\<rparr>)"

definition inject_at_entry :: "nat \<Rightarrow> tcb \<Rightarrow> tracer \<Rightarrow> (tcb \<times> tracer) option" where
  "inject_at_entry now tcp s =
     (if qual_flg tcp AND QUAL_INJECT \<noteq> 0
      then do { (_, tcp) \<leftarrow> tamper_with_syscall_entering now tcp s; Some (tcp, s) }
      else Some (tcp, s))"

definition syscall_entering_trace :: "strace_env \<Rightarrow> bool \<Rightarrow> nat \<Rightarrow> tcb \<Rightarrow> tracer \<Rightarrow> (tcb \<times> tracer) option" where
  "syscall_entering_trace E fuzzing now tcp s =
     do {
       let tcp =
         (if has_flag TCB_HIDE_LOG tcp then
            let tcp = tcp\<lparr>qual_flg := qual_flg tcp AND NOT QUAL_INJECT\<rparr>
            in if scno tcp \<in> {59, 322}
               then tcp\<lparr>tcb_flags := (tcb_flags tcp AND NOT TCB_HIDE_LOG) OR TCB_CHECK_EXEC_SYSCALL\<rparr> else tcp
          else tcp);
       if has_flag TCB_HIDE_LOG tcp \<or> qual_flg tcp AND QUAL_TRACE = 0
       then Some (tcp\<lparr>tcb_flags := tcb_flags tcp OR TCB_FILTERED\<rparr>, s)
       else do {
         let tcp = tcp\<lparr>tcb_flags := tcb_flags tcp AND NOT TCB_FILTERED\<rparr>;
         (tcp, s) \<leftarrow> dst_fuzz_syscall_enter E fuzzing tcp s;
         inject_at_entry now tcp s
       }
     }"

definition syscall_entering_finish :: "tcb \<Rightarrow> tcb" where
  "syscall_entering_finish tcp = tcp\<lparr>tcb_flags := tcb_flags tcp OR TCB_INSYSCALL\<rparr>"

type_synonym kernel = "u64 \<Rightarrow> user_regs_struct \<Rightarrow> u64"

definition run_syscall :: "kernel \<Rightarrow> tcb \<Rightarrow> tcb" where
  "run_syscall kern tcp =
     tcp\<lparr>user_regs := (user_regs tcp)(RAX := kern (user_regs tcp ORIG_RAX) (user_regs tcp))\<rparr>"

definition syscall_exiting_decode :: "tcb \<Rightarrow> bool \<times> tcb" where
  "syscall_exiting_decode tcp =
     (if has_flag TCB_FILTERED tcp then (False, tcp)
      else (True, get_error (if has_flag TCB_CHECK_EXEC_SYSCALL tcp
                             then tcp\<lparr>tcb_flags := tcb_flags tcp OR TCB_HIDE_LOG\<rparr> else tcp)))"

definition syscall_exiting_trace :: "nat \<Rightarrow> tcb \<Rightarrow> tracer \<Rightarrow> tcb option" where
  "syscall_exiting_trace now tcp s =
     (if has_flag TCB_TAMPERED tcp \<or> has_flag TCB_INJECT_DELAY_EXIT tcp \<or> has_flag TCB_INJECT_POKE_EXIT tcp
      then tamper_with_syscall_exiting now tcp s else Some tcp)"

definition syscall_exiting_finish :: "tcb \<Rightarrow> tracer \<Rightarrow> tcb \<times> tracer" where
  "syscall_exiting_finish tcp s =
     (let (tcp, s) = dst_fuzz_syscall_exiting_finish tcp s
      in (tcp\<lparr>tcb_flags := tcb_flags tcp AND NOT (TCB_INSYSCALL OR TCB_TAMPERED OR TCB_INJECT_DELAY_EXIT
            OR TCB_INJECT_POKE_EXIT OR TCB_TAMPERED_DELAYED OR TCB_TAMPERED_POKED)\<rparr>, s))"

definition after_entry :: "kernel \<Rightarrow> nat \<Rightarrow> tcb \<Rightarrow> tracer \<Rightarrow> (tcb \<times> tracer) option" where
  "after_entry kern now tcp s =
     do {
       let (decoded, tcp) = syscall_exiting_decode (run_syscall kern (syscall_entering_finish tcp));
       tcp \<leftarrow> (if decoded then syscall_exiting_trace now tcp s else Some tcp);
       Some (syscall_exiting_finish tcp s)
     }"

definition traced_syscall ::
  "strace_env \<Rightarrow> kernel \<Rightarrow> bool \<Rightarrow> nat \<Rightarrow> tcb \<Rightarrow> tracer \<Rightarrow> (tcb \<times> tracer) option" where
  "traced_syscall E kern fuzzing now tcp s =
     do {
       (tcp, s) \<leftarrow> syscall_entering_trace E fuzzing now (syscall_entering_decode tcp) s;
       after_entry kern now tcp s
     }"

section \<open>What the injector prepares\<close>

datatype plan = Pass | Late nat | Result u64 | Repeat

fun planned :: "tcb \<Rightarrow> plan \<Rightarrow> tcb \<Rightarrow> tracer \<Rightarrow> bool" where
  "planned tcp Pass tcp' s' \<longleftrightarrow> tcp' = tcp \<and> stored_regs s' = None"
| "planned tcp (Late n) tcp' s' \<longleftrightarrow> stored_regs s' = None \<and>
     (\<exists>idx. get_byte (unat idx) (delay_data_vec s') = Some n \<and>
        tcp' = tcp\<lparr>qual_flg := qual_flg tcp OR QUAL_INJECT, tcb_flags := tcb_flags tcp OR ucast INJECT_F_DELAY_ENTER,
          inject_vec := Some (new_opts\<lparr>opt_flags := INJECT_F_DELAY_ENTER, opt_delay_idx := idx\<rparr>)\<rparr>)"
| "planned tcp (Result v) tcp' s' \<longleftrightarrow> stored_regs s' = None \<and>
     (\<exists>idx. retval_get idx s' = Some v \<and>
        tcp' = tcp\<lparr>qual_flg := qual_flg tcp OR QUAL_INJECT, tcb_flags := tcb_flags tcp OR ucast INJECT_F_RETVAL,
          inject_vec := Some (new_opts\<lparr>opt_flags := INJECT_F_RETVAL, opt_rval_idx := idx\<rparr>)\<rparr>)"
| "planned tcp Repeat tcp' s' \<longleftrightarrow> stored_regs s' = Some (user_regs tcp) \<and> tcp' = tcp\<lparr>inject_vec := Some new_opts\<rparr>"

fun allowed :: "bool \<Rightarrow> u64 \<Rightarrow> plan \<Rightarrow> bool" where
  "allowed is_send len Pass = True"
| "allowed is_send len (Late n) = (n < 10 ^ 9)"
| "allowed is_send len (Result v) =
     ((\<exists>e \<in> set (error_codes_for is_send). v = word_of_int (- e)) \<or> is_send \<and> v = len)"
| "allowed is_send len Repeat = is_send"

text \<open>The injector is set up, no call is pending repetition and no partition is on.\<close>

definition settled :: "tracer \<Rightarrow> bool" where
  "settled s \<longleftrightarrow> stored_regs s = None \<and> \<not> net_partition s \<and> is_dst_fuzz s"

definition outcome :: "bool \<Rightarrow> u64 \<Rightarrow> tcb \<Rightarrow> tcb \<times> tracer \<Rightarrow> bool" where
  "outcome is_send len tcp = (\<lambda>(tcp', s'). \<not> net_partition s' \<and> is_dst_fuzz s' \<and> (\<exists>p. allowed is_send len p \<and> planned tcp p tcp' s'))"

lemma unat_of_nat_le: "unat (of_nat n :: 'a::len word) \<le> n"
  by (simp add: unsigned_of_nat)

lemma arena_index: "\<not> unat (of_nat n :: u16) < n \<Longrightarrow> unat (of_nat n :: u16) = n"
  using unat_of_nat_le [of n] by (metis linorder_not_less nle_le)

lemma retval_new_get:
  assumes "retval_new v s = Some (idx, s')"
  shows "retval_get idx s' = Some v \<and> s' = s\<lparr>retval_vec := retval_vec s @ [v]\<rparr>"
  using assms arena_index [of "length (retval_vec s)"]
  by (auto simp: retval_new_def retval_get_def get_byte_def Let_def split: if_splits)

lemma inject_retval_plan:
  assumes "settled s" and "allowed is_send len (Result v)"
  shows "ensures (inject_retval v (tcp\<lparr>inject_vec := o'\<rparr>) s) (outcome is_send len tcp)"
proof -
  have "ensures (retval_new v s) (\<lambda>(idx, s'). retval_get idx s' = Some v \<and> settled s')"
    using retval_new_get assms(1) by (fastforce intro!: ensuresI simp: settled_def)
  then show ?thesis
    unfolding inject_retval_def
    by (rule ensures_bind_pair)
      (use assms(2) in \<open>auto intro!: ensures_Some exI [of _ "Result v"] simp: outcome_def settled_def\<close>)
qed

lemma inject_delay_plan:
  assumes "settled s"
  shows "ensures (inject_delay (tcp\<lparr>inject_vec := o'\<rparr>) s) (outcome is_send len tcp)"
proof (rule ensuresI)
  fix x
  assume x: "inject_delay (tcp\<lparr>inject_vec := o'\<rparr>) s = Some x"
  let ?n = "length (delay_data_vec s)"
  obtain d s2 where d: "draw16 (s\<lparr>delay_data_vec := delay_data_vec s @ [0]\<rparr>) = (d, s2)" by fastforce
  have idx: "unat (of_nat ?n :: u16) = ?n"
    using x arena_index [of ?n] by (auto simp: inject_delay_def alloc_delay_data_def Let_def split: if_splits)
  have s2: "delay_data_vec s2 = delay_data_vec s @ [0]" "settled s2"
    using d assms by (auto simp: draw16_def split_beta Let_def settled_def)
  have "d mod MAX_DELAY_MILLSECONDS < 1000" by (simp add: MAX_DELAY_MILLSECONDS_def)
  then have "allowed is_send len (Late (d mod MAX_DELAY_MILLSECONDS * 10 ^ 6))" by simp
  with x d idx s2 show "outcome is_send len tcp x"
    by (auto simp: inject_delay_def alloc_delay_data_def fill_delay_data_def Let_def set_byte_def get_byte_def
        outcome_def settled_def intro!: exI [of _ "Late (d mod MAX_DELAY_MILLSECONDS * 10 ^ 6)"]
        exI [of _ "of_nat ?n :: u16"])
qed

lemma draw8_settled [simp]: "settled (snd (draw8 s)) = settled s"
  by (simp add: draw8_def split_beta Let_def settled_def)

lemma draw8_net_partition [simp]: "net_partition (snd (draw8 s)) = net_partition s"
  by (simp add: draw8_def split_beta Let_def)

lemma get_byte_mem: "get_byte i xs = Some x \<Longrightarrow> x \<in> set xs"
  by (auto simp: get_byte_def split: if_splits)

lemma EAGAIN_code: "EAGAIN \<in> set (error_codes_for is_send)"
  by (simp add: error_codes_for_def READ_ERROR_CODES_def WRITE_ERROR_CODES_def)

lemma inject_fail_plan:
  assumes "settled s"
  shows "ensures (inject_fail eventfd (error_codes_for is_send) (tcp\<lparr>inject_vec := o'\<rparr>) s) (outcome is_send len tcp)"
proof -
  let ?m = "if eventfd then Some (EAGAIN, s)
    else let (random, s) = draw8 s
         in do { e \<leftarrow> get_byte (random mod length (error_codes_for is_send)) (error_codes_for is_send); Some (e, s) }"
  have "ensures ?m (\<lambda>(e, s'). e \<in> set (error_codes_for is_send) \<and> settled s')"
    using assms EAGAIN_code
    by (auto simp: ensures_def split_beta Let_def bind_eq_Some_conv dest: get_byte_mem)
  then show ?thesis
    unfolding inject_fail_def by (rule ensures_bind_pair) (auto intro!: inject_retval_plan)
qed

lemma outcome_repeat:
  "settled s \<Longrightarrow> is_send \<Longrightarrow>
   outcome is_send len tcp (tcp\<lparr>inject_vec := Some new_opts\<rparr>, s\<lparr>stored_regs := Some (user_regs tcp)\<rparr>)"
  by (auto simp: outcome_def settled_def intro!: exI [of _ Repeat])

lemma inject_fault_plan:
  assumes "settled s"
  shows "ensures (inject_fault is_send len (error_codes_for is_send) file eventfd tcp s) (outcome is_send len tcp)"
proof -
  have np: "\<not> net_partition s" using assms by (simp add: settled_def)
  let ?s = "s\<lparr>last_injected := True\<rparr>"
  have ev: "ensures (get_byte (n mod (if \<not> is_send \<or> file then 2 else NUM_INJECT_EVENTS)) events)
      (\<lambda>ev. ev \<noteq> NETPART \<and> (ev \<in> {LOST, DUP} \<longrightarrow> is_send))" for n
    by (auto simp: ensures_def get_byte_def events_def NUM_INJECT_EVENTS_def nth_Cons' split: if_splits)
  have "settled ?s" using assms by (simp add: settled_def)
  then have st: "settled (snd (draw8 ?s))" by simp
  have "ensures (apply_event eventfd len (error_codes_for is_send) ev (tcp\<lparr>inject_vec := Some new_opts\<rparr>) (snd (draw8 ?s)))
      (outcome is_send len tcp)" if "ev \<noteq> NETPART \<and> (ev \<in> {LOST, DUP} \<longrightarrow> is_send)" for ev
    using that st
    by (cases ev) (auto simp: apply_event_def intro!: inject_delay_plan inject_fail_plan inject_retval_plan
        ensures_Some outcome_repeat)
  note applied = this
  have "inject_fault is_send len (error_codes_for is_send) file eventfd tcp s =
      get_byte (fst (draw8 ?s) mod (if \<not> is_send \<or> file then 2 else NUM_INJECT_EVENTS)) events \<bind>
        (\<lambda>ev. apply_event eventfd len (error_codes_for is_send) ev (tcp\<lparr>inject_vec := Some new_opts\<rparr>) (snd (draw8 ?s)))"
    using np by (simp add: inject_fault_def split_beta Let_def)
  then show ?thesis
    by (simp only:) (rule ensures_bind [OF ev applied])
qed

lemma record_event_keeps:
  "record_event E n len b s = Some s' \<Longrightarrow> stored_regs s' = stored_regs s \<and> net_partition s' = net_partition s
     \<and> retval_vec s' = retval_vec s \<and> delay_data_vec s' = delay_data_vec s \<and> is_dst_fuzz s' = is_dst_fuzz s"
  by (auto simp: record_event_def get_hash_value_def bind_eq_Some_conv Let_def split: if_splits)

lemma planned_cong:
  "stored_regs s' = stored_regs s \<Longrightarrow> retval_vec s' = retval_vec s \<Longrightarrow> delay_data_vec s' = delay_data_vec s \<Longrightarrow>
   planned tcp p tcp' s' = planned tcp p tcp' s"
  by (cases p) (auto simp: retval_get_def)

lemma record_event_outcome:
  assumes "outcome is_send len tcp (tcp', s)"
  shows "ensures (record_event E n len' b s) (\<lambda>s'. outcome is_send len tcp (tcp', s'))"
proof (rule ensuresI)
  fix s'
  assume "record_event E n len' b s = Some s'"
  then have "stored_regs s' = stored_regs s" "net_partition s' = net_partition s" "retval_vec s' = retval_vec s"
    "delay_data_vec s' = delay_data_vec s" "is_dst_fuzz s' = is_dst_fuzz s"
    by (auto dest: record_event_keeps)
  with assms show "outcome is_send len tcp (tcp', s')"
    by (auto simp: outcome_def planned_cong [of s' s])
qed

lemma outcome_pass: "settled s \<Longrightarrow> outcome is_send len tcp (tcp, s)"
  by (auto simp: outcome_def settled_def intro!: exI [of _ Pass])

lemma handle_random_event_plan:
  assumes "settled s"
  shows "ensures (handle_random_event E fuzzing is_send len (error_codes_for is_send) tcp s) (outcome is_send len tcp)"
proof -
  let ?m = "\<lambda>f e. if getenv E ''NO_FAULT'' \<noteq> None then Some (tcp, s, False)
    else let (random, s) = draw8 s
         in if random < 50 then Some (tcp, s, False)
            else do { (tcp, s) \<leftarrow> inject_fault is_send len (error_codes_for is_send) f e tcp s; Some (tcp, s, True) }"
  have "ensures (?m f e) (\<lambda>(tcp', s', _). outcome is_send len tcp (tcp', s'))" for f e
  proof -
    have st: "settled (snd (draw8 s))" using assms by simp
    have "ensures (inject_fault is_send len (error_codes_for is_send) f e tcp (snd (draw8 s)))
        (\<lambda>(tcp', s'). outcome is_send len tcp (tcp', s'))"
      using inject_fault_plan [OF st] by (rule ensures_weaken) auto
    then have "ensures (do { (tcp, s) \<leftarrow> inject_fault is_send len (error_codes_for is_send) f e tcp (snd (draw8 s));
        Some (tcp, s, True) }) (\<lambda>(tcp', s', _). outcome is_send len tcp (tcp', s'))"
      by (rule ensures_bind_pair) (simp add: ensures_def)
    then show ?thesis
      using assms by (auto simp: split_beta Let_def ensures_def outcome_pass)
  qed
  then have "ensures (do { (tcp, s, b) \<leftarrow> ?m f e; s \<leftarrow> record_event E (scno tcp) len b s; Some (tcp, s) })
      (outcome is_send len tcp)" for f e
    by (rule ensures_bind_triple)
      (auto intro!: ensures_bind [OF record_event_outcome] ensures_Some)
  then show ?thesis
    unfolding handle_random_event_def
    using assms by (auto split: option.split fd_class.split simp: settled_def
        intro!: ensures_if ensures_Some outcome_pass)
qed

section \<open>What becomes of a prepared call\<close>

text \<open>A thread that is not hidden, not recovering and not in the middle of an injection.\<close>

definition idle :: "tcb \<Rightarrow> bool" where
  "idle tcp \<longleftrightarrow> \<not> has_flag TCB_HIDE_LOG tcp \<and> \<not> has_flag TCB_CHECK_EXEC_SYSCALL tcp \<and> \<not> has_flag TCB_RECOVERING tcp
     \<and> \<not> has_flag TCB_TAMPERED tcp \<and> \<not> has_flag TCB_INJECT_DELAY_EXIT tcp \<and> \<not> has_flag TCB_INJECT_POKE_EXIT tcp
     \<and> \<not> has_flag TCB_TAMPERED_NO_FAIL tcp"

lemma flag_or: "(x OR y) AND f = 0 \<longleftrightarrow> x AND f = 0 \<and> y AND f = (0 :: u32)"
  by (auto simp: bit_eq_iff bit_simps)

lemma mask_keep: "m AND f = 0 \<Longrightarrow> (x AND NOT m) AND f = x AND (f :: u32)"
  by (auto simp: bit_eq_iff bit_simps)

lemma mask_drop: "m AND f = f \<Longrightarrow> (x AND NOT m) AND f = (0 :: u32)"
  by (auto simp: bit_eq_iff bit_simps)

lemma mask_part: "a AND k = 0 \<Longrightarrow> k AND f = f \<Longrightarrow> a AND f = (0 :: u32)"
  by (auto simp: bit_eq_iff bit_simps)

fun result_regs :: "kernel \<Rightarrow> user_regs_struct \<Rightarrow> plan \<Rightarrow> user_regs_struct" where
  "result_regs kern r Pass = r(RAX := kern (r ORIG_RAX) r)"
| "result_regs kern r (Late n) = r(RAX := kern (r ORIG_RAX) r)"
| "result_regs kern r (Result v) = r(ORIG_RAX := - 1, RAX := v)"
| "result_regs kern r Repeat = r(RAX := r ORIG_RAX, RIP := r RIP - 2)"

lemma get_error_regs [simp]: "user_regs (get_error tcp) = user_regs tcp" "tcb_flags (get_error tcp) = tcb_flags tcp"
  "inject_vec (get_error tcp) = inject_vec tcp"
  by (simp_all add: get_error_def Let_def)

lemma has_flag_get_error [simp]: "has_flag f (get_error tcp) = has_flag f tcp"
  by (simp add: has_flag_def)

lemma differences_one:
  assumes "\<And>x. x \<noteq> RAX \<Longrightarrow> new x = old x"
  shows "compare_and_warning_regs_differences new old < 2"
  using assms by (simp add: compare_and_warning_regs_differences_def compared_regs_def)

lemma exiting_finish_regs:
  assumes "is_dst_fuzz s"
  shows "user_regs (fst (syscall_exiting_finish tcp s)) =
    (case stored_regs s of None \<Rightarrow> user_regs tcp
     | Some old \<Rightarrow> if compare_and_warning_regs_differences (user_regs tcp) old < 2
         then (user_regs tcp)(RAX := old ORIG_RAX, RIP := old RIP - 2) else user_regs tcp)"
    and "snd (syscall_exiting_finish tcp s) = s\<lparr>tmp_offset := 0\<rparr>"
  using assms
  by (auto simp: syscall_exiting_finish_def dst_fuzz_syscall_exiting_finish_def Let_def split: option.split)

lemmas flag_simps = has_flag_def flag_or tcb_bits INJECT_F_RETVAL_def INJECT_F_DELAY_ENTER_def INJECT_F_ERROR_def
  INJECT_F_SIGNAL_def INJECT_F_SYSCALL_def INJECT_F_DELAY_EXIT_def

lemma plain_exit:
  assumes "\<not> has_flag TCB_FILTERED tcp" "\<not> has_flag TCB_CHECK_EXEC_SYSCALL tcp" "\<not> has_flag TCB_TAMPERED tcp"
    "\<not> has_flag TCB_INJECT_DELAY_EXIT tcp" "\<not> has_flag TCB_INJECT_POKE_EXIT tcp"
  shows "after_entry kern now tcp s =
    Some (syscall_exiting_finish (get_error (run_syscall kern (syscall_entering_finish tcp))) s)"
  using assms
  by (simp add: after_entry_def syscall_exiting_decode_def syscall_exiting_trace_def run_syscall_def
      syscall_entering_finish_def flag_simps)

lemma run_syscall_regs [simp]:
  "user_regs (run_syscall kern tcp) = (user_regs tcp)(RAX := kern (user_regs tcp ORIG_RAX) (user_regs tcp))"
  "user_regs (syscall_entering_finish tcp) = user_regs tcp"
  by (simp_all add: run_syscall_def syscall_entering_finish_def)

lemma tamper_result:
  assumes "idle tcp"
    and "tcp1 = tcp\<lparr>qual_flg := q, tcb_flags := tcb_flags tcp OR ucast INJECT_F_RETVAL,
          inject_vec := Some (new_opts\<lparr>opt_flags := INJECT_F_RETVAL, opt_rval_idx := idx\<rparr>)\<rparr>"
  shows "tamper_with_syscall_entering now tcp1 s =
    Some (0, tcp1\<lparr>user_regs := (user_regs tcp)(ORIG_RAX := - 1), tcb_flags := tcb_flags tcp1 OR TCB_TAMPERED\<rparr>)"
  using assms
  by (simp add: tamper_with_syscall_entering_def new_opts_def idle_def INJECT_LAST_INF_def flag_simps)

lemma tamper_late:
  assumes "idle tcp" and "get_byte (unat idx) (delay_data_vec s) = Some n"
    and "tcp1 = tcp\<lparr>qual_flg := q, tcb_flags := tcb_flags tcp OR ucast INJECT_F_DELAY_ENTER,
          inject_vec := Some (new_opts\<lparr>opt_flags := INJECT_F_DELAY_ENTER, opt_delay_idx := idx\<rparr>)\<rparr>"
  shows "tamper_with_syscall_entering now tcp1 s =
    Some (0, tcp1\<lparr>tcb_flags := tcb_flags tcp1 OR TCB_DELAYED OR TCB_TAMPERED_DELAYED, delay_expiration_time := now + n\<rparr>)"
  using assms
  by (simp add: tamper_with_syscall_entering_def delay_tcb_def new_opts_def idle_def INJECT_LAST_INF_def flag_simps)

lemma tampered_exit:
  assumes "idle tcp" and "\<not> has_flag TCB_FILTERED tcp" and "retval_get idx s = Some v"
    and "\<And>r. kern (- 1) r = - 38"
    and "tcp2 = tcp\<lparr>qual_flg := q, inject_vec := Some (new_opts\<lparr>opt_flags := INJECT_F_RETVAL, opt_rval_idx := idx\<rparr>),
           tcb_flags := tcb_flags tcp OR ucast INJECT_F_RETVAL OR TCB_TAMPERED, user_regs := (user_regs tcp)(ORIG_RAX := - 1)\<rparr>"
  shows "\<exists>tcp3. after_entry kern now tcp2 s = Some (syscall_exiting_finish tcp3 s) \<and>
    user_regs tcp3 = (user_regs tcp)(ORIG_RAX := - 1, RAX := v) \<and>
    tcb_flags tcp3 = tcb_flags tcp OR ucast INJECT_F_RETVAL OR TCB_TAMPERED OR TCB_INSYSCALL"
proof -
  let ?t = "run_syscall kern (syscall_entering_finish tcp2)"
  have rax: "user_regs ?t RAX = - 38" using assms(4,5) by simp
  have err: "u_error (get_error ?t) \<noteq> 0"
    using rax by (simp add: get_error_def Let_def is_negated_errno_def MAX_ERRNO_VALUE_def)
  have "syscall_exiting_decode ?t = (True, get_error ?t)"
    using assms(1,2,5) by (simp add: syscall_exiting_decode_def run_syscall_def syscall_entering_finish_def idle_def flag_simps)
  moreover have "syscall_exiting_trace now (get_error ?t) s = Some (set_success v (get_error ?t))"
    using assms(1,3,5) err
    by (simp add: syscall_exiting_trace_def tamper_with_syscall_exiting_def run_syscall_def syscall_entering_finish_def
        idle_def flag_simps new_opts_def)
  moreover have "user_regs (set_success v (get_error ?t)) = (user_regs tcp)(ORIG_RAX := - 1, RAX := v)"
    "tcb_flags (set_success v (get_error ?t)) = tcb_flags tcp OR ucast INJECT_F_RETVAL OR TCB_TAMPERED OR TCB_INSYSCALL"
    using assms(5) by (simp_all add: set_success_def run_syscall_def syscall_entering_finish_def or.assoc fun_upd_twist)
  ultimately show ?thesis by (auto simp: after_entry_def)
qed

text \<open>The flags that survive a call are off.\<close>

definition calm :: "tcb \<Rightarrow> bool" where
  "calm tcp \<longleftrightarrow> \<not> has_flag TCB_HIDE_LOG tcp \<and> \<not> has_flag TCB_CHECK_EXEC_SYSCALL tcp \<and> \<not> has_flag TCB_RECOVERING tcp
     \<and> \<not> has_flag TCB_TAMPERED_NO_FAIL tcp"

lemma idle_calm: "idle tcp \<Longrightarrow> calm tcp"
  by (simp add: idle_def calm_def)

lemma calm_flags:
  assumes "calm tcp" and "tcb_flags tcp' = tcb_flags tcp OR m" and "m AND 0x20980 = 0"
  shows "calm tcp'"
proof -
  have "m AND 128 = 0" "m AND 256 = 0" "m AND 2048 = 0" "m AND 131072 = 0"
    by (rule mask_part [OF assms(3)], simp)+
  with assms(1,2) show ?thesis by (simp add: calm_def has_flag_def flag_or tcb_bits)
qed

lemma finish_idle:
  assumes "calm tcp"
  shows "idle (fst (syscall_exiting_finish tcp s))"
proof -
  have fl: "tcb_flags (fst (syscall_exiting_finish tcp s)) = tcb_flags tcp AND NOT 0x1B044"
    by (simp add: syscall_exiting_finish_def dst_fuzz_syscall_exiting_finish_def Let_def tcb_bits split: option.split)
  have "(x AND NOT 0x1B044) AND 0x40 = 0" "(x AND NOT 0x1B044) AND 0x1000 = 0" "(x AND NOT 0x1B044) AND 0x2000 = 0" for x :: u32
    by (rule mask_drop, simp)+
  moreover have "(x AND NOT 0x1B044) AND 0x80 = x AND 0x80" "(x AND NOT 0x1B044) AND 0x100 = x AND 0x100"
    "(x AND NOT 0x1B044) AND 0x800 = x AND 0x800" "(x AND NOT 0x1B044) AND 0x20000 = x AND 0x20000" for x :: u32
    by (rule mask_keep, simp)+
  ultimately show ?thesis
    using assms unfolding idle_def calm_def has_flag_def fl tcb_bits by (simp only: simp_thms)
qed

text \<open>The end of a call that was not tampered with.\<close>

lemma untouched_exit:
  assumes "idle tcp" and "\<not> has_flag TCB_FILTERED tcp" and "is_dst_fuzz s"
    and "tcb_flags tcp1 = tcb_flags tcp OR m" and "m AND 0x23BE0 = 0" and "user_regs tcp1 = r"
  shows "\<exists>tcp'. after_entry kern now tcp1 s = Some (tcp', s\<lparr>tmp_offset := 0\<rparr>) \<and> idle tcp' \<and>
    user_regs tcp' = (case stored_regs s of None \<Rightarrow> r(RAX := kern (r ORIG_RAX) r)
      | Some old \<Rightarrow> if compare_and_warning_regs_differences (r(RAX := kern (r ORIG_RAX) r)) old < 2
          then r(RAX := old ORIG_RAX, RIP := old RIP - 2) else r(RAX := kern (r ORIG_RAX) r))"
proof -
  have m: "m AND 0x20 = 0" "m AND 0x100 = 0" "m AND 0x40 = 0" "m AND 0x1000 = 0" "m AND 0x2000 = 0" "m AND 0x20980 = 0"
    by (rule mask_part [OF assms(5)], simp)+
  let ?t = "get_error (run_syscall kern (syscall_entering_finish tcp1))"
  have "after_entry kern now tcp1 s = Some (syscall_exiting_finish ?t s)"
    by (rule plain_exit) (use assms(1,2,4) m in \<open>simp_all add: idle_def has_flag_def flag_or tcb_bits\<close>)
  moreover have "calm ?t"
    by (rule calm_flags [of tcp _ "m OR TCB_INSYSCALL"])
      (use assms(1,4) m in \<open>simp_all add: idle_calm run_syscall_def syscall_entering_finish_def or.assoc flag_or tcb_bits\<close>)
  ultimately show ?thesis
    using finish_idle [of ?t s] exiting_finish_regs [OF assms(3), of ?t] assms(6)
    by (intro exI [of _ "fst (syscall_exiting_finish ?t s)"]) (simp add: prod_eq_iff split: option.split)
qed

lemma planned_result:
  assumes tcp: "idle tcp" "\<not> has_flag TCB_FILTERED tcp" "qual_flg tcp = 7"
    and p: "planned tcp p tcp1 s" and s: "is_dst_fuzz s" and kern: "\<And>r. kern (- 1) r = - 38"
  shows "\<exists>tcp'. do { (tcp, s) \<leftarrow> inject_at_entry now tcp1 s; after_entry kern now tcp s } = Some (tcp', s\<lparr>tmp_offset := 0\<rparr>)
    \<and> user_regs tcp' = result_regs kern (user_regs tcp) p \<and> idle tcp'"
proof (cases p)
  case Pass
  with p tcp(3) have "inject_at_entry now tcp1 s = Some (tcp1, s)" and eq: "tcp1 = tcp" "stored_regs s = None"
    by (simp_all add: inject_at_entry_def QUAL_INJECT_def)
  with untouched_exit [OF tcp(1,2) s, of tcp1 0] Pass show ?thesis by fastforce
next
  case (Late n)
  with p obtain idx where idx: "get_byte (unat idx) (delay_data_vec s) = Some n" "stored_regs s = None"
    and tcp1: "tcp1 = tcp\<lparr>qual_flg := qual_flg tcp OR QUAL_INJECT, tcb_flags := tcb_flags tcp OR ucast INJECT_F_DELAY_ENTER,
          inject_vec := Some (new_opts\<lparr>opt_flags := INJECT_F_DELAY_ENTER, opt_delay_idx := idx\<rparr>)\<rparr>"
    by auto
  let ?t = "tcp1\<lparr>tcb_flags := tcb_flags tcp1 OR TCB_DELAYED OR TCB_TAMPERED_DELAYED, delay_expiration_time := now + n\<rparr>"
  have "inject_at_entry now tcp1 s = Some (?t, s)"
    using tamper_late [OF tcp(1) idx(1) tcp1, of now] tcp(3) tcp1 by (simp add: inject_at_entry_def QUAL_INJECT_def)
  moreover have "tcb_flags ?t = tcb_flags tcp OR (ucast INJECT_F_DELAY_ENTER OR TCB_DELAYED OR TCB_TAMPERED_DELAYED)"
    using tcp1 by (simp add: or.assoc)
  ultimately show ?thesis
    using untouched_exit [OF tcp(1,2) s, of ?t "ucast INJECT_F_DELAY_ENTER OR TCB_DELAYED OR TCB_TAMPERED_DELAYED"]
      tcp1 idx(2) Late by (fastforce simp: tcb_bits INJECT_F_DELAY_ENTER_def)
next
  case (Result v)
  with p obtain idx where idx: "retval_get idx s = Some v" "stored_regs s = None"
    and tcp1: "tcp1 = tcp\<lparr>qual_flg := qual_flg tcp OR QUAL_INJECT, tcb_flags := tcb_flags tcp OR ucast INJECT_F_RETVAL,
          inject_vec := Some (new_opts\<lparr>opt_flags := INJECT_F_RETVAL, opt_rval_idx := idx\<rparr>)\<rparr>"
    by auto
  let ?t = "tcp1\<lparr>user_regs := (user_regs tcp)(ORIG_RAX := - 1), tcb_flags := tcb_flags tcp1 OR TCB_TAMPERED\<rparr>"
  have "inject_at_entry now tcp1 s = Some (?t, s)"
    using tamper_result [OF tcp(1) tcp1, of now s] tcp(3) tcp1 by (simp add: inject_at_entry_def QUAL_INJECT_def)
  moreover obtain tcp3 where "after_entry kern now ?t s = Some (syscall_exiting_finish tcp3 s)"
    and regs: "user_regs tcp3 = (user_regs tcp)(ORIG_RAX := - 1, RAX := v)"
    and fl: "tcb_flags tcp3 = tcb_flags tcp OR ucast INJECT_F_RETVAL OR TCB_TAMPERED OR TCB_INSYSCALL"
    using tampered_exit [where kern = kern, OF tcp(1,2) idx(1) kern, of ?t "qual_flg tcp OR QUAL_INJECT" now] tcp1 by (auto simp: or.assoc)
  moreover have "calm tcp3"
    by (rule calm_flags [of tcp _ "ucast INJECT_F_RETVAL OR TCB_TAMPERED OR TCB_INSYSCALL"])
      (use fl tcp(1) in \<open>simp_all add: idle_calm or.assoc tcb_bits INJECT_F_RETVAL_def\<close>)
  ultimately show ?thesis
    using finish_idle [of tcp3 s] exiting_finish_regs [OF s, of tcp3] idx(2) Result
    by (intro exI [of _ "fst (syscall_exiting_finish tcp3 s)"]) (simp add: prod_eq_iff)
next
  case Repeat
  with p tcp(3) have "inject_at_entry now tcp1 s = Some (tcp1, s)"
    and eq: "tcb_flags tcp1 = tcb_flags tcp OR 0" "user_regs tcp1 = user_regs tcp" "stored_regs s = Some (user_regs tcp)"
    by (simp_all add: inject_at_entry_def QUAL_INJECT_def)
  with untouched_exit [OF tcp(1,2) s eq(1) _ eq(2), of kern now] Repeat
    differences_one [of "(user_regs tcp)(RAX := kern (user_regs tcp ORIG_RAX) (user_regs tcp))" "user_regs tcp"]
  show ?thesis by fastforce
qed

section \<open>A repeated write\<close>

text \<open>
  A node writes ten bytes to a socket, and the random file asks for a repetition.  The witnesses of the
  theorems below follow this call.
\<close>

definition demo_env :: strace_env where
  "demo_env = \<lparr>getenv = (\<lambda>_. None), readlink = (\<lambda>_ _. Some ''socket:[7]''), shm_map = (\<lambda>_. None), shm_index = (\<lambda>_. None),
     malloc_map = replicate FUZZ_COVERAGE_MAP_SIZE 0, malloc_index = 0, peek_iov_len = (\<lambda>_. 0), peek_msghdr = (\<lambda>_. (0, 0))\<rparr>"

definition demo_regs :: user_regs_struct where
  "demo_regs = (\<lambda>_. 0)(ORIG_RAX := 1, RDI := 5, RDX := 10, RAX := - 38, RIP := 100)"

definition demo_tcb :: tcb where
  "demo_tcb = \<lparr>pid = 1, scno = 0, u_arg = (\<lambda>_. 0), tcb_flags = 0, qual_flg = 0, inject_vec = None, u_rval = 0, u_error = 0,
     delay_expiration_time = 0, user_regs = demo_regs\<rparr>"

definition demo_tracer :: tracer where
  "demo_tracer = \<lparr>random = \<lparr>fuzz_file_index = 0, fuzz_file_array = [60, 3]\<rparr>, event_index = 0, global_index = 0,
     fuzz_coverage_map = [], stored_regs = None, net_partition = False, last_injected = False,
     printed_fuzzing_stopped = False, is_dst_fuzz = False, tmp_offset = 0, retval_vec = [], delay_data_vec = []\<rparr>"

definition demo_kern :: kernel where
  "demo_kern n r = (if n = - 1 then - 38 else 10)"

lemma map_size_pos: "0 < FUZZ_COVERAGE_MAP_SIZE"
  by (simp add: FUZZ_COVERAGE_MAP_SIZE_def)

lemma demo_tracer_draws:
  "draw8 s = (60, s\<lparr>random := \<lparr>fuzz_file_index = 1, fuzz_file_array = [60, 3]\<rparr>\<rparr>)"
  if "random s = \<lparr>fuzz_file_index = 0, fuzz_file_array = [60, 3]\<rparr>" for s
  using that by (simp add: draw8_def get_random_uint8_t_def read_byte_def fuzz_file_length_def to_u32_def)

lemma demo_tracer_draws_next:
  "draw8 s = (3, s\<lparr>random := \<lparr>fuzz_file_index = 2, fuzz_file_array = [60, 3]\<rparr>\<rparr>)"
  if "random s = \<lparr>fuzz_file_index = 1, fuzz_file_array = [60, 3]\<rparr>" for s
  using that by (simp add: draw8_def get_random_uint8_t_def read_byte_def fuzz_file_length_def to_u32_def)

lemma demo_handle:
  assumes "random s = \<lparr>fuzz_file_index = 0, fuzz_file_array = [60, 3]\<rparr>" and "stored_regs s = None" and "\<not> net_partition s"
    and "length (fuzz_coverage_map s) = FUZZ_COVERAGE_MAP_SIZE" and "3 \<le> u_arg tcp 0"
  shows "\<exists>s'. handle_random_event demo_env True True len (error_codes_for True) tcp s = Some (tcp\<lparr>inject_vec := Some new_opts\<rparr>, s')
    \<and> stored_regs s' = Some (user_regs tcp) \<and> is_dst_fuzz s' = is_dst_fuzz s"
  using assms map_size_pos
  by (simp add: handle_random_event_def demo_env_def classify_path_def inject_fault_def apply_event_def events_def
      NUM_INJECT_EVENTS_def get_byte_def set_byte_def record_event_def get_hash_value_def demo_tracer_draws
      demo_tracer_draws_next not_less [symmetric])
section \<open>Traced calls\<close>

definition quiet :: "tracer \<Rightarrow> bool" where
  "quiet s \<longleftrightarrow> stored_regs s = None \<and> \<not> net_partition s"

lemma init_dst_fuzz_settled: "init_dst_fuzz E s = Some s' \<Longrightarrow> quiet s \<Longrightarrow> settled s'"
  by (auto simp: init_dst_fuzz_def quiet_def settled_def bind_eq_Some_conv split: if_splits)

lemma enter_plan:
  assumes "quiet s" and "fuzzed_syscall (scno tcp) = Some (is_send, args)"
  shows "ensures (dst_fuzz_syscall_enter E fuzzing tcp s) (outcome is_send (syscall_length E args tcp) tcp)"
proof -
  have "ensures (if is_dst_fuzz s then Some s else init_dst_fuzz E s) settled"
    using assms(1) by (auto simp: ensures_def init_dst_fuzz_settled) (simp add: quiet_def settled_def)
  then show ?thesis
    unfolding dst_fuzz_syscall_enter_def
    by (rule ensures_bind) (use assms(2) in \<open>auto intro!: handle_random_event_plan\<close>)
qed

text \<open>The thread as the injector sees it.\<close>

definition entered :: "tcb \<Rightarrow> tcb" where
  "entered tcp = (syscall_entering_decode tcp)\<lparr>tcb_flags := tcb_flags tcp AND NOT TCB_FILTERED\<rparr>"

lemma entered_simps [simp]:
  "user_regs (entered tcp) = user_regs tcp" "scno (entered tcp) = unat (user_regs tcp ORIG_RAX)" "qual_flg (entered tcp) = 7"
  by (simp_all add: entered_def syscall_entering_decode_def Let_def)

lemma entered_length: "syscall_length E args (entered tcp) = syscall_length E args (syscall_entering_decode tcp)"
  by (cases args) (simp_all add: syscall_length_def entered_def get_length_from_iovec_def get_length_from_msg_def
      get_length_from_mmsg_def)

lemma entered_idle: "idle tcp \<Longrightarrow> idle (entered tcp)"
proof -
  have fl: "tcb_flags (entered tcp) = tcb_flags tcp AND NOT 0x20" by (simp add: entered_def TCB_FILTERED_def)
  have "(x AND NOT 0x20) AND 0x80 = x AND 0x80" "(x AND NOT 0x20) AND 0x100 = x AND 0x100"
    "(x AND NOT 0x20) AND 0x800 = x AND 0x800" "(x AND NOT 0x20) AND 0x40 = x AND 0x40"
    "(x AND NOT 0x20) AND 0x1000 = x AND 0x1000" "(x AND NOT 0x20) AND 0x2000 = x AND 0x2000"
    "(x AND NOT 0x20) AND 0x20000 = x AND 0x20000" for x :: u32
    by (rule mask_keep, simp)+
  then show "idle tcp \<Longrightarrow> idle (entered tcp)"
    by (simp only: idle_def has_flag_def tcb_bits fl simp_thms)
qed

lemma entered_not_filtered: "\<not> has_flag TCB_FILTERED (entered tcp)"
  by (simp add: has_flag_def entered_def mask_drop)

lemma traced_syscall_enter:
  assumes "idle tcp"
  shows "traced_syscall E kern fuzzing now tcp s =
    do { (tcp1, s1) \<leftarrow> dst_fuzz_syscall_enter E fuzzing (entered tcp) s;
         do { (tcp, s) \<leftarrow> inject_at_entry now tcp1 s1; after_entry kern now tcp s } }"
proof -
  have "\<not> has_flag TCB_HIDE_LOG (syscall_entering_decode tcp)" "qual_flg (syscall_entering_decode tcp) = 7"
    "(syscall_entering_decode tcp)\<lparr>tcb_flags := tcb_flags (syscall_entering_decode tcp) AND NOT TCB_FILTERED\<rparr> = entered tcp"
    using assms by (simp_all add: idle_def has_flag_def syscall_entering_decode_def entered_def Let_def)
  then show ?thesis
    by (simp add: traced_syscall_def syscall_entering_trace_def QUAL_TRACE_def Option.bind_assoc case_prod_unfold)
qed

lemma traced_syscall_cases:
  assumes "traced_syscall E kern fuzzing now tcp s = Some (tcp', s')"
    and "fuzzed_syscall (unat (user_regs tcp ORIG_RAX)) = Some (is_send, args)"
    and "idle tcp" and "quiet s" and "\<forall>r. kern (- 1) r = - 38"
  shows "let r = user_regs tcp; len = syscall_length E args (syscall_entering_decode tcp)
    in idle tcp' \<and> is_dst_fuzz s' \<and> \<not> net_partition s' \<and>
      (stored_regs s' = None \<and> user_regs tcp' = r(RAX := kern (r ORIG_RAX) r) \<or>
       stored_regs s' = None \<and> (\<exists>e \<in> set (error_codes_for is_send). user_regs tcp' = r(ORIG_RAX := - 1, RAX := word_of_int (- e))) \<or>
       stored_regs s' = None \<and> is_send \<and> user_regs tcp' = r(ORIG_RAX := - 1, RAX := len) \<or>
       stored_regs s' = Some r \<and> is_send \<and> user_regs tcp' = r(RAX := r ORIG_RAX, RIP := r RIP - 2))"
proof -
  let ?len = "syscall_length E args (syscall_entering_decode tcp)"
  from assms(1) obtain tcp1 s1 where enter: "dst_fuzz_syscall_enter E fuzzing (entered tcp) s = Some (tcp1, s1)"
    and rest: "do { (tcp, s) \<leftarrow> inject_at_entry now tcp1 s1; after_entry kern now tcp s } = Some (tcp', s')"
    by (auto simp: traced_syscall_enter [OF assms(3)] bind_eq_Some_conv)
  have "outcome is_send ?len (entered tcp) (tcp1, s1)"
    using ensuresD [OF enter_plan [OF assms(4)] enter] assms(2) by (simp add: entered_length)
  then obtain p where p: "allowed is_send ?len p" "planned (entered tcp) p tcp1 s1" "\<not> net_partition s1" "is_dst_fuzz s1"
    by (auto simp: outcome_def)
  obtain tcp2 where "do { (tcp, s) \<leftarrow> inject_at_entry now tcp1 s1; after_entry kern now tcp s } = Some (tcp2, s1\<lparr>tmp_offset := 0\<rparr>)"
    "user_regs tcp2 = result_regs kern (user_regs tcp) p" "idle tcp2"
    using planned_result [OF entered_idle [OF assms(3)] entered_not_filtered _ p(2,4), of kern now] assms(5) by auto
  with rest have "s' = s1\<lparr>tmp_offset := 0\<rparr>" "user_regs tcp' = result_regs kern (user_regs tcp) p" "idle tcp'"
    by simp_all
  with p show ?thesis by (cases p) (auto simp: Let_def)
qed

lemma demo_facts:
  "idle demo_tcb" "quiet demo_tracer" "\<forall>r. demo_kern (- 1) r = - 38" "user_regs demo_tcb = demo_regs"
  "fuzzed_syscall (unat (user_regs demo_tcb ORIG_RAX)) = Some (True, ByCount)"
  by (simp_all add: idle_def has_flag_def demo_tcb_def quiet_def demo_tracer_def demo_kern_def demo_regs_def fuzzed_syscall_def)

lemma demo_call:
  "\<exists>tcp1 s1. traced_syscall demo_env demo_kern True 0 demo_tcb demo_tracer = Some (tcp1, s1) \<and> stored_regs s1 = Some demo_regs"
proof -
  let ?s = "demo_tracer\<lparr>fuzz_coverage_map := malloc_map demo_env, global_index := 0, is_dst_fuzz := True\<rparr>"
  have init: "init_dst_fuzz demo_env demo_tracer = Some ?s"
    by (simp add: init_dst_fuzz_def demo_env_def)
  have u: "3 \<le> u_arg (entered demo_tcb) 0" and sc: "scno (entered demo_tcb) = 1"
    by (simp_all add: entered_def syscall_entering_decode_def demo_tcb_def demo_regs_def Let_def)
  obtain s1 where s1: "handle_random_event demo_env True True (syscall_length demo_env ByCount (entered demo_tcb)) (error_codes_for True)
      (entered demo_tcb) ?s = Some ((entered demo_tcb)\<lparr>inject_vec := Some new_opts\<rparr>, s1)"
    "stored_regs s1 = Some (user_regs (entered demo_tcb))" "is_dst_fuzz s1"
    using demo_handle [OF _ _ _ _ u, of ?s "syscall_length demo_env ByCount (entered demo_tcb)"]
    by (auto simp: demo_tracer_def demo_env_def)
  have enter: "dst_fuzz_syscall_enter demo_env True (entered demo_tcb) demo_tracer =
      Some ((entered demo_tcb)\<lparr>inject_vec := Some new_opts\<rparr>, s1)"
    using s1(1) init sc by (simp add: dst_fuzz_syscall_enter_def fuzzed_syscall_def demo_tracer_def)
  have "planned (entered demo_tcb) Repeat ((entered demo_tcb)\<lparr>inject_vec := Some new_opts\<rparr>) s1"
    using s1(2) by simp
  from planned_result [OF entered_idle [OF demo_facts(1)] entered_not_filtered _ this s1(3), of demo_kern 0] demo_facts(3)
  show ?thesis
    using s1(2) demo_facts(4) by (auto simp: traced_syscall_enter [OF demo_facts(1)] enter)
qed



text \<open>
  A second theorem follows a repeated call: the \<open>syscall\<close> instruction is executed again, and the
  kernel enters with the number in \<open>ORIG_RAX\<close>, \<open>-ENOSYS\<close> in \<open>RAX\<close> and the address of the next
  instruction in \<open>RIP\<close>.
\<close>

definition syscall_insn :: "user_regs_struct \<Rightarrow> user_regs_struct" where
  "syscall_insn r = r(ORIG_RAX := r RAX, RAX := - 38, RIP := r RIP + 2)"

lemma stored_call_passes:
  assumes "stored_regs s \<noteq> None" and "is_dst_fuzz s" and "idle tcp"
    and "fuzzed_syscall (unat (user_regs tcp ORIG_RAX)) \<noteq> None" and "r = user_regs tcp" and "\<forall>r. kern (- 1) r = - 38"
  shows "\<exists>tcp'. traced_syscall E kern fuzzing now tcp s = Some (tcp', s\<lparr>stored_regs := None, tmp_offset := 0\<rparr>) \<and>
    user_regs tcp' = r(RAX := kern (r ORIG_RAX) r) \<and> idle tcp'"
proof -
  let ?s = "s\<lparr>stored_regs := None\<rparr>"
  have "dst_fuzz_syscall_enter E fuzzing (entered tcp) s = Some (entered tcp, ?s)"
    using assms(1,2,4) by (auto simp: dst_fuzz_syscall_enter_def handle_random_event_def)
  moreover have "planned (entered tcp) Pass (entered tcp) ?s" by simp
  from planned_result [OF entered_idle [OF assms(3)] entered_not_filtered _ this, of kern now] assms(2,5,6)
  obtain tcp' where "do { (tcp, s) \<leftarrow> inject_at_entry now (entered tcp) ?s; after_entry kern now tcp s } =
      Some (tcp', ?s\<lparr>tmp_offset := 0\<rparr>)" "user_regs tcp' = r(RAX := kern (r ORIG_RAX) r)" "idle tcp'"
    by auto
  ultimately show ?thesis by (auto simp: traced_syscall_enter [OF assms(3)])
qed



section \<open>Counting events\<close>

definition same_books :: "tracer \<Rightarrow> tracer \<Rightarrow> bool" where
  "same_books s s' \<longleftrightarrow> fuzz_coverage_map s' = fuzz_coverage_map s \<and> event_index s' = event_index s
     \<and> global_index s' = global_index s \<and> is_dst_fuzz s' = is_dst_fuzz s"

lemma draw_books [simp]: "same_books s (snd (draw8 s'))  = same_books s s'" "same_books s (snd (draw16 s')) = same_books s s'"
  by (simp_all add: draw8_def draw16_def split_beta Let_def same_books_def)

lemma books_fields [simp]:
  "same_books s (s'\<lparr>stored_regs := a\<rparr>) = same_books s s'" "same_books s (s'\<lparr>net_partition := b\<rparr>) = same_books s s'"
  "same_books s (s'\<lparr>last_injected := b\<rparr>) = same_books s s'"
  by (simp_all add: same_books_def)

lemma inject_retval_books:
  "same_books s s' \<Longrightarrow> ensures (inject_retval v tcp s') (\<lambda>(_, s'). same_books s s')"
  by (auto simp: ensures_def inject_retval_def retval_new_def bind_eq_Some_conv Let_def same_books_def split: if_splits)

lemma inject_delay_books:
  assumes "same_books s s'"
  shows "ensures (inject_delay tcp s') (\<lambda>(_, s'). same_books s s')"
proof -
  have "same_books s (snd (draw16 (s'\<lparr>delay_data_vec := v\<rparr>)))" for v
    unfolding draw_books using assms by (simp add: same_books_def)
  then show ?thesis
    by (auto simp: ensures_def inject_delay_def alloc_delay_data_def fill_delay_data_def bind_eq_Some_conv Let_def
        split_beta same_books_def split: if_splits)
qed

lemma inject_fail_books:
  assumes "same_books s s'"
  shows "ensures (inject_fail eventfd codes tcp s') (\<lambda>(_, s'). same_books s s')"
proof -
  let ?m = "if eventfd then Some (EAGAIN, s')
    else let (random, s) = draw8 s' in do { e \<leftarrow> get_byte (random mod length codes) codes; Some (e, s) }"
  have "ensures ?m (\<lambda>(_, s'). same_books s s')"
    using assms by (auto simp: ensures_def bind_eq_Some_conv Let_def split_beta)
  then show ?thesis
    unfolding inject_fail_def by (rule ensures_bind_pair) (auto intro: inject_retval_books)
qed

lemma apply_event_books:
  "same_books s s' \<Longrightarrow> ensures (apply_event eventfd len codes ev tcp s') (\<lambda>(_, s'). same_books s s')"
  by (cases ev) (auto simp: apply_event_def intro!: inject_retval_books inject_delay_books inject_fail_books ensures_Some)

lemma inject_fault_books:
  assumes "same_books s s'"
  shows "ensures (inject_fault is_send len codes file eventfd tcp s') (\<lambda>(_, s'). same_books s s')"
proof -
  let ?s = "s'\<lparr>last_injected := True\<rparr>"
  define q where "q = (if net_partition ?s \<and> \<not> file then
      let (random, s) = draw8 ?s
      in if random mod 2 = 0 then (False, s\<lparr>net_partition := False\<rparr>) else (True, s)
    else (False, ?s))"
  have "same_books s (snd q)"
    unfolding q_def using assms by (simp add: split_beta Let_def)
  moreover have "inject_fault is_send len codes file eventfd tcp s' =
    (let (partitioned, s) = q
     in if partitioned then inject_retval (- 1) (tcp\<lparr>inject_vec := Some new_opts\<rparr>) s
        else let (random, s) = draw8 s
             in do { ev \<leftarrow> get_byte (random mod (if \<not> is_send \<or> file then 2 else NUM_INJECT_EVENTS)) events;
                     apply_event eventfd len codes ev (tcp\<lparr>inject_vec := Some new_opts\<rparr>) s })"
    unfolding inject_fault_def q_def Let_def by simp
  ultimately show ?thesis
    by (simp only: split_beta Let_def) (intro ensures_if inject_retval_books ensures_bind [OF ensures_True] apply_event_books; simp)
qed

lemma record_event_counts:
  assumes "length (fuzz_coverage_map s) = FUZZ_COVERAGE_MAP_SIZE"
  shows "ensures (record_event E n len b s) (\<lambda>s'. \<exists>h < FUZZ_COVERAGE_MAP_SIZE.
    fuzz_coverage_map s' = (fuzz_coverage_map s)[h := fuzz_coverage_map s ! h + 1]
      \<and> event_index s' = event_index s + 1 \<and> global_index s' = global_index s + 1 \<and> is_dst_fuzz s' = is_dst_fuzz s)"
proof -
  have "ensures (get_hash_value E n len b s) (\<lambda>(h, s'). h < FUZZ_COVERAGE_MAP_SIZE \<and>
      fuzz_coverage_map s' = fuzz_coverage_map s \<and> event_index s' = event_index s + 1 \<and> global_index s' = global_index s + 1
      \<and> is_dst_fuzz s' = is_dst_fuzz s)"
    by (auto simp: ensures_def get_hash_value_def bind_eq_Some_conv Let_def FUZZ_COVERAGE_MAP_SIZE_def)
  then show ?thesis
    unfolding record_event_def
    by (rule ensures_bind_pair) (use assms in \<open>auto simp: ensures_def get_byte_def set_byte_def\<close>)
qed

lemma handle_random_event_counts:
  assumes "handle_random_event E fuzzing is_send len codes tcp s = Some (tcp', s')"
    and "length (fuzz_coverage_map s) = FUZZ_COVERAGE_MAP_SIZE"
  shows "(\<exists>h < FUZZ_COVERAGE_MAP_SIZE. fuzz_coverage_map s' = (fuzz_coverage_map s)[h := fuzz_coverage_map s ! h + 1]
      \<and> event_index s' = event_index s + 1 \<and> global_index s' = global_index s + 1 \<and> is_dst_fuzz s' = is_dst_fuzz s \<and> fuzzing \<and> 3 \<le> u_arg tcp 0) \<or>
    (tcp' = tcp \<and> fuzz_coverage_map s' = fuzz_coverage_map s \<and> event_index s' = event_index s
      \<and> global_index s' = global_index s \<and> random s' = random s \<and> is_dst_fuzz s' = is_dst_fuzz s)"
proof (cases "stored_regs s = None \<and> fuzzing \<and> 3 \<le> u_arg tcp 0 \<and>
    (\<exists>path file eventfd. readlink E (pid tcp) (sint (ucast (u_arg tcp 0) :: u32)) = Some path \<and>
       classify_path (getenv E ''NO_FAULT_FILES'') path = Fuzzed file eventfd)")
  case True
  then obtain path f e where f: "readlink E (pid tcp) (sint (ucast (u_arg tcp 0) :: u32)) = Some path"
    "classify_path (getenv E ''NO_FAULT_FILES'') path = Fuzzed f e" by blast
  let ?m = "if getenv E ''NO_FAULT'' \<noteq> None then Some (tcp, s, False)
    else let (random, s) = draw8 s
         in if random < 50 then Some (tcp, s, False)
            else do { (tcp, s) \<leftarrow> inject_fault is_send len codes f e tcp s; Some (tcp, s, True) }"
  have refl: "same_books s s" by (simp add: same_books_def)
  then have "ensures (do { (tcp, s) \<leftarrow> inject_fault is_send len codes f e tcp (snd (draw8 s)); Some (tcp, s, True) })
      (\<lambda>(_, s', _). same_books s s')"
    by (intro ensures_bind_pair [OF inject_fault_books [of s "snd (draw8 s)", THEN ensures_weaken]])
      (auto simp: ensures_def)
  then have "ensures ?m (\<lambda>(_, s', _). same_books s s')"
    using refl by (auto simp: split_beta Let_def ensures_def)
  then have "ensures (do { (tcp, s, b) \<leftarrow> ?m; s \<leftarrow> record_event E (scno tcp) len b s; Some (tcp, s) })
      (\<lambda>(_, s'). \<exists>h < FUZZ_COVERAGE_MAP_SIZE. fuzz_coverage_map s' = (fuzz_coverage_map s)[h := fuzz_coverage_map s ! h + 1]
      \<and> event_index s' = event_index s + 1 \<and> global_index s' = global_index s + 1 \<and> is_dst_fuzz s' = is_dst_fuzz s)"
    by (rule ensures_bind_triple)
      (unfold prod.case, rule ensures_bind [OF record_event_counts], use assms(2) in \<open>auto simp: same_books_def ensures_def\<close>)
  moreover have "do { (tcp, s, b) \<leftarrow> ?m; s \<leftarrow> record_event E (scno tcp) len b s; Some (tcp, s) } = Some (tcp', s')"
    using assms(1) True f by (simp add: handle_random_event_def not_less [symmetric])
  ultimately show ?thesis using True by (fastforce dest: ensuresD)
next
  case False
  then have "tcp' = tcp \<and> (s' = s\<lparr>stored_regs := None\<rparr> \<or> s' = s\<lparr>printed_fuzzing_stopped := True\<rparr> \<or> s' = s)"
    using assms(1) by (auto simp: handle_random_event_def not_le split: if_splits option.splits fd_class.splits)
  then show ?thesis by auto
qed

text \<open>
  The injector keeps its books: at a system call with a descriptor that takes part it counts the
  event in exactly one cell of the coverage map, inside the map, and advances the event index by one; at
  every other call it leaves the thread, the map, the event index and the random file alone.
\<close>

theorem strace_counts_events:
  assumes "handle_random_event E fuzzing is_send len codes tcp s = Some (tcp', s')"
    and "length (fuzz_coverage_map s) = FUZZ_COVERAGE_MAP_SIZE"
  shows "(\<exists>h < FUZZ_COVERAGE_MAP_SIZE. fuzz_coverage_map s' = (fuzz_coverage_map s)[h := fuzz_coverage_map s ! h + 1]
      \<and> event_index s' = event_index s + 1 \<and> global_index s' = global_index s + 1 \<and> fuzzing \<and> 3 \<le> u_arg tcp 0) \<or>
    (tcp' = tcp \<and> fuzz_coverage_map s' = fuzz_coverage_map s \<and> event_index s' = event_index s
      \<and> global_index s' = global_index s \<and> random s' = random s)"
  using handle_random_event_counts [OF assms] by blast

theorem strace_counts_events_witness:
  "\<exists>s'. handle_random_event demo_env True True 10 (error_codes_for True) (entered demo_tcb)
      (demo_tracer\<lparr>fuzz_coverage_map := replicate FUZZ_COVERAGE_MAP_SIZE 0\<rparr>)
        = Some ((entered demo_tcb)\<lparr>inject_vec := Some new_opts\<rparr>, s') \<and> event_index s' = 1"
proof -
  let ?s = "demo_tracer\<lparr>fuzz_coverage_map := replicate FUZZ_COVERAGE_MAP_SIZE 0\<rparr>"
  have u: "3 \<le> u_arg (entered demo_tcb) 0" "inject_vec (entered demo_tcb) = None"
    by (simp_all add: entered_def syscall_entering_decode_def demo_tcb_def demo_regs_def Let_def)
  obtain s' where s': "handle_random_event demo_env True True 10 (error_codes_for True) (entered demo_tcb) ?s =
      Some ((entered demo_tcb)\<lparr>inject_vec := Some new_opts\<rparr>, s')"
    using demo_handle [OF _ _ _ _ u(1), of ?s 10] by (auto simp: demo_tracer_def)
  have "(entered demo_tcb)\<lparr>inject_vec := Some new_opts\<rparr> \<noteq> entered demo_tcb"
    using u(2) by (metis option.distinct(1) tcb.select_convs(6) tcb.surjective tcb.update_convs(6))
  with strace_counts_events [OF s'] s' show ?thesis by (auto simp: demo_tracer_def)
qed

section \<open>The injector as a recorder of events\<close>

text \<open>The entry of one system call, once the injector is set up.\<close>

definition strace_ready :: "tracer \<Rightarrow> bool" where
  "strace_ready s \<longleftrightarrow> is_dst_fuzz s \<and> length (fuzz_coverage_map s) = FUZZ_COVERAGE_MAP_SIZE"

definition strace_step :: "strace_env \<Rightarrow> bool \<times> tcb \<Rightarrow> tracer \<Rightarrow> tracer option" where
  "strace_step E = (\<lambda>(fuzzing, tcp) s. map_option snd (dst_fuzz_syscall_enter E fuzzing tcp s))"

lemma strace_step_counts:
  assumes "strace_step E x s = Some s'" and "strace_ready s"
  shows "strace_ready s' \<and> (\<exists>h. counts_at (fuzz_coverage_map s) (fuzz_coverage_map s') h)"
proof -
  obtain fuzzing tcp tcp' where run: "dst_fuzz_syscall_enter E fuzzing tcp s = Some (tcp', s')"
    using assms(1) by (cases x) (auto simp: strace_step_def)
  from assms(2) have len: "length (fuzz_coverage_map s) = FUZZ_COVERAGE_MAP_SIZE" and dst: "is_dst_fuzz s"
    by (simp_all add: strace_ready_def)
  show ?thesis
  proof (cases "fuzzed_syscall (scno tcp)")
    case None
    with run dst assms(2) counts_at_none show ?thesis by (auto simp: dst_fuzz_syscall_enter_def)
  next
    case (Some a)
    with run dst have "handle_random_event E fuzzing (fst a) (syscall_length E (snd a) tcp) (error_codes_for (fst a)) tcp s
        = Some (tcp', s')" by (simp add: dst_fuzz_syscall_enter_def split_beta)
    from handle_random_event_counts [OF this len] len dst counts_at_none show ?thesis
      by (auto simp: strace_ready_def counts_at_update)
  qed
qed

interpretation strace_events: event_recorder fuzz_coverage_map strace_ready "strace_step E" for E
  by unfold_locales (use strace_step_counts in blast)+

end
