(* ===== verification/Rr_Fuzz.thy ===== *)
theory Rr_Fuzz
  imports Syscall_Filter Event_Recorder
begin

text \<open>
  The injector inside the record-and-replay debugger \<open>rr\<close> (\<open>src/rr/src/dst_fuzz.cc\<close>), the
  alternative to the one inside \<open>strace\<close>.  It runs after a system call has been carried out and
  either sleeps or overwrites the result.  An event next to one that was already counted is counted
  with it.

  \<open>recorder\<close> holds the globals, \<open>record_task\<close> the registers that are used, \<open>rr_env\<close> the
  environment, the links under \<open>/proc\<close>, shared memory and the memory of the recorded process as
  \<open>read_mem\<close> delivers it.  An access outside the coverage map is \<^term>\<open>None\<close>.
\<close>

record record_task =
  rec_tid :: nat
  original_syscallno :: u64
  arg1 :: u64
  arg2 :: u64
  arg3 :: u64
  syscall_result :: u64

record recorder =
  random :: rand_file
  event_index :: u64
  fuzz_coverage_map :: "u8 list"
  printed_fuzzing_stopped :: bool
  dst_fuzz_inited :: bool
  slept_us :: nat

record rr_env =
  getenv :: "string \<Rightarrow> string option"
  readlink :: "nat \<Rightarrow> int \<Rightarrow> string option"
  shm_map :: "u32 \<Rightarrow> u8 list option"
  malloc_map :: "u8 list"
  read_iov_lens :: "u64 \<Rightarrow> int \<Rightarrow> u64 list"
  read_msghdr :: "u64 \<Rightarrow> u64 \<times> u64"
  read_msg_lens :: "u64 \<Rightarrow> int \<Rightarrow> u64 list"

definition FUZZ_COVERAGE_MAP_SIZE :: nat where "FUZZ_COVERAGE_MAP_SIZE = 2 ^ 23"
definition MAX_DELAY_MILLSECONDS :: nat where "MAX_DELAY_MILLSECONDS = 1000"

text \<open>
  The system call number is passed as a \<open>bool\<close>.  The neighbours of the cell are looked at without
  a check of the bounds of the map; \<open>hash_value - 1\<close> is a 64-bit difference.
\<close>

definition get_hash_value :: "bool \<Rightarrow> u64 \<Rightarrow> bool \<Rightarrow> recorder \<Rightarrow> (nat \<times> recorder) option" where
  "get_hash_value syscall_no len fault_injected s =
     do {
       let sum = event_index s + of_bool syscall_no * 10 + len;
       let hash_value = unat (push_bit (of_bool fault_injected) sum :: u64) mod FUZZ_COVERAGE_MAP_SIZE;
       below \<leftarrow> get_byte (usub64 hash_value 1) (fuzz_coverage_map s);
       if 0 < below then Some (usub64 hash_value 1, s)
       else do {
         above \<leftarrow> get_byte (hash_value + 1) (fuzz_coverage_map s);
         if 0 < above then Some (hash_value + 1, s)
         else Some (hash_value, s\<lparr>event_index := event_index s + 1\<rparr>)
       }
     }"

definition draw8 :: "recorder \<Rightarrow> nat \<times> recorder" where
  "draw8 s = (let (b, r) = get_random_uint8_t (random s) in (unat b, s\<lparr>random := r\<rparr>))"

definition draw16 :: "recorder \<Rightarrow> nat \<times> recorder" where
  "draw16 s = (let (b, r) = get_random_uint16_t (random s) in (unat b, s\<lparr>random := r\<rparr>))"

definition inject_fault :: "bool \<Rightarrow> int list \<Rightarrow> record_task \<Rightarrow> recorder \<Rightarrow> (record_task \<times> recorder) option" where
  "inject_fault eventfd error_codes t s =
     (let (choice, s) = draw8 s
      in if choice mod 2 = 0 then
           let (ms, s) = draw16 s
           in Some (t, s\<lparr>slept_us := slept_us s + ms mod MAX_DELAY_MILLSECONDS * 1000\<rparr>)
         else if eventfd then Some (t\<lparr>syscall_result := word_of_int (- EAGAIN)\<rparr>, s)
         else let (b, s) = draw8 s
              in do { e \<leftarrow> get_byte (b mod length error_codes) error_codes;
                      Some (t\<lparr>syscall_result := word_of_int (- e)\<rparr>, s) })"

definition record_event :: "record_task \<Rightarrow> u64 \<Rightarrow> bool \<Rightarrow> recorder \<Rightarrow> recorder option" where
  "record_event t len fault_injected s =
     do {
       (hash_index, s) \<leftarrow> get_hash_value (original_syscallno t \<noteq> 0) len fault_injected s;
       b \<leftarrow> get_byte hash_index (fuzz_coverage_map s);
       m \<leftarrow> set_byte hash_index (b + 1) (fuzz_coverage_map s);
       Some (s\<lparr>fuzz_coverage_map := m\<rparr>)
     }"

definition handle_random_event ::
  "rr_env \<Rightarrow> bool \<Rightarrow> u64 \<Rightarrow> int list \<Rightarrow> record_task \<Rightarrow> recorder \<Rightarrow> (record_task \<times> recorder) option" where
  "handle_random_event E fuzzing len error_codes t s =
     (if \<not> fuzzing then Some (t, s\<lparr>printed_fuzzing_stopped := True\<rparr>)
      else let fd = sint (ucast (arg1 t) :: u32)
      in if fd < 3 then Some (t, s)
      else case readlink E (rec_tid t) fd of
        None \<Rightarrow> Some (t, s)
      | Some file_path \<Rightarrow>
          (case classify_path (getenv E ''NO_FAULT_FILES'') file_path of
             Exempt \<Rightarrow> Some (t, s)
           | Fuzzed file eventfd \<Rightarrow>
               do {
                 (t, s, fault_injected) \<leftarrow>
                   (if getenv E ''NO_FAULT'' \<noteq> None then Some (t, s, False)
                    else let (random, s) = draw8 s
                         in if random < 50 then Some (t, s, False)
                            else do { (t, s) \<leftarrow> inject_fault eventfd error_codes t s; Some (t, s, True) });
                 s \<leftarrow> record_event t len fault_injected s;
                 Some (t, s)
               }))"

section \<open>Lengths of the data\<close>

definition get_length_from_iovec :: "rr_env \<Rightarrow> u64 \<Rightarrow> int \<Rightarrow> u64" where
  "get_length_from_iovec E iov_ptr iovcnt = fold (\<lambda>l len. len + l) (read_iov_lens E iov_ptr iovcnt) 0"

definition get_length_from_msg :: "rr_env \<Rightarrow> u64 \<Rightarrow> u64" where
  "get_length_from_msg E msghdr_ptr =
     (let (msg_iov, msg_iovlen) = read_msghdr E msghdr_ptr
      in fold (\<lambda>l len. len + l) (read_iov_lens E msg_iov (uint msg_iovlen)) 0)"

definition get_length_from_mmsg :: "rr_env \<Rightarrow> u64 \<Rightarrow> int \<Rightarrow> u64" where
  "get_length_from_mmsg E mmsghdr_ptr vlen = fold (\<lambda>l len. len + l) (read_msg_lens E mmsghdr_ptr vlen) 0"

definition syscall_length :: "rr_env \<Rightarrow> syscall_args \<Rightarrow> record_task \<Rightarrow> u64" where
  "syscall_length E args t =
     (case args of
        ByCount \<Rightarrow> arg3 t
      | ByIovec \<Rightarrow> get_length_from_iovec E (arg2 t) (sint (ucast (arg3 t) :: u32))
      | ByMsg \<Rightarrow> get_length_from_msg E (arg2 t)
      | ByMmsg \<Rightarrow> get_length_from_mmsg E (arg2 t) (sint (ucast (arg3 t) :: u32)))"

section \<open>The hook\<close>

definition init_dst_fuzz :: "rr_env \<Rightarrow> recorder \<Rightarrow> recorder option" where
  "init_dst_fuzz E s =
     do {
       m \<leftarrow> (if getenv E ''DST_FUZZ'' \<noteq> None then
               (case getenv E ''AFLCplusplus_BRANCH_TRACE_SHM_ID'' of
                  None \<Rightarrow> Some (malloc_map E) | Some shm_id \<Rightarrow> shm_map E (atoi shm_id))
             else Some (malloc_map E));
       Some (s\<lparr>fuzz_coverage_map := m, dst_fuzz_inited := True\<rparr>)
     }"

definition dst_fuzz :: "rr_env \<Rightarrow> bool \<Rightarrow> record_task \<Rightarrow> recorder \<Rightarrow> (record_task \<times> recorder) option" where
  "dst_fuzz E fuzzing t s =
     do {
       s \<leftarrow> (if dst_fuzz_inited s then Some s else init_dst_fuzz E s);
       (t, s) \<leftarrow> (case fuzzed_syscall (unat (original_syscallno t)) of
           None \<Rightarrow> Some (t, s)
         | Some (is_send, args) \<Rightarrow>
             handle_random_event E fuzzing (syscall_length E args t) (error_codes_for is_send) t s);
       m \<leftarrow> set_byte 0 0 (fuzz_coverage_map s);
       Some (t, s\<lparr>fuzz_coverage_map := m\<rparr>)
     }"

section \<open>What a recorded call becomes\<close>

text \<open>What the injector may do to a task before the event is counted.\<close>

definition injected :: "int list \<Rightarrow> record_task \<Rightarrow> recorder \<Rightarrow> record_task \<times> recorder \<Rightarrow> bool" where
  "injected codes t s = (\<lambda>(t', s').
     fuzz_coverage_map s' = fuzz_coverage_map s \<and> dst_fuzz_inited s' = dst_fuzz_inited s \<and> event_index s' = event_index s \<and>
     slept_us s \<le> slept_us s' \<and> slept_us s' < slept_us s + 10 ^ 6 \<and>
     (t' = t \<or> (\<exists>e \<in> set codes. t' = t\<lparr>syscall_result := word_of_int (- e)\<rparr>)))"

lemma draw8_fields [simp]:
  "fuzz_coverage_map (snd (draw8 s)) = fuzz_coverage_map s" "dst_fuzz_inited (snd (draw8 s)) = dst_fuzz_inited s"
  "event_index (snd (draw8 s)) = event_index s" "slept_us (snd (draw8 s)) = slept_us s"
  by (simp_all add: draw8_def split_beta Let_def)

lemma draw16_fields [simp]:
  "fuzz_coverage_map (snd (draw16 s)) = fuzz_coverage_map s" "dst_fuzz_inited (snd (draw16 s)) = dst_fuzz_inited s"
  "event_index (snd (draw16 s)) = event_index s" "slept_us (snd (draw16 s)) = slept_us s"
  by (simp_all add: draw16_def split_beta Let_def)

lemma delay_bound: "n mod MAX_DELAY_MILLSECONDS * 1000 < 1000000"
proof -
  have "n mod MAX_DELAY_MILLSECONDS < 1000" by (simp add: MAX_DELAY_MILLSECONDS_def)
  then show ?thesis by simp
qed

lemma inject_fault_injected:
  assumes "EAGAIN \<in> set codes"
  shows "ensures (inject_fault eventfd codes t s) (injected codes t s)"
  using assms delay_bound
  by (auto simp: ensures_def inject_fault_def split_beta Let_def injected_def bind_eq_Some_conv get_byte_def
      split: if_splits)

lemma get_hash_value_fields:
  "get_hash_value n len b s = Some (h, s') \<Longrightarrow> fuzz_coverage_map s' = fuzz_coverage_map s
     \<and> dst_fuzz_inited s' = dst_fuzz_inited s \<and> slept_us s' = slept_us s"
  by (auto simp: get_hash_value_def bind_eq_Some_conv Let_def split: if_splits)

lemma recorder_event_counts:
  assumes "record_event t len b s = Some s'"
  shows "counted (fuzz_coverage_map s) (fuzz_coverage_map s') \<and> dst_fuzz_inited s' = dst_fuzz_inited s \<and> slept_us s' = slept_us s"
  using assms
  by (auto simp: record_event_def bind_eq_Some_conv get_byte_def set_byte_def counted_update
      split: if_splits dest!: get_hash_value_fields)

text \<open>A call after it was handled: sleeping or a listed error, and at most one event counted.\<close>

definition handled :: "int list \<Rightarrow> record_task \<Rightarrow> recorder \<Rightarrow> record_task \<times> recorder \<Rightarrow> bool" where
  "handled codes t s = (\<lambda>(t', s').
     counted (fuzz_coverage_map s) (fuzz_coverage_map s') \<and>
     dst_fuzz_inited s' = dst_fuzz_inited s \<and> slept_us s \<le> slept_us s' \<and> slept_us s' < slept_us s + 10 ^ 6 \<and>
     (t' = t \<or> (\<exists>e \<in> set codes. t' = t\<lparr>syscall_result := word_of_int (- e)\<rparr>)))"

lemma handle_random_event_handled:
  assumes "EAGAIN \<in> set codes"
  shows "ensures (handle_random_event E fuzzing len codes t s) (handled codes t s)"
proof -
  let ?m = "\<lambda>e. if getenv E ''NO_FAULT'' \<noteq> None then Some (t, s, False)
    else let (random, s) = draw8 s
         in if random < 50 then Some (t, s, False)
            else do { (t, s) \<leftarrow> inject_fault e codes t s; Some (t, s, True) }"
  have "ensures (inject_fault e codes t (snd (draw8 s))) (\<lambda>(t', s'). injected codes t s (t', s'))" for e
    using inject_fault_injected [OF assms] by (rule ensures_weaken) (auto simp: injected_def)
  then have "ensures (do { (t, s) \<leftarrow> inject_fault e codes t (snd (draw8 s)); Some (t, s, True) })
      (\<lambda>(t', s', _). injected codes t s (t', s'))" for e
    by (rule ensures_bind_pair) (simp add: ensures_def)
  then have "ensures (?m e) (\<lambda>(t', s', _). injected codes t s (t', s'))" for e
    by (auto simp: split_beta Let_def ensures_def injected_def)
  then have "ensures (do { (t, s, b) \<leftarrow> ?m e; s \<leftarrow> record_event t len b s; Some (t, s) }) (handled codes t s)" for e
    by (rule ensures_bind_triple)
      (auto intro!: ensuresI simp: bind_eq_Some_conv injected_def handled_def dest!: recorder_event_counts)
  then show ?thesis
    unfolding handle_random_event_def
    by (auto split: option.split fd_class.split simp: Let_def handled_def intro!: ensures_if ensures_Some)
qed

lemma dst_fuzz_handled:
  assumes "dst_fuzz E fuzzing t s = Some (t', s')" and "dst_fuzz_inited s"
  shows "dst_fuzz_inited s' \<and> (\<exists>h. counts_at (fuzz_coverage_map s) (fuzz_coverage_map s') h) \<and> fuzz_coverage_map s' ! 0 = 0
    \<and> slept_us s' < slept_us s + 10 ^ 6
    \<and> (t' = t \<or> (\<exists>is_send args. fuzzed_syscall (unat (original_syscallno t)) = Some (is_send, args) \<and>
         (\<exists>e \<in> set (error_codes_for is_send). t' = t\<lparr>syscall_result := word_of_int (- e)\<rparr>)))"
proof -
  let ?sc = "fuzzed_syscall (unat (original_syscallno t))"
  obtain t1 s1 where one: "(case ?sc of None \<Rightarrow> Some (t, s) | Some (is_send, args) \<Rightarrow>
      handle_random_event E fuzzing (syscall_length E args t) (error_codes_for is_send) t s) = Some (t1, s1)"
    and m: "0 < length (fuzz_coverage_map s1)" "t' = t1" "s' = s1\<lparr>fuzz_coverage_map := (fuzz_coverage_map s1)[0 := 0]\<rparr>"
    using assms by (auto simp: dst_fuzz_def bind_eq_Some_conv set_byte_def split: if_splits)
  have eagain: "EAGAIN \<in> set (error_codes_for b)" for b
    by (simp add: error_codes_for_def READ_ERROR_CODES_def WRITE_ERROR_CODES_def)
  show ?thesis
  proof (cases ?sc)
    case None
    with one m assms(2) show ?thesis by (auto intro!: counted_clear)
  next
    case (Some a)
    with one have "handle_random_event E fuzzing (syscall_length E (snd a) t) (error_codes_for (fst a)) t s = Some (t1, s1)"
      by (simp add: split_beta)
    from ensuresD [OF handle_random_event_handled [OF eagain] this] Some m assms(2) show ?thesis
      by (cases a) (auto simp: handled_def intro!: counted_clear)
  qed
qed


definition demo_env :: rr_env where
  "demo_env = \<lparr>getenv = (\<lambda>_. None), readlink = (\<lambda>_ _. Some ''socket:[7]''), shm_map = (\<lambda>_. None), malloc_map = [],
     read_iov_lens = (\<lambda>_ _. []), read_msghdr = (\<lambda>_. (0, 0)), read_msg_lens = (\<lambda>_ _. [])\<rparr>"

definition demo_task :: record_task where
  "demo_task = \<lparr>rec_tid = 1, original_syscallno = 1, arg1 = 5, arg2 = 0, arg3 = 10, syscall_result = 10\<rparr>"

definition demo_recorder :: recorder where
  "demo_recorder = \<lparr>random = \<lparr>fuzz_file_index = 0, fuzz_file_array = [60, 1, 0]\<rparr>, event_index = 0,
     fuzz_coverage_map = replicate FUZZ_COVERAGE_MAP_SIZE 0, printed_fuzzing_stopped = False, dst_fuzz_inited = True, slept_us = 0\<rparr>"

lemma demo_run:
  assumes "random s = \<lparr>fuzz_file_index = 0, fuzz_file_array = [60, 1, 0]\<rparr>" and "event_index s = 0" and "dst_fuzz_inited s"
    and "length (fuzz_coverage_map s) = FUZZ_COVERAGE_MAP_SIZE" and "\<forall>i < FUZZ_COVERAGE_MAP_SIZE. fuzz_coverage_map s ! i = 0"
  shows "\<exists>s'. dst_fuzz demo_env True demo_task s = Some (demo_task\<lparr>syscall_result := - 11\<rparr>, s')"
proof -
  have size: "FUZZ_COVERAGE_MAP_SIZE = 8388608" by (simp add: FUZZ_COVERAGE_MAP_SIZE_def)
  have "usub64 40 1 = 39" by (simp add: usub64_le)
  moreover have "fuzz_coverage_map s \<noteq> []" using assms(4) size by auto
  ultimately show ?thesis
    using assms by (simp add: dst_fuzz_def fuzzed_syscall_def demo_task_def handle_random_event_def demo_env_def classify_path_def
        inject_fault_def draw8_def get_random_uint8_t_def read_byte_def fuzz_file_length_def to_u32_def record_event_def
        get_hash_value_def get_byte_def set_byte_def syscall_length_def error_codes_for_def WRITE_ERROR_CODES_def EAGAIN_def size)
qed


section \<open>The injector as a recorder of events\<close>

definition rr_step :: "rr_env \<Rightarrow> bool \<times> record_task \<Rightarrow> recorder \<Rightarrow> recorder option" where
  "rr_step E = (\<lambda>(fuzzing, t) s. map_option snd (dst_fuzz E fuzzing t s))"

interpretation rr_events: event_recorder fuzz_coverage_map dst_fuzz_inited "rr_step E" for E
  by unfold_locales (auto simp: rr_step_def dest!: dst_fuzz_handled)

text \<open>The neighbours of a cell are inside the map except at its two ends.\<close>

lemma get_hash_value_dies_iff:
  assumes "length (fuzz_coverage_map s) = FUZZ_COVERAGE_MAP_SIZE"
    and "h = unat (push_bit (of_bool b) (event_index s + of_bool n * 10 + len) :: u64) mod FUZZ_COVERAGE_MAP_SIZE"
  shows "get_hash_value n len b s = None \<longleftrightarrow>
    h = 0 \<or> h = FUZZ_COVERAGE_MAP_SIZE - 1 \<and> fuzz_coverage_map s ! (h - 1) = 0"
proof -
  have h: "h < FUZZ_COVERAGE_MAP_SIZE" "1 < FUZZ_COVERAGE_MAP_SIZE" "FUZZ_COVERAGE_MAP_SIZE < 2 ^ 64"
    by (simp_all add: assms(2) FUZZ_COVERAGE_MAP_SIZE_def)
  show ?thesis
  proof (cases "h = 0")
    case True
    have "usub64 0 1 = 2 ^ 64 - 1" by (simp add: usub64_def)
    with True h assms show ?thesis by (simp add: get_hash_value_def get_byte_def)
  next
    case False
    then have "usub64 h 1 = h - 1" using h by (intro usub64_le) auto
    with False h show ?thesis
      by (auto simp: get_hash_value_def get_byte_def assms(1) assms(2) [symmetric] Let_def word_gt_0)
  qed
qed

end
