(* ===== verification/Bpf_Fault.thy ===== *)
theory Bpf_Fault
  imports C_Strings Dst_Random Event_Recorder
begin

text \<open>
  The injector that runs in the kernel (\<open>src/bpf/dst_fuzz_fault.bpf.c\<close>, \<open>utils.h\<close>) and its
  loader (\<open>dst_fuzz_fault.c\<close>).  Probes on opening calls record which descriptors take part; probes
  on calls that move data take two bits of the random bytes to decide on a failure or a delay, and count
  the event in the coverage map.

  \<open>bpf\<close> holds the global variables of the program.  A probe gets the arguments as the kernel
  delivers them: \<open>probe_ctx\<close> the identity of the current thread, and the 256 bytes that
  \<open>bpf_probe_read\<close> copies of a file name.
\<close>

section \<open>Helpers of \<open>utils.h\<close>\<close>

definition SHOULD_RECORD_SIZE :: nat where "SHOULD_RECORD_SIZE = 103"
definition FD_SIZE :: nat where "FD_SIZE = 103"
definition FUZZ_BYTES_SIZE :: nat where "FUZZ_BYTES_SIZE = 1024 * 1024"
definition FUZZ_COVERAGE_MAP_SIZE :: nat where "FUZZ_COVERAGE_MAP_SIZE = 2 ^ 23"

definition get_bit :: "u8 list \<Rightarrow> nat \<Rightarrow> u32 \<Rightarrow> nat" where
  "get_bit array array_size bit_index =
     (let char_index = unat bit_index div 8
      in if char_index < array_size then unat (drop_bit (unat bit_index mod 8) (array ! char_index) AND 1) else 0)"

text \<open>\<^term>\<open>None\<close> is an access outside a buffer.  Both sizes are cut to sixteen bits.\<close>

fun str_equal_loop :: "string \<Rightarrow> string \<Rightarrow> nat \<Rightarrow> bool option" where
  "str_equal_loop cs ct 0 = Some True"
| "str_equal_loop (c1 # cs) (c2 # ct) (Suc n) =
     (if c1 \<noteq> c2 then Some False else if c1 = CHR 0x00 then Some True else str_equal_loop cs ct n)"
| "str_equal_loop _ _ (Suc n) = None"

definition str_equal :: "string \<Rightarrow> string \<Rightarrow> nat \<Rightarrow> bool option" where
  "str_equal cs ct sz = str_equal_loop cs ct (sz mod 2 ^ 16)"

fun str_contains_loop :: "string \<Rightarrow> string \<Rightarrow> nat \<Rightarrow> nat \<Rightarrow> bool option" where
  "str_contains_loop str pat pattern_size 0 = Some False"
| "str_contains_loop (c # str) pat pattern_size (Suc n) =
     (if c = CHR 0x00 then Some False
      else do {
        e \<leftarrow> str_equal (c # str) pat pattern_size;
        if e then Some True else str_contains_loop str pat pattern_size n
      })"
| "str_contains_loop [] pat pattern_size (Suc n) = None"

definition str_contains :: "string \<Rightarrow> string \<Rightarrow> nat \<Rightarrow> nat \<Rightarrow> bool option" where
  "str_contains str pat str_size pattern_size =
     str_contains_loop str pat pattern_size (nat ((int str_size - int pattern_size) mod 2 ^ 16))"

section \<open>Globals\<close>

record bpf =
  pid :: u32
  should_record :: "u8 list"
  record_fds :: "u64 list"
  fuzz_bytes :: "u8 list"
  fuzz_bit_index :: u32
  fuzz_coverage_map :: "u8 list"
  node_id :: u32
  event_index :: u64

record probe_ctx =
  ns_pid_tgid :: "(u32 \<times> u32) option"
  pid_tgid :: u64

definition is_current_pid_or_tgid :: "probe_ctx \<Rightarrow> u32 \<Rightarrow> bool" where
  "is_current_pid_or_tgid c p \<longleftrightarrow>
     (case ns_pid_tgid c of None \<Rightarrow> False | Some (ns_pid, ns_tgid) \<Rightarrow> ns_pid = p \<or> ns_tgid = p) \<or>
     ucast (drop_bit 32 (pid_tgid c)) = p \<or> ucast (pid_tgid c) = p"

text \<open>An event next to one that was already counted is counted with it; all accesses are checked.\<close>

definition near_hit :: "u64 \<Rightarrow> bpf \<Rightarrow> bool" where
  "near_hit tmp s \<longleftrightarrow> unat tmp < FUZZ_COVERAGE_MAP_SIZE \<and> 0 < fuzz_coverage_map s ! unat tmp"

definition record_coverage :: "bool \<Rightarrow> u32 \<Rightarrow> u32 \<Rightarrow> bool \<Rightarrow> bpf \<Rightarrow> bpf" where
  "record_coverage is_send len fd fault_injected s =
     (let wrap = (\<lambda>w :: u64. w mod of_nat FUZZ_COVERAGE_MAP_SIZE);
          hash_value = wrap (push_bit (of_bool fault_injected)
            (event_index s + scast len + ucast (fd * 97) + ucast (node_id s * 100) + of_bool is_send * 10));
          hash_value = (if near_hit (hash_value - 1) s then wrap (hash_value - 1) else hash_value);
          hash_value = (if near_hit (hash_value + 1) s then wrap (hash_value + 1) else hash_value);
          m = fuzz_coverage_map s; h = unat hash_value
      in s\<lparr>fuzz_coverage_map := (if h < FUZZ_COVERAGE_MAP_SIZE then m[h := m ! h + 1] else m),
           event_index := event_index s + 1\<rparr>)"

section \<open>Recording descriptors\<close>

definition pid_slot :: "probe_ctx \<Rightarrow> nat" where
  "pid_slot c = unat (ucast (drop_bit 32 (pid_tgid c)) :: u32) mod SHOULD_RECORD_SIZE"

definition exempt_parts :: "string list" where
  "exempt_parts = [''.o'', ''.so'', ''.cfg'', ''lib'', ''/sys'', ''/proc'', ''/dev'', ''.pro'', ''.jar'', ''/var'', ''tmp'']"

fun contains_any :: "string \<Rightarrow> string list \<Rightarrow> bool option" where
  "contains_any fname [] = Some False"
| "contains_any fname (p # ps) =
     do { b \<leftarrow> str_contains fname p 256 (length p); if b then Some True else contains_any fname ps }"

definition filter_by_filename :: "probe_ctx \<Rightarrow> string \<Rightarrow> bpf \<Rightarrow> bpf option" where
  "filter_by_filename c fname s =
     do {
       skip \<leftarrow> contains_any fname exempt_parts;
       if skip then Some s
       else do {
         first \<leftarrow> get_byte 0 fname;
         Some (if pid_slot c < SHOULD_RECORD_SIZE \<and> first \<noteq> CHR 0x00
               then s\<lparr>should_record := (should_record s)[pid_slot c := 1]\<rparr> else s)
       }
     }"

definition fd_slot :: "u64 \<Rightarrow> nat" where
  "fd_slot ret = unat ret mod FD_SIZE"

definition record_fd :: "probe_ctx \<Rightarrow> u64 \<Rightarrow> bpf \<Rightarrow> bpf" where
  "record_fd c ret s =
     (let a = pid_slot c
      in if a < SHOULD_RECORD_SIZE \<and> should_record s ! a \<noteq> 0 then
           let s = s\<lparr>should_record := (should_record s)[a := 0]\<rparr>
           in if 0 < sint ret \<and> fd_slot ret < FD_SIZE
              then s\<lparr>record_fds := (record_fds s)[fd_slot ret := 1]\<rparr> else s
         else s)"

definition sys_open_enter :: "probe_ctx \<Rightarrow> string \<Rightarrow> bpf \<Rightarrow> bpf option" where
  "sys_open_enter c fname s = (if is_current_pid_or_tgid c (pid s) then filter_by_filename c fname s else Some s)"

definition sys_openat_enter :: "probe_ctx \<Rightarrow> string \<Rightarrow> bpf \<Rightarrow> bpf option" where
  "sys_openat_enter c fname s = (if is_current_pid_or_tgid c (pid s) then filter_by_filename c fname s else Some s)"

definition sys_openat2_enter :: "probe_ctx \<Rightarrow> string \<Rightarrow> bpf \<Rightarrow> bpf option" where
  "sys_openat2_enter c fname s = (if is_current_pid_or_tgid c (pid s) then filter_by_filename c fname s else Some s)"

definition sys_open_exit :: "probe_ctx \<Rightarrow> u64 \<Rightarrow> bpf \<Rightarrow> bpf" where
  "sys_open_exit c ret s = (if is_current_pid_or_tgid c (pid s) then record_fd c ret s else s)"

definition sys_openat_exit :: "probe_ctx \<Rightarrow> u64 \<Rightarrow> bpf \<Rightarrow> bpf" where
  "sys_openat_exit c ret s = (if is_current_pid_or_tgid c (pid s) then record_fd c ret s else s)"

definition sys_openat2_exit :: "probe_ctx \<Rightarrow> u64 \<Rightarrow> bpf \<Rightarrow> bpf" where
  "sys_openat2_exit c ret s = (if is_current_pid_or_tgid c (pid s) then record_fd c ret s else s)"

definition sys_socket_exit :: "probe_ctx \<Rightarrow> u64 \<Rightarrow> bpf \<Rightarrow> bpf" where
  "sys_socket_exit c ret s =
     (if is_current_pid_or_tgid c (pid s) \<and> fd_slot ret < FD_SIZE
      then s\<lparr>record_fds := (record_fds s)[fd_slot ret := 1]\<rparr> else s)"

section \<open>Calls that move data\<close>

datatype verdict = Untouched | Failed | Delayed

definition choose_fault :: "u32 \<Rightarrow> bpf \<Rightarrow> verdict \<times> bpf" where
  "choose_fault fd s =
     (if unat fd < FD_SIZE \<and> record_fds s ! unat fd \<noteq> 0 then
        let b = get_bit (fuzz_bytes s) FUZZ_BYTES_SIZE (fuzz_bit_index s);
            s = s\<lparr>fuzz_bit_index := fuzz_bit_index s + 1\<rparr>
        in if b \<noteq> 0 then
             let b = get_bit (fuzz_bytes s) FUZZ_BYTES_SIZE (fuzz_bit_index s);
                 s = s\<lparr>fuzz_bit_index := fuzz_bit_index s + 1\<rparr>
             in (if b \<noteq> 0 then Failed else Delayed, s)
           else (Untouched, s)
      else (Untouched, s))"

definition handle_events :: "u32 \<Rightarrow> bool \<Rightarrow> u32 \<Rightarrow> bpf \<Rightarrow> verdict \<times> bpf" where
  "handle_events fd is_send len s =
     (let (v, s) = choose_fault fd s in (v, record_coverage is_send len fd (v \<noteq> Untouched) s))"

definition on_target :: "probe_ctx \<Rightarrow> (bpf \<Rightarrow> verdict \<times> bpf) \<Rightarrow> bpf \<Rightarrow> verdict \<times> bpf" where
  "on_target c f s = (if is_current_pid_or_tgid c (pid s) then f s else (Untouched, s))"

text \<open>
  A count is cut to an \<open>int\<close>; of an array of buffers only the first length is read, of a message
  header the byte count, of an array of message headers the length of the first.
\<close>

definition get_length_from_iovec :: "u64 list \<Rightarrow> u64" where
  "get_length_from_iovec iov = 0 + hd iov"

definition sys_write :: "probe_ctx \<Rightarrow> u32 \<Rightarrow> u64 \<Rightarrow> bpf \<Rightarrow> verdict \<times> bpf" where
  "sys_write c fd count = on_target c (handle_events fd True (ucast count))"

definition sys_writev :: "probe_ctx \<Rightarrow> u32 \<Rightarrow> u64 list \<Rightarrow> bpf \<Rightarrow> verdict \<times> bpf" where
  "sys_writev c fd iov = on_target c (handle_events fd True (ucast (get_length_from_iovec iov)))"

definition sys_read :: "probe_ctx \<Rightarrow> u32 \<Rightarrow> u64 \<Rightarrow> bpf \<Rightarrow> verdict \<times> bpf" where
  "sys_read c fd count = on_target c (handle_events fd False (ucast count))"

definition sys_readv :: "probe_ctx \<Rightarrow> u32 \<Rightarrow> u64 list \<Rightarrow> bpf \<Rightarrow> verdict \<times> bpf" where
  "sys_readv c fd iov = on_target c (handle_events fd False (ucast (get_length_from_iovec iov)))"

definition sys_recvmsg :: "probe_ctx \<Rightarrow> u32 \<Rightarrow> u64 \<Rightarrow> bpf \<Rightarrow> verdict \<times> bpf" where
  "sys_recvmsg c fd msg_iter_count = on_target c (handle_events fd False (ucast msg_iter_count))"

definition sys_recvmmsg :: "probe_ctx \<Rightarrow> u32 \<Rightarrow> u32 \<Rightarrow> bpf \<Rightarrow> verdict \<times> bpf" where
  "sys_recvmmsg c fd msg_len = on_target c (handle_events fd False msg_len)"

definition sys_sendmsg :: "probe_ctx \<Rightarrow> u32 \<Rightarrow> u64 \<Rightarrow> bpf \<Rightarrow> verdict \<times> bpf" where
  "sys_sendmsg c fd msg_iter_count = on_target c (handle_events fd True (ucast msg_iter_count))"

definition sys_sendmmsg :: "probe_ctx \<Rightarrow> u32 \<Rightarrow> u32 \<Rightarrow> bpf \<Rightarrow> verdict \<times> bpf" where
  "sys_sendmmsg c fd msg_len = on_target c (handle_events fd True msg_len)"

definition sys_pwritev :: "probe_ctx \<Rightarrow> u32 \<Rightarrow> u64 list \<Rightarrow> bpf \<Rightarrow> verdict \<times> bpf" where
  "sys_pwritev c fd iov = on_target c (handle_events fd True (ucast (get_length_from_iovec iov)))"

definition sys_pwritev2 :: "probe_ctx \<Rightarrow> u32 \<Rightarrow> u64 list \<Rightarrow> bpf \<Rightarrow> verdict \<times> bpf" where
  "sys_pwritev2 c fd iov = on_target c (handle_events fd True (ucast (get_length_from_iovec iov)))"

definition sys_preadv :: "probe_ctx \<Rightarrow> u32 \<Rightarrow> u64 list \<Rightarrow> bpf \<Rightarrow> verdict \<times> bpf" where
  "sys_preadv c fd iov = on_target c (handle_events fd False (ucast (get_length_from_iovec iov)))"

definition sys_preadv2 :: "probe_ctx \<Rightarrow> u32 \<Rightarrow> u64 list \<Rightarrow> bpf \<Rightarrow> verdict \<times> bpf" where
  "sys_preadv2 c fd iov = on_target c (handle_events fd False (ucast (get_length_from_iovec iov)))"

definition sys_recv :: "probe_ctx \<Rightarrow> u32 \<Rightarrow> u64 \<Rightarrow> bpf \<Rightarrow> verdict \<times> bpf" where
  "sys_recv c fd len = on_target c (handle_events fd False (ucast len))"

definition sys_recvfrom :: "probe_ctx \<Rightarrow> u32 \<Rightarrow> u64 \<Rightarrow> bpf \<Rightarrow> verdict \<times> bpf" where
  "sys_recvfrom c fd len = on_target c (handle_events fd False (ucast len))"

definition sys_send :: "probe_ctx \<Rightarrow> u32 \<Rightarrow> u64 \<Rightarrow> bpf \<Rightarrow> verdict \<times> bpf" where
  "sys_send c fd len = on_target c (handle_events fd True (ucast len))"

definition sys_sendto :: "probe_ctx \<Rightarrow> u32 \<Rightarrow> u64 \<Rightarrow> bpf \<Rightarrow> verdict \<times> bpf" where
  "sys_sendto c fd len = on_target c (handle_events fd True (ucast len))"

section \<open>The loader\<close>

text \<open>
  What the loader finds around it: whether the program is loaded, attached and the signal handler set,
  the namespace of processes, the child, the run of the probes until the child ends, and the shared
  segment with the coverage map.  The result is the exit code and the contents of that segment; the
  child itself, when \<open>execv\<close> fails, is not followed.
\<close>

record loader_env =
  argc :: nat
  skel_loaded :: bool
  attach_error :: int
  signal_set :: bool
  getenv :: "string \<Rightarrow> string option"
  child_pid :: u32
  probes_run :: "bpf \<Rightarrow> bpf"
  shm_attached :: "u32 \<Rightarrow> u8 list option"

definition init_fuzz_bytes :: "rand_file \<Rightarrow> bpf \<Rightarrow> bpf" where
  "init_fuzz_bytes r s = s\<lparr>fuzz_bytes := fst (get_random_string FUZZ_BYTES_SIZE r)\<rparr>"

definition retrieve_map :: "loader_env \<Rightarrow> bpf \<Rightarrow> (u32 \<times> u8 list) option option" where
  "retrieve_map L s =
     (if getenv L ''DST_FUZZ'' = None then Some None
      else case getenv L ''AFLCplusplus_BRANCH_TRACE_SHM_ID'' of
        None \<Rightarrow> Some None
      | Some shm_id \<Rightarrow>
          do {
            seg \<leftarrow> shm_attached L (atoi shm_id);
            xs \<leftarrow> mem_read 0 FUZZ_COVERAGE_MAP_SIZE (fuzz_coverage_map s);
            seg \<leftarrow> mem_write 0 xs seg;
            Some (Some (atoi shm_id, seg))
          })"

definition loader_main :: "loader_env \<Rightarrow> rand_file \<Rightarrow> bpf \<Rightarrow> (int \<times> (u32 \<times> u8 list) option) option" where
  "loader_main L r s =
     (if argc L < 2 then Some (0, None)
      else if \<not> skel_loaded L then Some (1, None)
      else if attach_error L \<noteq> 0 then Some (- attach_error L, None)
      else if \<not> signal_set L then Some (0, None)
      else do {
        let s = init_fuzz_bytes r s;
        let s = (case getenv L ''NODE_ID'' of None \<Rightarrow> s | Some n \<Rightarrow> s\<lparr>node_id := atoi n\<rparr>);
        let s = probes_run L (s\<lparr>pid := child_pid L\<rparr>);
        shm \<leftarrow> retrieve_map L s;
        Some (0, shm)
      })"

section \<open>Searching in a file name\<close>

definition cstr :: "string \<Rightarrow> string" where
  "cstr buf = takeWhile (\<lambda>c. c \<noteq> CHR 0x00) buf"

lemma cstr_simps [simp]: "cstr [] = []" "cstr (c # cs) = (if c = CHR 0x00 then [] else c # cstr cs)"
  by (simp_all add: cstr_def)

lemma length_cstr: "CHR 0x00 \<in> set buf \<Longrightarrow> length (cstr buf) < length buf"
  by (induction buf) auto

lemma str_equal_spec:
  "CHR 0x00 \<in> set str \<Longrightarrow> CHR 0x00 \<notin> set p \<Longrightarrow> str_equal_loop str p (length p) = Some (starts_with (cstr str) p)"
proof (induction p arbitrary: str)
  case (Cons a p)
  then show ?case by (cases str) auto
qed simp

lemma strstr_shorter: "length s < length p \<Longrightarrow> \<not> strstr s p"
  by (auto simp: strstr_iff)

lemma str_contains_loop_spec:
  assumes "CHR 0x00 \<notin> set p" and "p \<noteq> []" and "length p < 2 ^ 16"
  shows "CHR 0x00 \<in> set str \<Longrightarrow> length str \<le> n + length p \<Longrightarrow>
    str_contains_loop str p (length p) n = Some (strstr (cstr str) p)"
proof (induction n arbitrary: str)
  case 0
  then show ?case using length_cstr [of str] strstr_shorter [of "cstr str" p] by auto
next
  case (Suc n)
  from Suc.prems(1) obtain c cs where str: "str = c # cs" by (cases str) auto
  show ?case
  proof (cases "c = CHR 0x00")
    case True
    then show ?thesis using assms(2) by (simp add: str)
  next
    case False
    have eq: "str_equal str p (length p) = Some (starts_with (cstr str) p)"
      using str_equal_spec [OF Suc.prems(1) assms(1)] assms(3) by (simp add: str_equal_def)
    have "str_contains_loop cs p (length p) n = Some (strstr (cstr cs) p)"
      using Suc False by (simp add: str)
    with eq False show ?thesis by (simp add: str)
  qed
qed

text \<open>
  C34: The bounded search of the kernel program is \<open>strstr\<close>: for a file name whose terminating zero
  was copied, it never leaves the buffer and finds a pattern exactly when the name contains it.
\<close>

theorem str_contains_is_strstr:
  assumes "CHR 0x00 \<in> set buf" and "length buf < 2 ^ 16"
    and "CHR 0x00 \<notin> set p" and "p \<noteq> []" and "length p \<le> length buf"
  shows "str_contains buf p (length buf) (length p) = Some (strstr (cstr buf) p)"
proof -
  have "nat ((int (length buf) - int (length p)) mod 2 ^ 16) = length buf - length p"
    using assms(2,5) by simp
  with str_contains_loop_spec [OF assms(3,4) _ assms(1)] assms(2,5) show ?thesis
    by (simp add: str_contains_def)
qed

theorem str_contains_is_strstr_witness:
  "str_contains (''/data/a.jar'' @ [CHR 0x00, CHR 0x78]) ''.jar'' 13 4 = Some True \<and> strstr ''/data/a.jar'' ''.jar''"
proof -
  let ?b = "''/data/a.jar'' @ [CHR 0x00, CHR 0x78]"
  have l: "length ?b = 13" "length ''.jar'' = 4" by simp_all
  have "str_contains ?b ''.jar'' (length ?b) (length ''.jar'') = Some (strstr (cstr ?b) ''.jar'')"
    by (rule str_contains_is_strstr) simp_all
  moreover have "cstr ?b = ''/data/a.jar''" by simp
  moreover have "strstr ''/data/a.jar'' ''.jar''" by simp
  ultimately show ?thesis unfolding l by simp
qed

section \<open>Which descriptors take part\<close>

definition bpf_ok :: "bpf \<Rightarrow> bool" where
  "bpf_ok s \<longleftrightarrow> length (should_record s) = SHOULD_RECORD_SIZE \<and> length (record_fds s) = FD_SIZE \<and>
     length (fuzz_coverage_map s) = FUZZ_COVERAGE_MAP_SIZE"

lemma exempt_parts_ok: "p \<in> set exempt_parts \<Longrightarrow> CHR 0x00 \<notin> set p \<and> p \<noteq> [] \<and> length p \<le> 256"
  by (auto simp: exempt_parts_def)

lemma contains_any_spec:
  assumes "CHR 0x00 \<in> set fname" and "length fname = 256" and "\<forall>p \<in> set ps. CHR 0x00 \<notin> set p \<and> p \<noteq> [] \<and> length p \<le> 256"
  shows "contains_any fname ps = Some (\<exists>p \<in> set ps. strstr (cstr fname) p)"
  using assms(3)
proof (induction ps)
  case (Cons p ps)
  have "str_contains fname p 256 (length p) = Some (strstr (cstr fname) p)"
  proof -
    have "nat ((int 256 - int (length p)) mod 2 ^ 16) = 256 - length p" using Cons.prems by simp
    with str_contains_loop_spec [of p fname "256 - length p"] Cons.prems assms(1,2) show ?thesis
      by (simp add: str_contains_def)
  qed
  with Cons show ?case by auto
qed simp

lemma slots [simp]: "pid_slot c < SHOULD_RECORD_SIZE" "fd_slot ret < FD_SIZE"
  by (simp_all add: pid_slot_def SHOULD_RECORD_SIZE_def fd_slot_def FD_SIZE_def)


definition demo_bpf :: bpf where
  "demo_bpf = \<lparr>pid = 9, should_record = replicate SHOULD_RECORD_SIZE 0, record_fds = replicate FD_SIZE 0,
     fuzz_bytes = replicate FUZZ_BYTES_SIZE 3, fuzz_bit_index = 0, fuzz_coverage_map = replicate FUZZ_COVERAGE_MAP_SIZE 0,
     node_id = 0, event_index = 0\<rparr>"

definition demo_ctx :: probe_ctx where
  "demo_ctx = \<lparr>ns_pid_tgid = None, pid_tgid = 9\<rparr>"

lemma demo_ok: "bpf_ok demo_bpf" "is_current_pid_or_tgid demo_ctx (pid demo_bpf)" "should_record demo_bpf ! pid_slot demo_ctx = 0"
  "record_fds demo_bpf = replicate FD_SIZE 0" "i < FD_SIZE \<Longrightarrow> record_fds demo_bpf ! i = 0"
  by (simp_all add: bpf_ok_def demo_bpf_def demo_ctx_def is_current_pid_or_tgid_def pid_slot_def SHOULD_RECORD_SIZE_def)


section \<open>Sequences of probes\<close>

datatype probe = Open_Enter probe_ctx string | Open_Exit probe_ctx u64 | Socket_Exit probe_ctx u64
  | Data_Call probe_ctx bool u32 u32

fun bpf_step :: "probe \<Rightarrow> bpf \<Rightarrow> bpf option" where
  "bpf_step (Open_Enter c fname) s = sys_open_enter c fname s"
| "bpf_step (Open_Exit c ret) s = Some (sys_open_exit c ret s)"
| "bpf_step (Socket_Exit c ret) s = Some (sys_socket_exit c ret s)"
| "bpf_step (Data_Call c is_send fd len) s = Some (snd (on_target c (handle_events fd is_send len) s))"

lemma record_coverage_counts:
  assumes "length (fuzz_coverage_map s) = FUZZ_COVERAGE_MAP_SIZE"
  shows "counted (fuzz_coverage_map s) (fuzz_coverage_map (record_coverage b l fd f s))"
  using assms by (simp add: record_coverage_def Let_def counted_update)

lemma record_coverage_fields [simp]:
  "should_record (record_coverage b l fd f s) = should_record s" "record_fds (record_coverage b l fd f s) = record_fds s"
  "fuzz_bytes (record_coverage b l fd f s) = fuzz_bytes s"
  by (simp_all add: record_coverage_def Let_def)

lemma choose_fault_cases:
  "(\<exists>i. snd (choose_fault fd s) = s\<lparr>fuzz_bit_index := i\<rparr>) \<and>
   (fst (choose_fault fd s) \<noteq> Untouched \<longrightarrow> unat fd < FD_SIZE \<and> record_fds s ! unat fd \<noteq> 0)"
  by (auto simp: choose_fault_def Let_def intro: exI [of _ "fuzz_bit_index s"])

lemma handle_events_keeps:
  "should_record (snd (handle_events fd is_send len s)) = should_record s"
  "record_fds (snd (handle_events fd is_send len s)) = record_fds s"
  "bpf_ok s \<Longrightarrow> counted (fuzz_coverage_map s) (fuzz_coverage_map (snd (handle_events fd is_send len s)))"
proof -
  obtain i where i: "snd (choose_fault fd s) = s\<lparr>fuzz_bit_index := i\<rparr>" using choose_fault_cases by blast
  then have eq: "snd (handle_events fd is_send len s) =
      record_coverage is_send len fd (fst (choose_fault fd s) \<noteq> Untouched) (s\<lparr>fuzz_bit_index := i\<rparr>)"
    by (simp add: handle_events_def split_beta Let_def)
  show "should_record (snd (handle_events fd is_send len s)) = should_record s"
    "record_fds (snd (handle_events fd is_send len s)) = record_fds s" by (simp_all add: eq)
  assume "bpf_ok s"
  then show "counted (fuzz_coverage_map s) (fuzz_coverage_map (snd (handle_events fd is_send len s)))"
    unfolding eq using record_coverage_counts [of "s\<lparr>fuzz_bit_index := i\<rparr>"] by (simp add: bpf_ok_def)
qed

lemma counted_length: "counted m m' \<Longrightarrow> length m' = length m"
  by (auto simp: counted_def)

text \<open>A probe keeps the arrays and the map, and marks at most the slot of a descriptor that was returned.\<close>

fun returned :: "probe \<Rightarrow> nat \<Rightarrow> bool" where
  "returned (Open_Exit c ret) i = (fd_slot ret = i)"
| "returned (Socket_Exit c ret) i = (fd_slot ret = i)"
| "returned _ i = False"

lemma bpf_step_keeps:
  assumes "bpf_step e s = Some s'" and "bpf_ok s"
  shows "bpf_ok s' \<and> counted (fuzz_coverage_map s) (fuzz_coverage_map s') \<and>
    (\<forall>i. record_fds s' ! i \<noteq> record_fds s ! i \<longrightarrow> returned e i)"
proof (cases e)
  case (Open_Enter c fname)
  with assms have "s' = s \<or> s' = s\<lparr>should_record := (should_record s)[pid_slot c := 1]\<rparr>"
    by (auto simp: sys_open_enter_def filter_by_filename_def bind_eq_Some_conv split: if_splits)
  with assms(2) show ?thesis by (auto simp: bpf_ok_def)
next
  case (Open_Exit c ret)
  with assms show ?thesis
    by (auto simp: sys_open_exit_def record_fd_def Let_def bpf_ok_def nth_update_iff split: if_splits)
next
  case (Socket_Exit c ret)
  with assms show ?thesis by (auto simp: sys_socket_exit_def bpf_ok_def nth_update_iff split: if_splits)
next
  case (Data_Call c is_send fd len)
  with assms handle_events_keeps [where fd = fd and is_send = is_send and len = len and s = s] show ?thesis
    by (auto simp: on_target_def bpf_ok_def dest: counted_length)
qed

interpretation bpf_events: event_recorder fuzz_coverage_map bpf_ok bpf_step
  by unfold_locales (use bpf_step_keeps counted_counts_at in blast)+

lemma run_marks:
  assumes "foldM bpf_step es s = Some s'" and "bpf_ok s"
  shows "record_fds s' ! i \<noteq> record_fds s ! i \<Longrightarrow> \<exists>e \<in> set es. returned e i"
  using assms
proof (induction es arbitrary: s)
  case (Cons e es)
  then obtain t where t: "bpf_step e s = Some t" "foldM bpf_step es t = Some s'" by (auto simp: bind_eq_Some_conv)
  from bpf_step_keeps [OF t(1) Cons.prems(3)] have ok: "bpf_ok t" and mark: "record_fds t ! i \<noteq> record_fds s ! i \<longrightarrow> returned e i"
    by auto
  show ?case
  proof (cases "record_fds t ! i = record_fds s ! i")
    case True
    then show ?thesis using Cons.IH [OF _ t(2) ok] Cons.prems(1) by auto
  next
    case False
    then show ?thesis using mark by auto
  qed
qed simp



end
