(* ===== verification/Event_Log.thy ===== *)
theory Event_Log
  imports C_Strings
begin

text \<open>
  The event queue and the operation log.  The operators of the test driver send messages through a
  message queue of Boost (\<open>src/core/src/dst_default_event.cpp\<close>); the process \<open>event_control\<close>
  (\<open>src/event_control/src/main.cpp\<close>) receives them and writes those that are marked for recording
  into the file \<open>operation_log\<close>, which a linearizability checker reads.

  \<^item> \<open>event_state\<close> holds the queue (\<^term>\<open>None\<close> while it does not exist), the contents of the
    file and the flag \<open>running\<close>.
  \<^item> All messages have priority 0, so that the queue is a list.  \<open>send\<close> throws for a message that
    is too long, and waits while the queue is full; \<^term>\<open>None\<close> is this waiting.
  \<^item> \<open>log_step\<close> interleaves the senders with the iterations of the receiver.
\<close>

named_theorems event_simps \<open>sending and receiving events\<close>

section \<open>Sending\<close>

definition MAX_QUEUE_NUMBER :: nat where "MAX_QUEUE_NUMBER = 1000"
definition MAX_QUEUE_MESSAGE_SIZE :: nat where "MAX_QUEUE_MESSAGE_SIZE = 1000"
definition NEED_RECORD_MESSAGE_PREFIX :: string where "NEED_RECORD_MESSAGE_PREFIX = ''NEED_RECORD: ''"

record event_state =
  mq :: "string list option"
  operation_log :: string
  running :: bool

definition dst_event_trigger :: "string \<Rightarrow> event_state \<Rightarrow> (nat \<times> event_state) option" where
  "dst_event_trigger str ev =
     (case mq ev of
        None \<Rightarrow> Some (1, ev)
      | Some msgs \<Rightarrow>
          if MAX_QUEUE_MESSAGE_SIZE < length str then Some (1, ev)
          else if length msgs < MAX_QUEUE_NUMBER then Some (0, ev\<lparr>mq := Some (msgs @ [str])\<rparr>)
          else None)"

definition dst_event_record :: "string \<Rightarrow> event_state \<Rightarrow> (nat \<times> event_state) option" where
  "dst_event_record str ev = dst_event_trigger (NEED_RECORD_MESSAGE_PREFIX @ str) ev"

section \<open>Receiving\<close>

text \<open>\<open>std::string::find\<close>: the position of the first occurrence.\<close>

fun string_find :: "string \<Rightarrow> string \<Rightarrow> nat option" where
  "string_find [] p = (if p = [] then Some 0 else None)"
| "string_find (c # cs) p =
     (if starts_with (c # cs) p then Some 0 else map_option Suc (string_find cs p))"

definition control_start :: "event_state \<Rightarrow> event_state" where
  "control_start ev = ev\<lparr>mq := Some [], operation_log := ''['', running := True\<rparr>"

text \<open>
  One iteration of the loop.  The buffer has the maximal message size, so that \<open>try_receive\<close> cannot
  throw; without a message the receiver sleeps.
\<close>

definition control_iteration :: "event_state \<Rightarrow> event_state" where
  "control_iteration ev =
     (case mq ev of
        Some (msg # msgs) \<Rightarrow>
          (let ev = ev\<lparr>mq := Some msgs\<rparr>
           in case string_find msg NEED_RECORD_MESSAGE_PREFIX of
                None \<Rightarrow> ev
              | Some n \<Rightarrow>
                  let content = drop (n + length NEED_RECORD_MESSAGE_PREFIX) msg
                  in ev\<lparr>operation_log := operation_log ev @ content @ '','' @ [CHR 0x0A]\<rparr>)
      | _ \<Rightarrow> ev)"

definition kill_handler :: "event_state \<Rightarrow> event_state" where
  "kill_handler ev = ev\<lparr>running := False\<rparr>"

definition control_stop :: "event_state \<Rightarrow> event_state" where
  "control_stop ev = ev\<lparr>operation_log := operation_log ev @ '']'', mq := None\<rparr>"

text \<open>
  The senders and the receiver interleave.  The label is the list of messages that a step puts into the
  queue.
\<close>

inductive log_step :: "event_state \<Rightarrow> string list \<Rightarrow> event_state \<Rightarrow> bool" where
  send: "dst_event_trigger str ev = Some (0, ev') \<Longrightarrow> log_step ev [str] ev'"
| send_fails: "dst_event_trigger str ev = Some (1, ev') \<Longrightarrow> log_step ev [] ev'"
| receive: "running ev \<Longrightarrow> log_step ev [] (control_iteration ev)"
| signal: "log_step ev [] (kill_handler ev)"

inductive log_reach :: "event_state \<Rightarrow> string list \<Rightarrow> event_state \<Rightarrow> bool" where
  init: "log_reach (control_start ev) [] (control_start ev)"
| step: "log_reach ev0 sent ev \<Longrightarrow> log_step ev ms ev' \<Longrightarrow> log_reach ev0 (sent @ ms) ev'"

inductive_cases log_stepE: "log_step ev ms ev'"

section \<open>What is logged\<close>

definition log_line :: "string \<Rightarrow> string" where
  "log_line msg =
     (case string_find msg NEED_RECORD_MESSAGE_PREFIX of
        None \<Rightarrow> [] | Some n \<Rightarrow> drop (n + length NEED_RECORD_MESSAGE_PREFIX) msg @ '','' @ [CHR 0x0A])"

lemma string_find_None_iff: "string_find s p = None \<longleftrightarrow> \<not> strstr s p"
  by (induction s) auto

lemma string_find_prefix [simp]: "string_find (p @ s) p = Some 0"
proof (cases "p @ s")
  case (Cons c cs)
  have "starts_with (p @ s) p" by (auto simp: starts_with_iff)
  then show ?thesis by (simp add: Cons)
qed simp

lemma log_line_record [simp]: "log_line (NEED_RECORD_MESSAGE_PREFIX @ s) = s @ '','' @ [CHR 0x0A]"
  by (simp add: log_line_def)

lemma log_line_other: "\<not> strstr msg NEED_RECORD_MESSAGE_PREFIX \<Longrightarrow> log_line msg = []"
  by (simp add: log_line_def flip: string_find_None_iff)

lemma control_iteration_Cons [event_simps]:
  "mq ev = Some (msg # msgs) \<Longrightarrow>
     control_iteration ev = ev\<lparr>mq := Some msgs, operation_log := operation_log ev @ log_line msg\<rparr>"
  by (simp add: control_iteration_def log_line_def split: option.splits)

lemma control_iteration_Nil [event_simps]: "mq ev = Some [] \<Longrightarrow> control_iteration ev = ev"
  by (simp add: control_iteration_def)

lemma trigger_cases:
  "dst_event_trigger str ev = Some (r, ev') \<Longrightarrow>
     r = 1 \<and> ev' = ev \<or> r = 0 \<and> (\<exists>msgs. mq ev = Some msgs \<and> ev' = ev\<lparr>mq := Some (msgs @ [str])\<rparr>)"
  by (auto simp: dst_event_trigger_def split: option.splits if_splits)

text \<open>What is in the file and what waits in the queue is together what was sent.\<close>

definition log_inv :: "string list \<Rightarrow> event_state \<Rightarrow> bool" where
  "log_inv sent ev \<longleftrightarrow> (\<exists>msgs. mq ev = Some msgs \<and> length msgs \<le> MAX_QUEUE_NUMBER \<and>
     operation_log ev @ concat (map log_line msgs) = ''['' @ concat (map log_line sent))"

lemma log_inv_step: "log_step ev ms ev' \<Longrightarrow> log_inv sent ev \<Longrightarrow> log_inv (sent @ ms) ev'"
proof (induction rule: log_step.induct)
  case (send str ev ev')
  then obtain msgs where "mq ev = Some msgs" "ev' = ev\<lparr>mq := Some (msgs @ [str])\<rparr>" "length msgs < MAX_QUEUE_NUMBER"
    by (auto simp: dst_event_trigger_def split: option.splits if_splits)
  with send(2) show ?case by (auto simp: log_inv_def simp flip: append_assoc)
next
  case (send_fails str ev ev')
  then show ?case by (auto dest: trigger_cases)
next
  case (receive ev)
  then obtain msgs where q: "mq ev = Some msgs" by (auto simp: log_inv_def)
  with receive show ?case by (cases msgs) (auto simp: log_inv_def event_simps)
next
  case (signal ev)
  then show ?case by (auto simp: log_inv_def kill_handler_def)
qed

lemma log_reach_inv: "log_reach ev0 sent ev \<Longrightarrow> log_inv sent ev"
proof (induction rule: log_reach.induct)
  case (init ev)
  then show ?case by (simp add: log_inv_def control_start_def)
next
  case (step ev0 sent ev ms ev')
  then show ?case by (blast intro: log_inv_step)
qed

definition recorded :: "string list \<Rightarrow> string list" where
  "recorded sent = map (drop (length NEED_RECORD_MESSAGE_PREFIX)) (filter (\<lambda>m. starts_with m NEED_RECORD_MESSAGE_PREFIX) sent)"

lemma log_line_sent:
  "starts_with m NEED_RECORD_MESSAGE_PREFIX \<or> \<not> strstr m NEED_RECORD_MESSAGE_PREFIX \<Longrightarrow>
     log_line m = concat (map (\<lambda>s. s @ '','' @ [CHR 0x0A]) (recorded [m]))"
proof (cases "starts_with m NEED_RECORD_MESSAGE_PREFIX")
  case True
  then show ?thesis by (auto simp: recorded_def starts_with_iff)
next
  case False
  moreover assume "starts_with m NEED_RECORD_MESSAGE_PREFIX \<or> \<not> strstr m NEED_RECORD_MESSAGE_PREFIX"
  ultimately show ?thesis by (simp add: recorded_def log_line_other)
qed

lemma recorded_Cons: "recorded (m # ms) = recorded [m] @ recorded ms"
  by (simp add: recorded_def)

lemma log_lines_sent:
  "\<forall>m \<in> set sent. starts_with m NEED_RECORD_MESSAGE_PREFIX \<or> \<not> strstr m NEED_RECORD_MESSAGE_PREFIX \<Longrightarrow>
     concat (map log_line sent) = concat (map (\<lambda>s. s @ '','' @ [CHR 0x0A]) (recorded sent))"
proof (induction sent)
  case (Cons m ms)
  then show ?case using log_line_sent [of m] by (simp add: recorded_Cons [of m ms])
qed (simp add: recorded_def)

text \<open>
  C98: Whatever the interleaving of the operators with the process that writes the operation log,
  every message that was sent successfully and is marked for recording is logged exactly once, in the order
  of sending, and nothing else is: the file continued by the lines of the waiting messages is the
  history of the recorded messages.  Once the queue is empty, closing the log leaves exactly this history.
\<close>

theorem operation_log_complete:
  assumes "log_reach ev0 sent ev"
    and "\<forall>m \<in> set sent. starts_with m NEED_RECORD_MESSAGE_PREFIX \<or> \<not> strstr m NEED_RECORD_MESSAGE_PREFIX"
  shows "(\<exists>waiting. mq ev = Some waiting \<and> operation_log ev @ concat (map log_line waiting) =
      ''['' @ concat (map (\<lambda>s. s @ '','' @ [CHR 0x0A]) (recorded sent))) \<and>
    (mq ev = Some [] \<longrightarrow> operation_log (control_stop ev) =
      ''['' @ concat (map (\<lambda>s. s @ '','' @ [CHR 0x0A]) (recorded sent)) @ '']'')"
  using log_reach_inv [OF assms(1)] log_lines_sent [OF assms(2)] by (auto simp: log_inv_def control_stop_def)

definition no_log :: event_state where
  "no_log = \<lparr>mq = None, operation_log = [], running = False\<rparr>"

theorem operation_log_complete_witness:
  "\<exists>ev. log_reach (control_start no_log) [NEED_RECORD_MESSAGE_PREFIX @ ''a'', NEED_RECORD_MESSAGE_PREFIX @ ''b''] ev \<and>
     operation_log (control_stop ev) = ''[a,'' @ [CHR 0x0A] @ ''b,'' @ [CHR 0x0A] @ '']''"
proof -
  let ?a = "NEED_RECORD_MESSAGE_PREFIX @ ''a''" and ?b = "NEED_RECORD_MESSAGE_PREFIX @ ''b''"
  let ?s0 = "control_start no_log"
  let ?s1 = "?s0\<lparr>mq := Some [?a]\<rparr>"
  let ?s2 = "control_iteration ?s1"
  let ?s3 = "?s2\<lparr>mq := Some [?b]\<rparr>"
  let ?s4 = "control_iteration ?s3"
  have short: "length ?a \<le> MAX_QUEUE_MESSAGE_SIZE" "length ?b \<le> MAX_QUEUE_MESSAGE_SIZE" "0 < MAX_QUEUE_NUMBER"
    by (simp_all add: NEED_RECORD_MESSAGE_PREFIX_def MAX_QUEUE_MESSAGE_SIZE_def MAX_QUEUE_NUMBER_def)
  have 1: "log_reach ?s0 ([] @ [?a]) ?s1"
    using short by (intro log_reach.step [OF log_reach.init] log_step.send) (simp add: dst_event_trigger_def control_start_def)
  have 2: "log_reach ?s0 (([] @ [?a]) @ []) ?s2"
    by (intro log_reach.step [OF 1] log_step.receive) (simp add: control_start_def)
  have 3: "log_reach ?s0 ((([] @ [?a]) @ []) @ [?b]) ?s3"
    using short by (intro log_reach.step [OF 2] log_step.send) (simp add: dst_event_trigger_def control_start_def event_simps)
  have 4: "log_reach ?s0 (((([] @ [?a]) @ []) @ [?b]) @ []) ?s4"
    by (intro log_reach.step [OF 3] log_step.receive) (simp add: control_start_def event_simps)
  then have r: "log_reach ?s0 [?a, ?b] ?s4" by simp
  have "mq ?s4 = Some []" by (simp add: event_simps control_start_def)
  moreover have "\<forall>m \<in> set [?a, ?b]. starts_with m NEED_RECORD_MESSAGE_PREFIX" by (auto simp: starts_with_iff)
  ultimately show ?thesis using operation_log_complete [OF r] r by (auto simp: recorded_def starts_with_iff)
qed

end
