(* ===== verification/Client_Operator.thy ===== *)
theory Client_Operator
  imports Event_Log Dst_Random
begin

text \<open>
  The client operators of the test driver
  (\<open>src/core/src/operator/dst_default_client_operator.cpp\<close> and the headers
  \<open>dst_default_client_operator.hpp\<close>, \<open>dst_default_init_operator.hpp\<close> and \<open>dst_common_util.hpp\<close>).
  An operator draws its operands from the random file, runs the client program of the tested system and
  records the invocation and, when the program succeeds, the result in the operation log.

  \<^item> \<open>client_env\<close> holds the client's command line (\<open>get_configure_string\<close>, which every tested
    system defines), the child processes and the generator \<open>random\<close> of the C library.  A child that
    cannot be started throws, which is \<^term>\<open>None\<close> of \<open>run_child\<close>.
  \<^item> \<^term>\<open>None\<close> as the result of an operator is the wait for a free place in the event queue or, for
    the initial operator, an exception that nobody catches.
\<close>

section \<open>Strings\<close>

definition int_to_string :: "int \<Rightarrow> string" where
  "int_to_string i = (if i < 0 then ''-'' @ to_string (nat (- i)) else to_string (nat i))"

text \<open>\<open>std::stoll\<close>; \<^term>\<open>None\<close> is one of its two exceptions.\<close>

definition stoll :: "string \<Rightarrow> int option" where
  "stoll str =
     (let xs = dropWhile is_space str;
          neg = (take 1 xs = ''-'');
          ds = takeWhile is_digit (if take 1 xs \<in> {''-'', ''+''} then drop 1 xs else xs);
          n = (if neg then - int (dec_value ds) else int (dec_value ds))
      in if ds = [] \<or> n < - (2 ^ 63) \<or> 2 ^ 63 \<le> n then None else Some n)"

text \<open>The lines that \<open>std::getline\<close> delivers; nothing follows a final newline.\<close>

fun getlines :: "string \<Rightarrow> string \<Rightarrow> string list" where
  "getlines [] cur = (if cur = [] then [] else [rev cur])"
| "getlines (c # cs) cur = (if c = CHR 0x0A then rev cur # getlines cs [] else getlines cs (c # cur))"

definition get_last_output :: "string \<Rightarrow> string" where
  "get_last_output pipe = (case rev (takeWhile (\<lambda>l. l \<noteq> []) (getlines pipe [])) of [] \<Rightarrow> [] | l # _ \<Rightarrow> l)"

definition parse_read_result :: "string \<Rightarrow> int option" where
  "parse_read_result pipe = stoll (get_last_output pipe)"

section \<open>The operators\<close>

datatype OP_NAME = OP_WRITE | OP_READ | OP_CAS

primrec OP_NAME_STR :: "OP_NAME \<Rightarrow> string" where
  "OP_NAME_STR OP_WRITE = ''write''"
| "OP_NAME_STR OP_READ = ''read''"
| "OP_NAME_STR OP_CAS = ''cas''"

definition INT_MAX :: nat where "INT_MAX = 2 ^ 31 - 1"

record client_env =
  get_client_command :: "OP_NAME \<Rightarrow> nat \<Rightarrow> u32 list \<Rightarrow> string"
  run_child :: "nat \<Rightarrow> string \<Rightarrow> (int \<times> string) option"
  libc_random :: "nat \<Rightarrow> nat"

record client =
  client_file :: rand_file
  event_log :: event_state
  commands :: "string list"
  random_calls :: nat

definition operands :: "OP_NAME \<Rightarrow> rand_file \<Rightarrow> u32 list \<times> rand_file" where
  "operands op r =
     (case op of
        OP_READ \<Rightarrow> ([], r)
      | OP_WRITE \<Rightarrow> (let (a, r) = get_random_uint32_t r in ([a], r))
      | OP_CAS \<Rightarrow> (let (a, r) = get_random_uint32_t r; (b, r) = get_random_uint32_t r in ([a, b], r)))"

definition num :: "u32 list \<Rightarrow> nat \<Rightarrow> string" where
  "num vs i = to_string (unat (vs ! i))"

definition invoke_value :: "OP_NAME \<Rightarrow> u32 list \<Rightarrow> string" where
  "invoke_value op vs =
     (case op of
        OP_READ \<Rightarrow> ''nil''
      | OP_WRITE \<Rightarrow> num vs 0
      | OP_CAS \<Rightarrow> ''['' @ num vs 0 @ '' '' @ num vs 1 @ '']'')"

text \<open>The value of the result; the value of a read comes from the output of the client.\<close>

definition result_value :: "OP_NAME \<Rightarrow> u32 list \<Rightarrow> string \<Rightarrow> string option" where
  "result_value op vs output =
     (case op of
        OP_READ \<Rightarrow> map_option int_to_string (parse_read_result output)
      | _ \<Rightarrow> Some (invoke_value op vs))"

definition record_string :: "nat \<Rightarrow> string \<Rightarrow> OP_NAME \<Rightarrow> string \<Rightarrow> string" where
  "record_string tid kind op v =
     ''{:process '' @ to_string tid @ '', :type :'' @ kind @ '', :f :'' @ OP_NAME_STR op @ '', :value '' @ v @ ''}''"

definition run_command :: "client_env \<Rightarrow> string \<Rightarrow> client \<Rightarrow> (int \<times> string) option \<times> client" where
  "run_command E command c = (run_child E (length (commands c)) command, c\<lparr>commands := commands c @ [command]\<rparr>)"

definition record_client :: "string \<Rightarrow> client \<Rightarrow> client option" where
  "record_client str c = do { (_, ev) \<leftarrow> dst_event_record str (event_log c); Some (c\<lparr>event_log := ev\<rparr>) }"

definition next_thread_id :: "client_env \<Rightarrow> client \<Rightarrow> nat \<times> client" where
  "next_thread_id E c = (libc_random E (random_calls c) mod INT_MAX, c\<lparr>random_calls := random_calls c + 1\<rparr>)"

definition DefaultClientOperator_do :: "client_env \<Rightarrow> OP_NAME \<Rightarrow> nat \<Rightarrow> client \<Rightarrow> (bool \<times> client) option" where
  "DefaultClientOperator_do E op_name node_count c =
     do {
       let (random_thread_id, c) = next_thread_id E c;
       let (vs, r) = operands op_name (client_file c);
       let c = c\<lparr>client_file := r\<rparr>;
       let command = get_client_command E op_name node_count vs;
       if command = [] then Some (False, c)
       else do {
         c \<leftarrow> record_client (record_string random_thread_id ''invoke'' op_name (invoke_value op_name vs)) c;
         let (child, c) = run_command E command c;
         case child of
           None \<Rightarrow> Some (False, c)
         | Some (result, output) \<Rightarrow>
             if result \<noteq> 0 then Some (False, c)
             else (case result_value op_name vs output of
                 None \<Rightarrow> Some (False, c)
               | Some v \<Rightarrow>
                   do {
                     c \<leftarrow> record_client (record_string random_thread_id ''ok'' op_name v) c;
                     Some (True, c)
                   })
       }
     }"

fun retry_command :: "client_env \<Rightarrow> string \<Rightarrow> nat \<Rightarrow> client \<Rightarrow> (bool \<times> client) option" where
  "retry_command E command 0 c = Some (False, c)"
| "retry_command E command (Suc n) c =
     (case run_command E command c of
        (None, c) \<Rightarrow> None
      | (Some (code, _), c) \<Rightarrow> if code = 0 then Some (True, c) else retry_command E command n c)"

definition DefaultInitOperator_do :: "client_env \<Rightarrow> string \<Rightarrow> int \<Rightarrow> client \<Rightarrow> (bool \<times> client) option" where
  "DefaultInitOperator_do E write_zero_command MAX_TRY_COUNT c =
     do {
       (ok, c) \<leftarrow> retry_command E write_zero_command (nat MAX_TRY_COUNT) c;
       if ok then do {
         let (random_thread_id, c) = next_thread_id E c;
         c \<leftarrow> record_client (record_string random_thread_id ''invoke'' OP_WRITE ''0'') c;
         c \<leftarrow> record_client (record_string random_thread_id ''ok'' OP_WRITE ''0'') c;
         Some (True, c)
       }
       else Some (False, c)
     }"

section \<open>The recorded history\<close>

lemma length_to_string_u32: "n < 2 ^ 32 \<Longrightarrow> length (to_string n) \<le> 10"
  using length_dec_digits [of 10 n] by (simp add: to_string_def)

lemma length_int_to_string: "- (2 ^ 63) \<le> i \<Longrightarrow> i < 2 ^ 63 \<Longrightarrow> length (int_to_string i) \<le> 21"
  using length_dec_digits [of 20 "nat \<bar>i\<bar>"] by (auto simp: int_to_string_def to_string_def)

lemma length_invoke_value: "length (invoke_value op vs) \<le> 30"
proof -
  have "length (num vs i) \<le> 10" for i
    using length_to_string_u32 [of "unat (vs ! i)"] unsigned_less [of "vs ! i"] by (simp add: num_def)
  from this [of 0] this [of 1] show ?thesis by (cases op) (simp_all add: invoke_value_def)
qed

lemma stoll_range: "stoll str = Some i \<Longrightarrow> - (2 ^ 63) \<le> i \<and> i < 2 ^ 63"
  unfolding stoll_def Let_def by (split if_splits) auto

lemma length_result_value: "result_value op vs out = Some v \<Longrightarrow> length v \<le> 30"
proof (cases op)
  case OP_READ
  assume "result_value op vs out = Some v"
  with OP_READ obtain i where "stoll (get_last_output out) = Some i" "v = int_to_string i"
    by (auto simp: result_value_def parse_read_result_def)
  with stoll_range [of "get_last_output out" i] length_int_to_string [of i] show ?thesis by auto
qed (use length_invoke_value [of op vs] in \<open>auto simp: result_value_def\<close>)

lemma length_record_string:
  assumes "tid < INT_MAX" and "length kind \<le> 6" and "length v \<le> 30"
  shows "length (NEED_RECORD_MESSAGE_PREFIX @ record_string tid kind op v) \<le> MAX_QUEUE_MESSAGE_SIZE"
proof -
  have "length (to_string tid) \<le> 10" using assms(1) by (intro length_to_string_u32) (simp add: INT_MAX_def)
  moreover have "length (OP_NAME_STR op) \<le> 5" by (cases op) simp_all
  ultimately show ?thesis
    using assms(2,3) by (simp add: record_string_def NEED_RECORD_MESSAGE_PREFIX_def MAX_QUEUE_MESSAGE_SIZE_def)
qed

lemma record_client_room:
  assumes "mq (event_log c) = Some q" and "length q < MAX_QUEUE_NUMBER" and "tid < INT_MAX" and "length kind \<le> 6"
    and "length v \<le> 30"
  shows "record_client (record_string tid kind op v) c =
    Some (c\<lparr>event_log := (event_log c)\<lparr>mq := Some (q @ [NEED_RECORD_MESSAGE_PREFIX @ record_string tid kind op v])\<rparr>\<rparr>)"
  using length_record_string [OF assms(3-5), of op] assms(1,2)
  by (simp add: record_client_def dst_event_record_def dst_event_trigger_def not_less)

text \<open>Receiving what is in the queue.\<close>

definition drain :: "event_state \<Rightarrow> event_state" where
  "drain ev = (control_iteration ^^ (case mq ev of None \<Rightarrow> 0 | Some q \<Rightarrow> length q)) ev"

lemma drain_queue:
  assumes "mq ev = Some q"
  shows "drain ev = ev\<lparr>mq := Some [], operation_log := operation_log ev @ concat (map log_line q)\<rparr>"
proof -
  have "(control_iteration ^^ length q) ev = ev\<lparr>mq := Some [], operation_log := operation_log ev @ concat (map log_line q)\<rparr>"
    using assms
  proof (induction q arbitrary: ev)
    case (Cons m q)
    then show ?case by (simp add: funpow_Suc_right event_simps del: funpow.simps)
  qed simp
  then show ?thesis by (simp add: drain_def assms)
qed

text \<open>The lines of one operation.\<close>

inductive history :: "OP_NAME \<Rightarrow> u32 list \<Rightarrow> bool \<Rightarrow> string list \<Rightarrow> bool" where
  unsupported: "history op vs False []"
| unfinished: "tid < INT_MAX \<Longrightarrow> history op vs False [record_string tid ''invoke'' op (invoke_value op vs)]"
| finished: "tid < INT_MAX \<Longrightarrow> result_value op vs out = Some v \<Longrightarrow>
    history op vs True [record_string tid ''invoke'' op (invoke_value op vs), record_string tid ''ok'' op v]"

lemma next_thread_id_less: "fst (next_thread_id E c) < INT_MAX"
  by (simp add: next_thread_id_def INT_MAX_def)

lemma client_do_history:
  assumes "mq (event_log c) = Some q" and "length q + 2 \<le> MAX_QUEUE_NUMBER"
  shows "\<exists>ok c' lines. DefaultClientOperator_do E op n c = Some (ok, c') \<and> history op (fst (operands op (client_file c))) ok lines \<and>
    event_log c' = (event_log c)\<lparr>mq := Some (q @ map ((@) NEED_RECORD_MESSAGE_PREFIX) lines)\<rparr>"
proof -
  obtain tid c1 where t: "next_thread_id E c = (tid, c1)" by fastforce
  obtain vs r where vs: "operands op (client_file c1) = (vs, r)" by fastforce
  let ?c = "c1\<lparr>client_file := r\<rparr>" and ?cmd = "get_client_command E op n vs"
  let ?inv = "record_string tid ''invoke'' op (invoke_value op vs)"
  have tid: "tid < INT_MAX" using next_thread_id_less [of E c] by (simp add: t)
  have log: "event_log c1 = event_log c" using t by (auto simp: next_thread_id_def)
  have vs': "vs = fst (operands op (client_file c))" using t vs by (auto simp: next_thread_id_def)
  have same: "event_log c = (event_log c)\<lparr>mq := Some (q @ [])\<rparr>" using assms(1) by simp
  show ?thesis
  proof (cases "?cmd = []")
    case True
    then have "DefaultClientOperator_do E op n c = Some (False, ?c)"
      by (simp add: DefaultClientOperator_do_def t vs)
    then show ?thesis using history.unsupported [of op vs] log same vs' by fastforce
  next
    case False
    let ?ev = "(event_log c)\<lparr>mq := Some (q @ [NEED_RECORD_MESSAGE_PREFIX @ ?inv])\<rparr>"
    obtain child c2 where run: "run_command E ?cmd (?c\<lparr>event_log := ?ev\<rparr>) = (child, c2)" by fastforce
    then have ev2: "event_log c2 = ?ev" by (auto simp: run_command_def)
    have do: "DefaultClientOperator_do E op n c = (case child of None \<Rightarrow> Some (False, c2) | Some (result, output) \<Rightarrow>
        if result \<noteq> 0 then Some (False, c2) else (case result_value op vs output of None \<Rightarrow> Some (False, c2)
        | Some v \<Rightarrow> do { c \<leftarrow> record_client (record_string tid ''ok'' op v) c2; Some (True, c) }))"
      using False record_client_room [of ?c q tid "''invoke''" "invoke_value op vs" op] assms tid log run length_invoke_value
      by (simp add: DefaultClientOperator_do_def t vs)
    have "DefaultClientOperator_do E op n c = Some (False, c2) \<or> (\<exists>out v. result_value op vs out = Some v \<and>
        DefaultClientOperator_do E op n c = do { c \<leftarrow> record_client (record_string tid ''ok'' op v) c2; Some (True, c) })"
      unfolding do by (auto split: option.split prod.split)
    then consider "DefaultClientOperator_do E op n c = Some (False, c2)"
      | out v where "result_value op vs out = Some v"
        "DefaultClientOperator_do E op n c = do { c \<leftarrow> record_client (record_string tid ''ok'' op v) c2; Some (True, c) }"
      by blast
    then show ?thesis
    proof cases
      case 1
      then show ?thesis using history.unfinished [OF tid, of op vs] ev2 vs' by fastforce
    next
      case 2
      have "record_client (record_string tid ''ok'' op v) c2 =
          Some (c2\<lparr>event_log := ?ev\<lparr>mq := Some ((q @ [NEED_RECORD_MESSAGE_PREFIX @ ?inv]) @
            [NEED_RECORD_MESSAGE_PREFIX @ record_string tid ''ok'' op v])\<rparr>\<rparr>)"
        using record_client_room [of c2 "q @ [NEED_RECORD_MESSAGE_PREFIX @ ?inv]" tid "''ok''" v op] ev2 assms(2) tid
          length_result_value [OF 2(1)] by simp
      then show ?thesis using 2(2) history.finished [OF tid 2(1)] vs' by fastforce
    qed
  qed
qed

text \<open>
  C97: A client operator with room in the event queue always finishes.  Once the operation log is
  written, it has been extended by the history of this operation: nothing for an operation that the
  system does not support, the invocation alone when the client failed, and otherwise the invocation
  followed by the result, both with the same process and
  the operands that were drawn; the result of a read has the value that the client printed.
\<close>

theorem client_operation_recorded:
  assumes "mq (event_log c) = Some []"
  shows "\<exists>ok c' lines. DefaultClientOperator_do E op n c = Some (ok, c') \<and> history op (fst (operands op (client_file c))) ok lines \<and>
    operation_log (drain (event_log c')) = operation_log (event_log c) @ concat (map (\<lambda>l. l @ '','' @ [CHR 0x0A]) lines)"
proof -
  obtain ok c' lines where c': "DefaultClientOperator_do E op n c = Some (ok, c')" "history op (fst (operands op (client_file c))) ok lines"
    "event_log c' = (event_log c)\<lparr>mq := Some (map ((@) NEED_RECORD_MESSAGE_PREFIX) lines)\<rparr>"
    using client_do_history [OF assms, of E op n] by (auto simp: MAX_QUEUE_NUMBER_def)
  then have "operation_log (drain (event_log c')) = operation_log (event_log c) @ concat (map (\<lambda>l. l @ '','' @ [CHR 0x0A]) lines)"
    by (simp add: drain_queue comp_def)
  with c' show ?thesis by blast
qed

definition demo_client_env :: client_env where
  "demo_client_env = \<lparr>get_client_command = (\<lambda>op n vs. ''client ''), run_child = (\<lambda>k cmd. Some (0, ''42'')), libc_random = (\<lambda>_. 7)\<rparr>"

definition demo_client :: client where
  "demo_client = \<lparr>client_file = no_file, event_log = control_start no_log, commands = [], random_calls = 0\<rparr>"

theorem client_operation_recorded_witness:
  "\<exists>ok c' lines. DefaultClientOperator_do demo_client_env OP_READ 3 demo_client = Some (ok, c') \<and> history OP_READ [] ok lines \<and>
    operation_log (drain (event_log c')) = ''['' @ concat (map (\<lambda>l. l @ '','' @ [CHR 0x0A]) lines)"
  using client_operation_recorded [of demo_client demo_client_env OP_READ 3] by (simp add: demo_client_def control_start_def no_log_def operands_def)

end
