(* ===== verification/Driver_Util.thy ===== *)
theory Driver_Util
  imports Client_Operator
begin

text \<open>
  Small parts of the test driver: the registry of operators (\<open>src/core/include/dst_registry.hpp\<close>)
  and the key-value store of a test run (\<open>src/core/src/dst_default_in_memory_kv_store.cpp\<close>).
\<close>

section \<open>The registry\<close>

record 'a registry =
  item_map :: "string \<Rightarrow> 'a option"
  item_vector :: "(string \<times> 'a) list"

definition empty_registry :: "'a registry" where
  "empty_registry = \<lparr>item_map = (\<lambda>_. None), item_vector = []\<rparr>"

definition registry_add :: "string \<Rightarrow> 'a \<Rightarrow> 'a registry \<Rightarrow> bool \<times> 'a registry" where
  "registry_add name t r =
     (if item_map r name \<noteq> None then (False, r)
      else (True, r\<lparr>item_map := (item_map r)(name \<mapsto> t), item_vector := item_vector r @ [(name, t)]\<rparr>))"

text \<open>Erasing the first entry with a name, as the driver does with the initial operator.\<close>

fun erase_first :: "string \<Rightarrow> (string \<times> 'a) list \<Rightarrow> (string \<times> 'a) list" where
  "erase_first name [] = []"
| "erase_first name ((n, t) # xs) = (if n = name then xs else (n, t) # erase_first name xs)"

definition registry_erase :: "string \<Rightarrow> 'a registry \<Rightarrow> 'a registry" where
  "registry_erase name r = r\<lparr>item_map := (item_map r)(name := None), item_vector := erase_first name (item_vector r)\<rparr>"

text \<open>The vector and the map describe the same operators.\<close>

definition registry_ok :: "'a registry \<Rightarrow> bool" where
  "registry_ok r \<longleftrightarrow> distinct (map fst (item_vector r)) \<and> item_map r = map_of (item_vector r)"

lemma registry_ok_empty: "registry_ok empty_registry"
  by (simp add: registry_ok_def empty_registry_def)

lemma registry_ok_add: "registry_ok r \<Longrightarrow> registry_ok (snd (registry_add name t r))"
proof -
  assume ok: "registry_ok r"
  show ?thesis
  proof (cases "item_map r name")
    case None
    with ok have "name \<notin> fst ` set (item_vector r)" by (simp add: registry_ok_def map_of_eq_None_iff)
    then have "map_of (item_vector r @ [(name, t)]) = (map_of (item_vector r))(name \<mapsto> t)"
      by (simp add: map_of_eq_None_iff map_add_def fun_eq_iff split: option.split) (metis map_of_eq_None_iff option.distinct(1))
    then show ?thesis using ok None \<open>name \<notin> _\<close> by (simp add: registry_ok_def registry_add_def)
  qed (use ok in \<open>simp add: registry_add_def\<close>)
qed

lemma erase_first_keys: "set (map fst (erase_first name xs)) \<subseteq> set (map fst xs)"
  by (induction name xs rule: erase_first.induct) auto

lemma erase_first_ok:
  "distinct (map fst xs) \<Longrightarrow> distinct (map fst (erase_first name xs)) \<and> map_of (erase_first name xs) = (map_of xs)(name := None)"
proof (induction name xs rule: erase_first.induct)
  case (2 name n t xs)
  then have IH: "distinct (map fst (erase_first name xs))" "map_of (erase_first name xs) = (map_of xs)(name := None)"
    if "n \<noteq> name" using that by (simp_all add: fun_upd_def)
  show ?case
  proof (cases "n = name")
    case True
    with 2(2) have "map_of xs name = None" by (simp add: map_of_eq_None_iff)
    then show ?thesis using True 2(2) by (simp add: fun_eq_iff)
  next
    case False
    have "n \<notin> set (map fst (erase_first name xs))" using 2(2) erase_first_keys [of name xs] by auto
    then show ?thesis using False IH by (auto simp: fun_eq_iff)
  qed
qed simp

lemma registry_ok_erase: "registry_ok r \<Longrightarrow> registry_ok (registry_erase name r)"
  using erase_first_ok [of "item_vector r" name] by (simp add: registry_ok_def registry_erase_def)

section \<open>The key-value store\<close>

type_synonym kv_store = "string \<Rightarrow> string option"

text \<open>\<open>std::stoi\<close>; \<^term>\<open>None\<close> is one of its two exceptions.\<close>

definition stoi :: "string \<Rightarrow> int option" where
  "stoi str = (case stoll str of None \<Rightarrow> None | Some n \<Rightarrow> if n < - (2 ^ 31) \<or> 2 ^ 31 \<le> n then None else Some n)"

definition dst_set_bool :: "string \<Rightarrow> int \<Rightarrow> kv_store \<Rightarrow> kv_store" where
  "dst_set_bool key v kv = kv(key \<mapsto> int_to_string v)"

definition dst_exist :: "string \<Rightarrow> kv_store \<Rightarrow> bool" where
  "dst_exist key kv \<longleftrightarrow> kv key \<noteq> None"

definition dst_get_bool_or_not_exist :: "string \<Rightarrow> kv_store \<Rightarrow> bool option" where
  "dst_get_bool_or_not_exist key kv =
     (case kv key of None \<Rightarrow> Some False | Some str \<Rightarrow> map_option (\<lambda>n. n = 1) (stoi str))"

definition dst_set :: "string \<Rightarrow> string \<Rightarrow> kv_store \<Rightarrow> kv_store" where
  "dst_set key v kv = kv(key \<mapsto> v)"

definition dst_get :: "string \<Rightarrow> kv_store \<Rightarrow> string" where
  "dst_get key kv = (case kv key of None \<Rightarrow> [] | Some str \<Rightarrow> str)"

definition dst_clear_kv_all :: "kv_store \<Rightarrow> kv_store" where
  "dst_clear_kv_all kv = (\<lambda>_. None)"

lemma stoll_int_to_string:
  assumes "- (2 ^ 63) \<le> i" and "i < 2 ^ 63"
  shows "stoll (int_to_string i) = Some i"
proof -
  define n where "n = nat \<bar>i\<bar>"
  let ?ds = "dec_digits n"
  have props: "list_all is_digit ?ds" "dec_value ?ds = n" "?ds \<noteq> []" using dec_digits_props by auto
  obtain c cs where ds: "?ds = c # cs" using props(3) by (cases ?ds) auto
  have "is_digit c" using props(1) by (simp add: ds)
  then have c: "\<not> is_space c" "c \<noteq> CHR ''-''" "c \<noteq> CHR ''+''" "\<not> is_space CHR ''-''"
    by (auto simp: is_digit_def is_space_def)
  have "takeWhile is_digit ?ds = ?ds" using props(1) by (simp add: list_all_iff)
  then have tw: "takeWhile is_digit cs = cs" "is_digit c" "dec_value (c # cs) = n"
    using props(2) \<open>is_digit c\<close> by (simp_all add: ds)
  have i: "i = (if i < 0 then - int n else int n)" and le: "i < 0 \<Longrightarrow> int n \<le> 2 ^ 63" "\<not> i < 0 \<Longrightarrow> int n < 2 ^ 63"
    using assms by (auto simp: n_def)
  show ?thesis
  proof (cases "i < 0")
    case True
    then have "int_to_string i = CHR ''-'' # c # cs" by (simp add: int_to_string_def to_string_def n_def flip: ds)
    then have "stoll (int_to_string i) = Some (- int n)" using c tw le(1) True
      by (simp add: stoll_def Let_def takeWhile_eq_all_conv [symmetric] del: takeWhile_eq_all_conv)
    then show ?thesis using i True by simp
  next
    case False
    then have "int_to_string i = c # cs" by (simp add: int_to_string_def to_string_def n_def flip: ds)
    then have "stoll (int_to_string i) = Some (int n)" using c tw le(2) False
      by (simp add: stoll_def Let_def takeWhile_eq_all_conv [symmetric] del: takeWhile_eq_all_conv)
    then show ?thesis using i False by simp
  qed
qed

text \<open>A boolean that was stored is read back, under any other activity on other keys.\<close>

lemma kv_bool_roundtrip:
  "dst_get_bool_or_not_exist key (dst_set_bool key (of_bool b) kv) = Some b"
  "other \<noteq> key \<Longrightarrow> dst_get_bool_or_not_exist key (dst_set_bool other v kv) = dst_get_bool_or_not_exist key kv"
  "dst_exist key (dst_set_bool key v kv)" "dst_get key (dst_set key x kv) = x" "\<not> dst_exist key (dst_clear_kv_all kv)"
  by (simp_all add: dst_get_bool_or_not_exist_def dst_set_bool_def stoi_def stoll_int_to_string dst_exist_def dst_get_def
      dst_set_def dst_clear_kv_all_def)

end
