(* ===== verification/Fuzzer_Init.thy ===== *)
theory Fuzzer_Init
  imports Fuzz_State Driver_Util
begin

text \<open>
  The initialisation of the fuzzer: the command line and the output directory (\<open>Init\<close> and
  \<open>MakeDirectory\<close> of \<open>Main.cpp\<close>, \<open>fix_up_sync\<close> of \<open>Synchronize.cpp\<close>) and the shared memory
  (\<open>ShmMapping.cpp\<close>), whose numbers the fuzzer leaves in the environment for the target and the
  injectors.

  \<^item> The build has neither a password nor a license check.
  \<^item> \<open>dirs\<close> are the existing directories, without a final slash; \<open>mkdir_ok\<close> tells whether the
    operating system allows a new one.
  \<^item> \<open>shm_world\<close> holds the segments and the environment; the \<open>k\<close>-th call of \<open>shmget\<close> returns
    \<open>ids k\<close>.
  \<^item> \<^term>\<open>None\<close> is the end of the process.
\<close>

section \<open>The command line\<close>

definition with_argument :: "char list" where
  "with_argument = ''fioMSpl''"

text \<open>
  \<open>getopt(argc, argv, "+f:i:o:M:S:p:bl:")\<close>, called until the options end: the first argument holds the
  unread letters of the current word.  \<^term>\<open>None\<close> is the answer \<open>'?'\<close>.
\<close>

function getopt_all :: "string \<Rightarrow> string list \<Rightarrow> ((char \<times> string) list \<times> string list) option" where
  "getopt_all [] [] = Some ([], [])"
| "getopt_all [] (a # as) =
     (if a = ''--'' then Some ([], as)
      else if take 1 a = ''-'' \<and> 1 < length a then getopt_all (drop 1 a) as
      else Some ([], a # as))"
| "getopt_all (c # cs) as =
     (if c = CHR ''b'' then map_option (apfst ((#) (c, []))) (getopt_all cs as)
      else if c \<in> set with_argument then
        (if cs \<noteq> [] then map_option (apfst ((#) (c, cs))) (getopt_all [] as)
         else case as of [] \<Rightarrow> None | a # as' \<Rightarrow> map_option (apfst ((#) (c, a))) (getopt_all [] as'))
      else None)"
  by pat_completeness auto

termination
  by (relation "measure (\<lambda>(cs, as). length cs + sum_list (map (\<lambda>a. Suc (length a)) as))") auto

record options =
  opt_testfile :: string
  opt_inputDir :: string
  opt_outputDir :: string
  opt_sync_id :: string
  opt_sync_state :: string
  opt_sync_dir :: string
  opt_branch :: bool
  opt_skip_deterministic :: bool
  opt_target :: string

definition no_options :: options where
  "no_options = \<lparr>opt_testfile = [], opt_inputDir = [], opt_outputDir = [], opt_sync_id = [], opt_sync_state = [],
     opt_sync_dir = [], opt_branch = False, opt_skip_deterministic = True, opt_target = []\<rparr>"

definition with_slash :: "string \<Rightarrow> string option" where
  "with_slash d = (if d = [] then None else Some (if last d \<noteq> CHR ''/'' then d @ ''/'' else d))"

definition apply_option :: "char \<times> string \<Rightarrow> options \<Rightarrow> options option" where
  "apply_option = (\<lambda>(opt, optarg) c.
     if opt = CHR ''f'' then if opt_testfile c \<noteq> [] then None else Some (c\<lparr>opt_testfile := optarg\<rparr>)
     else if opt = CHR ''i'' then
       if opt_inputDir c \<noteq> [] then None else map_option (\<lambda>d. c\<lparr>opt_inputDir := d\<rparr>) (with_slash optarg)
     else if opt = CHR ''o'' then
       if opt_outputDir c \<noteq> [] then None else map_option (\<lambda>d. c\<lparr>opt_outputDir := d\<rparr>) (with_slash optarg)
     else if opt = CHR ''M'' then
       if opt_sync_id c \<noteq> [] then None else Some (c\<lparr>opt_sync_id := optarg, opt_sync_state := ''MASTER''\<rparr>)
     else if opt = CHR ''S'' then
       if opt_sync_id c \<noteq> [] then None else Some (c\<lparr>opt_sync_id := optarg, opt_sync_state := ''SLAVE''\<rparr>)
     else if opt = CHR ''b'' then Some (c\<lparr>opt_branch := True\<rparr>)
     else Some c)"

definition fix_up_sync :: "options \<Rightarrow> options option" where
  "fix_up_sync c =
     do {
       out \<leftarrow> with_slash (opt_outputDir c);
       let c = c\<lparr>opt_sync_dir := out, opt_outputDir := out @ opt_sync_id c @ ''/''\<rparr>;
       Some (if opt_sync_state c = ''SLAVE'' then c\<lparr>opt_skip_deterministic := True\<rparr> else c)
     }"

section \<open>The output directory\<close>

definition no_slash :: "string \<Rightarrow> string" where
  "no_slash d = (if d \<noteq> [] \<and> last d = CHR ''/'' then butlast d else d)"

definition parent :: "string \<Rightarrow> string" where
  "parent d = rev (drop 1 (dropWhile (\<lambda>c. c \<noteq> CHR ''/'') (rev d)))"

definition mkdir :: "(string \<Rightarrow> bool) \<Rightarrow> string \<Rightarrow> string list \<Rightarrow> string list option" where
  "mkdir mkdir_ok folder dirs =
     (let d = no_slash folder
      in if d = [] \<or> d \<in> set dirs \<or> \<not> (parent d = [] \<or> parent d \<in> set dirs) \<or> \<not> mkdir_ok d then None else Some (dirs @ [d]))"

text \<open>\<open>rm out -r\<close> for a directory without characters that the shell interprets.\<close>

definition remove_tree :: "string \<Rightarrow> string list \<Rightarrow> string list" where
  "remove_tree d dirs = filter (\<lambda>x. x \<noteq> d \<and> \<not> starts_with x (d @ ''/'')) dirs"

definition output_folders :: "string list" where
  "output_folders = [[], ''queue/'', ''hang/'', ''crash/'', ''errorList/'', ''delayList/'', ''total_crash/'', ''ex_crash/'',
     ''ex_crash/files'', ''ex_crash/errorlists'', ''ex_crash/delaylists'', ''ex_hang/'', ''ex_hang/files'',
     ''ex_hang/errorlists'', ''ex_hang/delaylists'']"

definition MakeDirectory :: "(string \<Rightarrow> bool) \<Rightarrow> options \<Rightarrow> string list \<Rightarrow> string list option" where
  "MakeDirectory mkdir_ok c dirs =
     do {
       dirs \<leftarrow> (if opt_sync_id c \<noteq> [] \<and> no_slash (opt_sync_dir c) \<notin> set dirs then mkdir mkdir_ok (opt_sync_dir c) dirs
                else Some dirs);
       let out = no_slash (opt_outputDir c);
       let dirs = (if out \<in> set dirs then remove_tree out dirs else dirs);
       dirs \<leftarrow> foldM (\<lambda>f. mkdir mkdir_ok (opt_outputDir c @ f)) output_folders dirs;
       if opt_sync_id c \<noteq> [] then mkdir mkdir_ok (opt_outputDir c @ ''.synced/'') dirs else Some dirs
     }"

definition Init :: "(string \<Rightarrow> bool) \<Rightarrow> string list \<Rightarrow> string list \<Rightarrow> (options \<times> string list) option" where
  "Init mkdir_ok argv dirs =
     (if length argv < 8 then None
      else do {
        (opts, rest) \<leftarrow> getopt_all [] (tl argv);
        c \<leftarrow> foldM apply_option opts no_options;
        c \<leftarrow> (case rest of [] \<Rightarrow> None | t # _ \<Rightarrow> Some (c\<lparr>opt_target := t\<rparr>));
        c \<leftarrow> (if opt_sync_id c \<noteq> [] then fix_up_sync c else Some c);
        dirs \<leftarrow> MakeDirectory mkdir_ok c dirs;
        Some (c, dirs)
      })"

section \<open>Shared memory\<close>

record shm_world =
  shm_table :: "u32 \<Rightarrow> u8 list option"
  shm_environ :: "string \<Rightarrow> string option"
  shm_calls :: nat

definition SingleShmSetup :: "(nat \<Rightarrow> u32) \<Rightarrow> string \<times> nat \<Rightarrow> shm_world \<Rightarrow> shm_world option" where
  "SingleShmSetup ids = (\<lambda>(env_var, mem_size) w.
     let shm_id = ids (shm_calls w)
     in if sint shm_id < 0 then None
        else Some (w\<lparr>shm_table := (shm_table w)(shm_id \<mapsto> replicate mem_size 0),
                     shm_environ := (shm_environ w)(env_var \<mapsto> to_string (unat shm_id)), shm_calls := shm_calls w + 1\<rparr>))"

definition MAX_LIST_SIZE :: nat where "MAX_LIST_SIZE = 2 ^ 13"

text \<open>A \<open>pthread_mutex_t\<close> has 40 bytes; the three matrices have elements of 16 bytes.\<close>

definition shm_areas :: "bool \<Rightarrow> (string \<times> nat) list" where
  "shm_areas NO_CONCURRENCY =
     [(''AFLCplusplus_SHM_ID'', MAP_SIZE), (''AFLCplusplus_GLOBAL_STATE_SHM_ID'', MAP_SIZE),
      (''AFLCplusplus_VARIABLE_COUNT_SHMD_ID'', 8), (''AFLCplusplus_BRANCH_TRACE_SHM_ID'', MAP_SIZE),
      (''AFLCplusplus_CONCURRENT_FUNCTION_SHMD_ID'', 8), (''AFLCplusplus_CONCURRENT_MUTEX_SHMD_ID'', 40),
      (''AFLCplusplus_TICK_NUM_SHMD_ID'', 8), (''AFLCplusplus_ERROR_LIST_SHM_ID'', MAX_LIST_SIZE),
      (''AFLCplusplus_ERROR_TRACED_SHM_ID'', MAX_LIST_SIZE)] @
     (if NO_CONCURRENCY then []
      else [(''AFLCplusplus_CONTROL_MATRIX_SHM_ID'', 2 ^ 10 * 16), (''AFLCplusplus_ADJACENCY_MATRIX_SHM_ID'', 2 ^ 16 * 16),
            (''AFLCplusplus_TRAVEL_MATRIX_SHM_ID'', 2 ^ 24 * 16)])"

definition ShmSetup :: "(nat \<Rightarrow> u32) \<Rightarrow> bool \<Rightarrow> shm_world \<Rightarrow> shm_world option" where
  "ShmSetup ids NO_CONCURRENCY w = foldM (SingleShmSetup ids) (shm_areas NO_CONCURRENCY) w"

text \<open>The coverage shared between instances: the master writes the number of the segment into a file.\<close>

definition multi_proc_shm_create ::
  "(nat \<Rightarrow> u32) \<Rightarrow> string \<Rightarrow> nat \<Rightarrow> (string \<Rightarrow> u8 list option) \<times> shm_world \<Rightarrow> ((string \<Rightarrow> u8 list option) \<times> shm_world) option" where
  "multi_proc_shm_create ids shm_file mem_size = (\<lambda>(f, w).
     let shm_id = ids (shm_calls w)
     in if sint shm_id < 0 then None
        else Some (f(shm_file \<mapsto> map of_char (to_string (unat shm_id))),
                   w\<lparr>shm_table := (shm_table w)(shm_id \<mapsto> replicate mem_size 255), shm_calls := shm_calls w + 1\<rparr>))"

text \<open>Reading the file skips white space before and stops at white space after the number.\<close>

definition multi_proc_shm_get :: "string \<Rightarrow> (string \<Rightarrow> u8 list option) \<Rightarrow> shm_world \<Rightarrow> u8 list option" where
  "multi_proc_shm_get shm_file f w =
     do {
       let str = (case f shm_file of None \<Rightarrow> [] | Some bytes \<Rightarrow> map (\<lambda>b. char_of (unat b)) bytes);
       i \<leftarrow> stoi (takeWhile (\<lambda>c. \<not> is_space c) (dropWhile is_space str));
       shm_table w (word_of_int i)
     }"

section \<open>What the initialisation leaves behind\<close>

lemma getopt_usual:
  "take 1 t \<noteq> ''-'' \<Longrightarrow> getopt_all [] ([''-i'', i, ''-o'', out, ''-f'', f] @ t # ts) =
     Some ([(CHR ''i'', i), (CHR ''o'', out), (CHR ''f'', f)], t # ts)"
  by (auto simp: with_argument_def)

lemma mkdir_keeps: "mkdir ok d dirs = Some dirs' \<Longrightarrow> dirs' = dirs @ [no_slash d]"
  by (auto simp: mkdir_def Let_def split: if_splits)

lemma mkdirs_keeps: "foldM (\<lambda>f. mkdir ok (out @ f)) fs dirs = Some dirs' \<Longrightarrow> dirs' = dirs @ map (\<lambda>f. no_slash (out @ f)) fs"
proof (induction fs arbitrary: dirs)
  case (Cons f fs)
  then obtain d where "mkdir ok (out @ f) dirs = Some d" "foldM (\<lambda>f. mkdir ok (out @ f)) fs d = Some dirs'"
    by (auto simp: bind_eq_Some_conv)
  then show ?case using Cons.IH [of d] mkdir_keeps [of ok "out @ f" dirs d] by simp
qed simp

text \<open>The output directory holds the folders of this run and nothing of an earlier one.\<close>

lemma MakeDirectory_fresh:
  assumes "MakeDirectory ok c dirs = Some dirs'" and "opt_sync_id c = []"
  shows "\<exists>old. dirs' = old @ map (\<lambda>f. no_slash (opt_outputDir c @ f)) output_folders \<and>
    (no_slash (opt_outputDir c) \<in> set dirs \<longrightarrow> (\<forall>x \<in> set old. \<not> starts_with x (no_slash (opt_outputDir c) @ ''/'')))"
proof -
  let ?out = "no_slash (opt_outputDir c)"
  let ?old = "if ?out \<in> set dirs then remove_tree ?out dirs else dirs"
  have "foldM (\<lambda>f. mkdir ok (opt_outputDir c @ f)) output_folders ?old = Some dirs'"
    using assms by (simp add: MakeDirectory_def Let_def bind_eq_Some_conv)
  from mkdirs_keeps [OF this] show ?thesis by (intro exI [of _ ?old]) (auto simp: remove_tree_def)
qed

text \<open>Every area is found through the number in the environment, and is zero.\<close>

lemma single_shm_keeps:
  assumes "SingleShmSetup ids a w = Some w'" and "0 \<le> sint (ids (shm_calls w))"
  shows "w' = w\<lparr>shm_table := (shm_table w)(ids (shm_calls w) \<mapsto> replicate (snd a) 0),
    shm_environ := (shm_environ w)(fst a \<mapsto> to_string (unat (ids (shm_calls w)))), shm_calls := shm_calls w + 1\<rparr>"
  using assms by (cases a) (simp add: SingleShmSetup_def Let_def)

lemma shm_areas_found:
  assumes "inj ids" and "\<forall>k. 0 \<le> sint (ids k)" and "distinct (map fst areas)"
  shows "\<exists>w'. foldM (SingleShmSetup ids) areas w = Some w' \<and>
    (\<forall>k < length areas. shm_environ w' (fst (areas ! k)) = Some (to_string (unat (ids (shm_calls w + k)))) \<and>
      shm_table w' (ids (shm_calls w + k)) = Some (replicate (snd (areas ! k)) 0)) \<and>
    (\<forall>name. name \<notin> fst ` set areas \<longrightarrow> shm_environ w' name = shm_environ w name) \<and>
    (\<forall>j < shm_calls w. shm_table w' (ids j) = shm_table w (ids j))"
  using assms(3)
proof (induction areas arbitrary: w)
  case (Cons a areas)
  let ?i = "ids (shm_calls w)"
  define w1 where "w1 = w\<lparr>shm_table := (shm_table w)(?i \<mapsto> replicate (snd a) 0),
    shm_environ := (shm_environ w)(fst a \<mapsto> to_string (unat ?i)), shm_calls := shm_calls w + 1\<rparr>"
  have "sint ?i \<ge> 0" using assms(2) by blast
  then have step: "SingleShmSetup ids a w = Some w1" by (cases a) (simp add: SingleShmSetup_def Let_def w1_def)
  obtain w' where w': "foldM (SingleShmSetup ids) areas w1 = Some w'"
    and found: "\<And>k. k < length areas \<Longrightarrow> shm_environ w' (fst (areas ! k)) = Some (to_string (unat (ids (shm_calls w1 + k)))) \<and>
      shm_table w' (ids (shm_calls w1 + k)) = Some (replicate (snd (areas ! k)) 0)"
    and rest: "\<And>name. name \<notin> fst ` set areas \<Longrightarrow> shm_environ w' name = shm_environ w1 name"
    and old: "\<And>j. j < shm_calls w1 \<Longrightarrow> shm_table w' (ids j) = shm_table w1 (ids j)"
    using Cons.IH [of w1] Cons.prems by auto
  have calls: "shm_calls w1 = shm_calls w + 1" by (simp add: w1_def)
  have first: "shm_environ w' (fst a) = Some (to_string (unat ?i))" "shm_table w' ?i = Some (replicate (snd a) 0)"
    using rest [of "fst a"] old [of "shm_calls w"] Cons.prems calls by (simp_all add: w1_def)
  have "ids j \<noteq> ?i" if "j < shm_calls w" for j using assms(1) that by (auto dest: injD)
  then have before: "shm_table w' (ids j) = shm_table w (ids j)" if "j < shm_calls w" for j
    using old [of j] that calls by (simp add: w1_def)
  have "\<forall>k < length (a # areas). shm_environ w' (fst ((a # areas) ! k)) = Some (to_string (unat (ids (shm_calls w + k)))) \<and>
      shm_table w' (ids (shm_calls w + k)) = Some (replicate (snd ((a # areas) ! k)) 0)"
    using first found calls by (auto simp: less_Suc_eq_0_disj)
  then show ?case using step w' rest before by (auto simp: w1_def)
qed simp

lemma distinct_areas: "distinct (map fst (shm_areas b))"
  by (simp add: shm_areas_def)

lemma ShmSetup_finds:
  assumes "inj ids" and "\<forall>k. 0 \<le> sint (ids k)" and "ShmSetup ids b w = Some w'" and "(name, n) \<in> set (shm_areas b)"
  shows "\<exists>k. shm_environ w' name = Some (to_string (unat (ids k))) \<and> shm_table w' (ids k) = Some (replicate n 0)"
proof -
  obtain k where "k < length (shm_areas b)" "shm_areas b ! k = (name, n)" using assms(4) by (auto simp: in_set_conv_nth)
  then show ?thesis
    using shm_areas_found [OF assms(1,2) distinct_areas [of b], of w] assms(3) by (fastforce simp: ShmSetup_def)
qed

lemma u8_of_char: "char_of (unat (of_char c :: u8)) = c"
proof -
  have "(of_char c :: u8) = of_nat (of_char c)" by (simp add: of_nat_of_char)
  then show ?thesis by (simp add: unat_of_nat)
qed

lemma nat_sint_unat: "0 \<le> sint (i :: u32) \<Longrightarrow> nat (sint i) = unat i"
proof -
  assume "0 \<le> sint i"
  moreover have "sint i < 2 ^ 31" using sint_range_size [of i] by (simp add: word_size)
  ultimately have "take_bit 32 (sint i) = sint i" by (simp add: take_bit_int_eq_self_iff)
  then have "uint i = sint i" using uint_sint [of i] by simp
  then show ?thesis by (simp flip: nat_uint_eq)
qed

text \<open>A slave attaches the segment that the master created.\<close>

lemma multi_proc_shm_roundtrip:
  assumes "multi_proc_shm_create ids name n (f, w) = Some (f', w')"
  shows "multi_proc_shm_get name f' w' = Some (replicate n 255)"
proof -
  let ?i = "ids (shm_calls w)" and ?str = "to_string (unat (ids (shm_calls w)))"
  have i: "0 \<le> sint ?i" "f' = f(name \<mapsto> map of_char ?str)" "shm_table w' ?i = Some (replicate n 255)"
    using assms by (auto simp: multi_proc_shm_create_def Let_def split: if_splits)
  have "is_digit c" if "c \<in> set ?str" for c using dec_digits_props [of "unat ?i"] that by (simp add: to_string_def list_all_iff)
  then have ns: "\<not> is_space c" if "c \<in> set ?str" for c using that by (fastforce simp: is_digit_def is_space_def)
  then have "takeWhile (\<lambda>c. \<not> is_space c) (dropWhile is_space ?str) = ?str"
    by (metis (mono_tags, lifting) dropWhile_eq_self_iff hd_in_set takeWhile_eq_all_conv)
  moreover have "map (\<lambda>b. char_of (unat b)) (map of_char ?str :: u8 list) = ?str"
    by (simp add: map_idI comp_def u8_of_char)
  moreover have "stoi ?str = Some (sint ?i)"
  proof -
    have eq: "int_to_string (sint ?i) = ?str" using i(1) by (simp add: int_to_string_def nat_sint_unat)
    have "- (2 ^ 31) \<le> sint ?i \<and> sint ?i < 2 ^ 31" using sint_range_size [of ?i] by (simp add: word_size)
    then show ?thesis using stoll_int_to_string [of "sint ?i"] by (simp add: stoi_def eq)
  qed
  ultimately show ?thesis using i by (simp add: multi_proc_shm_get_def)
qed

end
