(* ===== verification/Node_Manager.thy ===== *)
theory Node_Manager
  imports Dst_Random C_Strings
begin

text \<open>
  The node manager of the test driver (\<open>src/core/include/dst_node_manager.hpp\<close>) and the critical
  operators that stop, restart and add nodes (\<open>src/core/src/operator/dst_random_kill.cpp\<close>,
  \<open>dst_random_start.cpp\<close>, \<open>dst_default_operator.cpp\<close> and
  \<open>src/core/include/operator/dst_start_new_node.hpp\<close>).

  \<^item> \<open>manager\<close> holds the fields of \<open>NodeManager\<close> and, with them, the table of the child processes, the
    random file of the driver and the file system.  A pointer to a child is its number in the table;
    \<open>clock\<close> counts the observations of the operating system.
  \<^item> \<open>nm_env\<close> is what is outside: the configuration of the tested system, the search path, and the
    fate of the children: \<open>fate t h\<close> is the exit code when child \<open>h\<close> ends by itself before
    observation \<open>t\<close>; \<open>spawn_ok\<close> tells whether a child can be started, \<open>sigterm_ends\<close> whether it
    ends on \<open>SIGTERM\<close>.
  \<^item> \<^term>\<open>None\<close> is the end of the driver (an uncaught exception, a null pointer, an index outside a
    vector) or a wait that never ends.
\<close>

section \<open>State\<close>

definition DEFAULT_NODE_COUNT :: nat where "DEFAULT_NODE_COUNT = 3"
definition WAIT_PROCESS_START_MAX_COUNT :: nat where "WAIT_PROCESS_START_MAX_COUNT = 100000"

record node_info =
  node_id :: nat
  should_alive :: bool
  log_index :: nat
  start_command :: string
  process :: "nat option"

record child_process =
  alive :: bool
  exit_code :: int
  command :: string
  child_env :: "(string \<times> string) list"
  std_out :: string
  std_err :: string

record manager =
  node_count :: nat
  start_with_ebpf :: bool
  start_with_rr :: bool
  start_with_criu :: bool
  node_processes :: "node_info list"
  children :: "child_process list"
  clock :: nat
  driver_file :: rand_file
  fs :: "string \<Rightarrow> u8 list option"

record nm_env =
  get_configure_string :: "nat \<Rightarrow> nat \<Rightarrow> string"
  get_data_folder :: "nat \<Rightarrow> string"
  search_path :: "string \<Rightarrow> string"
  fate :: "nat \<Rightarrow> nat \<Rightarrow> int option"
  spawn_ok :: "nat \<Rightarrow> bool"
  sigterm_ends :: "nat \<Rightarrow> bool"

section \<open>Child processes\<close>

definition child_running :: "nm_env \<Rightarrow> nat \<Rightarrow> manager \<Rightarrow> bool \<times> manager" where
  "child_running E h s =
     (let c = children s ! h; s' = s\<lparr>clock := clock s + 1\<rparr>
      in if \<not> alive c then (False, s')
         else case fate E (clock s) h of
           None \<Rightarrow> (True, s')
         | Some code \<Rightarrow> (False, s'\<lparr>children := (children s)[h := c\<lparr>alive := False, exit_code := code\<rparr>]\<rparr>))"

text \<open>Killing a child, with \<open>terminate\<close> or by deleting the object of a running one.\<close>

definition kill_child :: "nat \<Rightarrow> manager \<Rightarrow> manager" where
  "kill_child h s = s\<lparr>children := (children s)[h := (children s ! h)\<lparr>alive := False\<rparr>]\<rparr>"

definition stop_child :: "nm_env \<Rightarrow> nat \<Rightarrow> manager \<Rightarrow> manager option" where
  "stop_child E h s = (if start_with_rr s \<and> \<not> sigterm_ends E h then None else Some (kill_child h s))"

definition node_command :: "nm_env \<Rightarrow> manager \<Rightarrow> node_info \<Rightarrow> string" where
  "node_command E s ni =
     (let i = to_string (node_id ni)
      in if start_with_ebpf s then search_path E ''dst_fuzz_fault'' @ '' '' @ start_command ni
         else if start_with_rr s then
           search_path E ''rr'' @ '' record -n -o rr_rec_'' @ i @ ''_'' @ to_string (log_index ni) @ '' '' @ start_command ni
         else if start_with_criu s then search_path E ''criu'' @ '' dump -t '' @ start_command ni
         else search_path E ''strace'' @ '' -f -o strace_log_'' @ i @ '' '' @ start_command ni)"

definition node_env :: "nm_env \<Rightarrow> node_info \<Rightarrow> (string \<times> string) list" where
  "node_env E ni =
     (let i = to_string (node_id ni)
      in [(''DATA_DIR'', get_data_folder E (node_id ni)), (''__DST_ENV_RANDOM_FILE__'', ''random_node'' @ i),
          (''NODE_NAME'', ''node'' @ i), (''NODE_ID'', i), (''DST_FUZZ'', ''1'')])"

definition new_child :: "nm_env \<Rightarrow> manager \<Rightarrow> node_info \<Rightarrow> child_process" where
  "new_child E s ni =
     (let i = to_string (node_id ni); l = to_string (log_index ni)
      in \<lparr>alive = True, exit_code = 0, command = node_command E s ni, child_env = node_env E ni,
          std_out = ''log_app_'' @ i @ ''_'' @ l, std_err = ''log_app_err'' @ i @ ''_'' @ l\<rparr>)"

fun wait_started :: "nm_env \<Rightarrow> nat \<Rightarrow> nat \<Rightarrow> manager \<Rightarrow> manager" where
  "wait_started E h 0 s = s"
| "wait_started E h (Suc n) s = (let (r, s) = child_running E h s in if r then s else wait_started E h n s)"

definition start_process :: "nm_env \<Rightarrow> nat \<Rightarrow> manager \<Rightarrow> manager option" where
  "start_process E i s =
     do {
       ni \<leftarrow> get_byte i (node_processes s);
       let s = (case process ni of None \<Rightarrow> s | Some h \<Rightarrow> kill_child h s);
       let h = length (children s);
       if \<not> spawn_ok E h then None
       else do {
         let s = s\<lparr>children := children s @ [new_child E s ni]\<rparr>;
         let s = wait_started E h WAIT_PROCESS_START_MAX_COUNT s;
         Some (s\<lparr>node_processes := (node_processes s)[i := ni\<lparr>process := Some h, log_index := to_u32 (log_index ni + 1)\<rparr>]\<rparr>)
       }
     }"

section \<open>The manager\<close>

fun check_nodes :: "nm_env \<Rightarrow> node_info list \<Rightarrow> manager \<Rightarrow> (bool \<times> manager) option" where
  "check_nodes E [] s = Some (True, s)"
| "check_nodes E (ni # nis) s =
     do {
       h \<leftarrow> process ni;
       let (r, s) = child_running E h s;
       if should_alive ni \<and> \<not> r then Some (False, s)
       else if \<not> should_alive ni \<and> r then Some (False, s)
       else check_nodes E nis s
     }"

definition check :: "nm_env \<Rightarrow> manager \<Rightarrow> (bool \<times> manager) option" where
  "check E s = check_nodes E (node_processes s) s"

definition new_node :: "nm_env \<Rightarrow> nat \<Rightarrow> bool \<Rightarrow> nat \<Rightarrow> node_info" where
  "new_node E n up i =
     \<lparr>node_id = i, should_alive = up, log_index = 0, start_command = get_configure_string E i n, process = None\<rparr>"

definition start_all :: "nm_env \<Rightarrow> manager \<Rightarrow> (bool \<times> manager) option" where
  "start_all E s =
     do {
       let s = s\<lparr>node_processes := node_processes s @ map (new_node E (node_count s) True) [0..<node_count s]\<rparr>;
       s \<leftarrow> foldM (start_process E) [0..<length (node_processes s)] s;
       check E s
     }"

definition mark_node :: "nat \<Rightarrow> bool \<Rightarrow> manager \<Rightarrow> manager" where
  "mark_node i b s = s\<lparr>node_processes := (node_processes s)[i := (node_processes s ! i)\<lparr>should_alive := b\<rparr>]\<rparr>"

definition stop_step :: "nm_env \<Rightarrow> nat \<Rightarrow> manager \<Rightarrow> manager option" where
  "stop_step E i s =
     do { h \<leftarrow> process (node_processes s ! i); s \<leftarrow> stop_child E h s; Some (mark_node i False s) }"

definition stop_all :: "nm_env \<Rightarrow> manager \<Rightarrow> manager option" where
  "stop_all E s = foldM (stop_step E) [0..<length (node_processes s)] s"

definition start_node :: "nm_env \<Rightarrow> nat \<Rightarrow> manager \<Rightarrow> (bool \<times> manager) option" where
  "start_node E i s =
     (if usub32 (node_count s) 1 < i then Some (False, s)
      else do {
        ni \<leftarrow> get_byte i (node_processes s);
        if should_alive ni then Some (True, s)
        else do { s \<leftarrow> start_process E i s; Some (True, mark_node i True s) }
      })"

definition stop_node :: "nm_env \<Rightarrow> nat \<Rightarrow> manager \<Rightarrow> (bool \<times> manager) option" where
  "stop_node E i s =
     (if usub32 (node_count s) 1 < i then Some (False, s)
      else do {
        ni \<leftarrow> get_byte i (node_processes s);
        if \<not> should_alive ni then Some (True, s)
        else do { s \<leftarrow> stop_step E i s; Some (True, s) }
      })"

section \<open>Critical operators\<close>

datatype critical = NoopOperator | RandomKill | RandomStart | StartNewNode

definition pick_node :: "node_info list \<Rightarrow> manager \<Rightarrow> nat \<times> manager" where
  "pick_node nis s =
     (let (b, r) = get_random_uint8_t (driver_file s)
      in (node_id (nis ! (unat b mod length nis)), s\<lparr>driver_file := r\<rparr>))"

definition RandomKill_do :: "nm_env \<Rightarrow> manager \<Rightarrow> (bool \<times> manager) option" where
  "RandomKill_do E s =
     (let alive_nodes = filter should_alive (node_processes s)
      in if alive_nodes = [] then Some (True, s)
         else let (i, s) = pick_node alive_nodes s in stop_node E i s)"

definition RandomStart_do :: "nm_env \<Rightarrow> manager \<Rightarrow> (bool \<times> manager) option" where
  "RandomStart_do E s =
     (let stopped_nodes = filter (\<lambda>ni. \<not> should_alive ni) (node_processes s)
      in if stopped_nodes = [] then Some (True, s)
         else let (i, s) = pick_node stopped_nodes s in start_node E i s)"

text \<open>The new node gets an empty random file in the working directory.\<close>

definition StartNewNode_do :: "nm_env \<Rightarrow> manager \<Rightarrow> (bool \<times> manager) option" where
  "StartNewNode_do E s =
     (let s = s\<lparr>node_count := to_u32 (node_count s + 1)\<rparr>;
          i = usub32 (node_count s) 1;
          s = s\<lparr>node_processes := node_processes s @ [new_node E (node_count s) False i],
                fs := (fs s)(''random_node'' @ to_string i \<mapsto> [])\<rparr>
      in start_node E i s)"

primrec critical_do :: "nm_env \<Rightarrow> critical \<Rightarrow> manager \<Rightarrow> (bool \<times> manager) option" where
  "critical_do E NoopOperator s = Some (True, s)"
| "critical_do E RandomKill s = RandomKill_do E s"
| "critical_do E RandomStart s = RandomStart_do E s"
| "critical_do E StartNewNode s = StartNewNode_do E s"

section \<open>Well-formed managers\<close>

text \<open>
  Node \<open>i\<close> has the number \<open>i\<close> and a child of its own, which runs exactly when the node should be alive.
\<close>

definition node_fits :: "manager \<Rightarrow> nat \<Rightarrow> bool" where
  "node_fits s i \<longleftrightarrow> (\<exists>h < length (children s). process (node_processes s ! i) = Some h \<and>
     alive (children s ! h) = should_alive (node_processes s ! i))"

definition own_child :: "manager \<Rightarrow> nat \<Rightarrow> bool" where
  "own_child s i \<longleftrightarrow> (\<forall>j < length (node_processes s). \<forall>h. j \<noteq> i \<longrightarrow> process (node_processes s ! i) = Some h \<longrightarrow>
     process (node_processes s ! j) \<noteq> Some h)"

definition numbered :: "manager \<Rightarrow> bool" where
  "numbered s \<longleftrightarrow> length (node_processes s) = node_count s \<and> node_count s < 2 ^ 32 \<and>
     (\<forall>i < node_count s. node_id (node_processes s ! i) = i)"

definition in_table :: "manager \<Rightarrow> bool" where
  "in_table s \<longleftrightarrow> (\<forall>i < node_count s. \<forall>h. process (node_processes s ! i) = Some h \<longrightarrow> h < length (children s))"

definition well_except :: "nat set \<Rightarrow> manager \<Rightarrow> bool" where
  "well_except A s \<longleftrightarrow> numbered s \<and> in_table s \<and> (\<forall>i < node_count s. own_child s i) \<and>
     (\<forall>i < node_count s. i \<notin> A \<longrightarrow> node_fits s i)"

abbreviation well :: "manager \<Rightarrow> bool" where
  "well \<equiv> well_except {}"

text \<open>No child ends by itself and every child can be started and stopped.\<close>

definition quiet_os :: "nm_env \<Rightarrow> bool" where
  "quiet_os E \<longleftrightarrow> (\<forall>t h. fate E t h = None) \<and> (\<forall>h. spawn_ok E h \<and> sigterm_ends E h)"

lemma running_quiet: "quiet_os E \<Longrightarrow> child_running E h s = (alive (children s ! h), s\<lparr>clock := clock s + 1\<rparr>)"
  by (simp add: child_running_def quiet_os_def Let_def)

lemma well_clock [simp]: "well_except A (s\<lparr>clock := t\<rparr>) = well_except A s"
  by (simp add: well_except_def numbered_def in_table_def own_child_def node_fits_def)

lemma well_driver_file [simp]: "well_except A (s\<lparr>driver_file := r\<rparr>) = well_except A s"
  by (simp add: well_except_def numbered_def in_table_def own_child_def node_fits_def)

lemma check_nodes_quiet:
  assumes "quiet_os E" and "\<forall>ni \<in> set nis. \<exists>h. process ni = Some h"
  shows "\<exists>t. check_nodes E nis s =
    Some (list_all (\<lambda>ni. alive (children s ! the (process ni)) = should_alive ni) nis, s\<lparr>clock := t\<rparr>)"
  using assms(2)
proof (induction nis arbitrary: s)
  case (Cons ni nis)
  then obtain h where h: "process ni = Some h" by auto
  from Cons.IH [of "s\<lparr>clock := clock s + 1\<rparr>"] Cons.prems show ?case
    by (auto simp: h running_quiet [OF assms(1)])
next
  case Nil
  show ?case by (intro exI [of _ "clock s"]) simp
qed

lemma check_quiet:
  assumes "quiet_os E" and "\<forall>i < length (node_processes s). \<exists>h. process (node_processes s ! i) = Some h"
  shows "\<exists>t. check E s = Some (\<forall>i < length (node_processes s).
      alive (children s ! the (process (node_processes s ! i))) = should_alive (node_processes s ! i), s\<lparr>clock := t\<rparr>)"
  using check_nodes_quiet [OF assms(1), of "node_processes s" s] assms(2)
  by (simp add: check_def all_set_conv_all_nth list_all_iff)

lemma check_well: "quiet_os E \<Longrightarrow> well s \<Longrightarrow> \<exists>t. check E s = Some (True, s\<lparr>clock := t\<rparr>)"
proof -
  assume "quiet_os E" "well s"
  then have fits: "\<exists>h. process (node_processes s ! i) = Some h \<and> alive (children s ! h) = should_alive (node_processes s ! i)"
    if "i < length (node_processes s)" for i using that by (auto simp: well_except_def numbered_def node_fits_def)
  then have "\<forall>i < length (node_processes s). \<exists>h. process (node_processes s ! i) = Some h" by blast
  moreover have "\<forall>i < length (node_processes s).
      alive (children s ! the (process (node_processes s ! i))) = should_alive (node_processes s ! i)"
    using fits by fastforce
  ultimately show ?thesis using check_quiet [OF \<open>quiet_os E\<close>, of s] by simp
qed

section \<open>Starting and stopping\<close>

lemma nth_list_update_eq_process:
  "process ((xs[i := (xs ! i)\<lparr>should_alive := b\<rparr>]) ! j) = process (xs ! j) \<and>
   node_id ((xs[i := (xs ! i)\<lparr>should_alive := b\<rparr>]) ! j) = node_id (xs ! j)"
  by (cases "i < length xs") (simp_all add: nth_list_update not_less list_update_beyond)

lemma well_weaken: "well_except A s \<Longrightarrow> A \<subseteq> B \<Longrightarrow> well_except B s"
  by (auto simp: well_except_def)

lemma kill_child_fields [simp]:
  "node_processes (kill_child h s) = node_processes s" "node_count (kill_child h s) = node_count s"
  "length (children (kill_child h s)) = length (children s)"
  by (simp_all add: kill_child_def)

lemma mark_node_fields [simp]:
  "node_count (mark_node i b s) = node_count s" "children (mark_node i b s) = children s"
  "length (node_processes (mark_node i b s)) = length (node_processes s)"
  "process (node_processes (mark_node i b s) ! j) = process (node_processes s ! j)"
  "node_id (node_processes (mark_node i b s) ! j) = node_id (node_processes s ! j)"
  by (simp_all add: mark_node_def nth_list_update_eq_process)

lemma own_childD:
  "own_child s i \<Longrightarrow> process (node_processes s ! i) = Some h \<Longrightarrow> j < length (node_processes s) \<Longrightarrow> j \<noteq> i \<Longrightarrow>
     process (node_processes s ! j) \<noteq> Some h"
  unfolding own_child_def by blast

lemma kill_child_fits:
  "node_fits s j \<Longrightarrow> process (node_processes s ! j) \<noteq> Some h \<Longrightarrow> node_fits (kill_child h s) j"
  unfolding node_fits_def kill_child_fields by (auto simp: kill_child_def)

lemma kill_child_own [simp]: "own_child (kill_child h s) j = own_child s j"
  by (simp add: own_child_def)

lemma kill_child_numbered [simp]: "numbered (kill_child h s) = numbered s" "in_table (kill_child h s) = in_table s"
  by (simp_all add: numbered_def in_table_def)

lemma kill_child_well:
  assumes "well_except {i} s" and "i < node_count s" and "process (node_processes s ! i) = Some h"
  shows "well_except {i} (kill_child h s)"
proof -
  have own: "own_child s i" and len: "length (node_processes s) = node_count s"
    using assms(1,2) by (simp_all add: well_except_def numbered_def)
  have "node_fits (kill_child h s) j" if "j < node_count s" "j \<noteq> i" for j
    using own_childD [OF own assms(3)] that len assms(1) by (intro kill_child_fits) (simp_all add: well_except_def)
  then show ?thesis using assms(1) by (simp add: well_except_def)
qed

lemma stop_step_well:
  assumes "quiet_os E" and "well s" and "i < node_count s"
  shows "\<exists>s'. stop_step E i s = Some s' \<and> well s' \<and> node_count s' = node_count s"
proof -
  obtain h where h: "process (node_processes s ! i) = Some h" "h < length (children s)"
    using assms(2,3) by (auto simp: well_except_def node_fits_def)
  have len: "length (node_processes s) = node_count s" using assms(2) by (simp add: well_except_def numbered_def)
  have k: "well_except {i} (kill_child h s)"
    by (rule kill_child_well [OF well_weaken [OF assms(2)] assms(3) h(1)]) simp
  have "well (mark_node i False (kill_child h s))"
    unfolding well_except_def
  proof (intro conjI allI impI)
    show "numbered (mark_node i False (kill_child h s))"
      using k by (auto simp: well_except_def numbered_def)
    show "in_table (mark_node i False (kill_child h s))"
      using k by (simp add: well_except_def in_table_def)
  next
    fix j assume "j < node_count (mark_node i False (kill_child h s))"
    then have j: "j < node_count s" by (simp add: mark_node_def kill_child_def)
    show "own_child (mark_node i False (kill_child h s)) j"
      using k j by (simp add: well_except_def own_child_def)
    show "node_fits (mark_node i False (kill_child h s)) j"
    proof (cases "j = i")
      case True
      then show ?thesis using h len assms(3) by (auto simp: node_fits_def mark_node_def kill_child_def)
    next
      case False
      then have "node_fits (kill_child h s) j" using k j by (simp add: well_except_def kill_child_def)
      then show ?thesis using False unfolding node_fits_def by (simp add: mark_node_def)
    qed
  qed
  moreover have "stop_step E i s = Some (mark_node i False (kill_child h s))"
    using assms(1) h by (simp add: stop_step_def stop_child_def quiet_os_def)
  ultimately show ?thesis by (simp add: mark_node_def kill_child_def)
qed

lemma wait_started_running:
  assumes "quiet_os E" and "alive (children s ! h)" and "0 < n"
  shows "wait_started E h n s = s\<lparr>clock := clock s + 1\<rparr>"
  using assms by (cases n) (simp_all add: running_quiet)

text \<open>Starting a node turns an exception into a node that fits.\<close>

definition started :: "nm_env \<Rightarrow> nat \<Rightarrow> manager \<Rightarrow> manager" where
  "started E i s =
     (let ni = node_processes s ! i
      in s\<lparr>children := children s @ [new_child E s ni],
           node_processes := (node_processes s)[i := ni\<lparr>process := Some (length (children s)),
             log_index := to_u32 (log_index ni + 1), should_alive := True\<rparr>]\<rparr>)"

lemma started_well:
  assumes "well_except (insert i A) s" and "i < node_count s"
  shows "well_except (A - {i}) (started E i s)"
  unfolding well_except_def
proof (intro conjI allI impI)
  have len: "length (node_processes s) = node_count s" using assms(1) by (simp add: well_except_def numbered_def)
  have range: "in_table s" using assms(1) by (simp add: well_except_def)
  show "in_table (started E i s)"
    using range len assms(2) by (auto simp: in_table_def started_def Let_def nth_list_update less_Suc_eq)
  show "numbered (started E i s)"
    using assms by (auto simp: well_except_def numbered_def started_def Let_def nth_list_update)
  fix j assume "j < node_count (started E i s)"
  then have j: "j < node_count s" by (simp add: started_def Let_def)
  show "own_child (started E i s) j"
  proof -
    have p: "process (node_processes (started E i s) ! k) =
        (if k = i then Some (length (children s)) else process (node_processes s ! k))" if "k < node_count s" for k
      using that len by (simp add: started_def Let_def nth_list_update)
    have "length (node_processes (started E i s)) = node_count s" using len by (simp add: started_def Let_def)
    moreover have "own_child s j" using assms(1) j by (auto simp: well_except_def)
    ultimately show ?thesis using range j len by (auto simp: own_child_def in_table_def p)
  qed
  assume "j \<notin> A - {i}"
  show "node_fits (started E i s) j"
  proof (cases "j = i")
    case True
    then show ?thesis using j len by (auto simp: node_fits_def started_def Let_def new_child_def)
  next
    case False
    with \<open>j \<notin> A - {i}\<close> have "node_fits s j" using assms(1) j by (auto simp: well_except_def)
    then show ?thesis using False j len by (auto simp: node_fits_def started_def Let_def nth_append)
  qed
qed

definition unlinked :: "nat \<Rightarrow> manager \<Rightarrow> manager" where
  "unlinked i s = (case process (node_processes s ! i) of None \<Rightarrow> s | Some h \<Rightarrow> kill_child h s)"

lemma unlinked_well: "well_except {i} s \<Longrightarrow> i < node_count s \<Longrightarrow> well_except {i} (unlinked i s)"
  by (simp add: unlinked_def kill_child_well split: option.split)

lemma unlinked_fields [simp]: "node_processes (unlinked i s) = node_processes s" "node_count (unlinked i s) = node_count s"
  by (simp_all add: unlinked_def split: option.split)

lemma started_fields [simp]: "node_count (started E i s) = node_count s"
  by (simp add: started_def Let_def)

lemma start_process_started:
  assumes "quiet_os E" and "i < length (node_processes s)"
  shows "\<exists>s' t. start_process E i s = Some s' \<and> mark_node i True s' = (started E i (unlinked i s))\<lparr>clock := t\<rparr> \<and>
    (should_alive (node_processes s ! i) \<longrightarrow> s' = mark_node i True s')"
proof -
  let ?s = "unlinked i s" and ?ni = "node_processes s ! i"
  let ?h = "length (children ?s)"
  let ?t = "?s\<lparr>children := children ?s @ [new_child E ?s ?ni]\<rparr>"
  have "wait_started E ?h WAIT_PROCESS_START_MAX_COUNT ?t = ?t\<lparr>clock := clock ?t + 1\<rparr>"
    by (intro wait_started_running assms(1)) (simp_all add: new_child_def Let_def WAIT_PROCESS_START_MAX_COUNT_def)
  then have run: "start_process E i s = Some (?t\<lparr>clock := clock ?t + 1,
      node_processes := (node_processes s)[i := ?ni\<lparr>process := Some ?h, log_index := to_u32 (log_index ?ni + 1)\<rparr>]\<rparr>)"
      (is "_ = Some ?r")
    using assms by (simp add: start_process_def get_byte_def quiet_os_def Let_def flip: unlinked_def)
  have mark: "mark_node i True ?r = (started E i ?s)\<lparr>clock := clock ?t + 1\<rparr>"
    using assms(2) by (intro manager.equality) (simp_all add: mark_node_def started_def Let_def)
  have "?r = mark_node i True ?r" if "should_alive ?ni"
    using assms(2) that by (cases ?ni) (simp add: mark_node_def)
  then show ?thesis using run mark by blast
qed

lemma start_process_well:
  assumes "quiet_os E" and "well_except {i} s" and "i < node_count s"
  shows "\<exists>s'. start_process E i s = Some s' \<and> well (mark_node i True s') \<and> node_count s' = node_count s"
proof -
  have len: "i < length (node_processes s)" using assms(2,3) by (simp add: well_except_def numbered_def)
  obtain s' t where s': "start_process E i s = Some s'" "mark_node i True s' = (started E i (unlinked i s))\<lparr>clock := t\<rparr>"
    using start_process_started [OF assms(1) len] by blast
  have "well (started E i (unlinked i s))"
    using started_well [of i "{}" "unlinked i s" E] unlinked_well [OF assms(2,3)] assms(3) by simp
  then have "well (mark_node i True s')" by (simp add: s'(2))
  moreover have "node_count s' = node_count s"
    using arg_cong [OF s'(2), of node_count] by simp
  ultimately show ?thesis using s'(1) by blast
qed

lemma index_ok: "i < n \<Longrightarrow> n < 2 ^ 32 \<Longrightarrow> \<not> usub32 n 1 < i"
  by (simp add: usub32_le)

lemma stop_node_well:
  assumes "quiet_os E" and "well s" and "i < node_count s"
  shows "\<exists>s'. stop_node E i s = Some (True, s') \<and> well s' \<and> node_count s' = node_count s"
proof -
  have "\<not> usub32 (node_count s) 1 < i" "i < length (node_processes s)"
    using assms(2,3) index_ok [of i "node_count s"] by (simp_all add: well_except_def numbered_def)
  then show ?thesis using stop_step_well [OF assms] assms(2) by (auto simp: stop_node_def get_byte_def)
qed

lemma start_node_well:
  assumes "quiet_os E" and "well_except {i} s" and "\<not> should_alive (node_processes s ! i)" and "i < node_count s"
  shows "\<exists>s'. start_node E i s = Some (True, s') \<and> well s' \<and> node_count s' = node_count s"
proof -
  have "\<not> usub32 (node_count s) 1 < i" "i < length (node_processes s)"
    using assms(2,4) index_ok [of i "node_count s"] by (simp_all add: well_except_def numbered_def)
  then show ?thesis using start_process_well [OF assms(1,2,4)] assms(3) by (auto simp: start_node_def get_byte_def)
qed

lemma pick_node_in:
  assumes "numbered s" and "filter P (node_processes s) \<noteq> []" and "pick_node (filter P (node_processes s)) s = (i, s')"
  shows "i < node_count s \<and> P (node_processes s ! i) \<and> (\<exists>r. s' = s\<lparr>driver_file := r\<rparr>)"
proof -
  let ?f = "filter P (node_processes s)"
  let ?ni = "?f ! (unat (fst (get_random_uint8_t (driver_file s))) mod length ?f)"
  have "?ni \<in> set ?f" using assms(2) by (intro nth_mem) (simp add: mod_less_divisor)
  then obtain j where j: "j < node_count s" "node_processes s ! j = ?ni" "P ?ni"
    using assms(1) by (auto simp: in_set_conv_nth numbered_def)
  then have "i = j" "\<exists>r. s' = s\<lparr>driver_file := r\<rparr>"
    using assms(1,3) by (auto simp: pick_node_def numbered_def split: prod.splits)
  with j show ?thesis by simp
qed

section \<open>The critical operators keep the manager well-formed\<close>

lemma RandomKill_well:
  assumes "quiet_os E" and "well s"
  shows "\<exists>s'. RandomKill_do E s = Some (True, s') \<and> well s' \<and> node_count s' = node_count s"
proof (cases "filter should_alive (node_processes s) = []")
  case False
  have num: "numbered s" using assms(2) by (simp add: well_except_def)
  obtain i s1 where p: "pick_node (filter should_alive (node_processes s)) s = (i, s1)" by fastforce
  obtain r where "i < node_count s" "s1 = s\<lparr>driver_file := r\<rparr>" using pick_node_in [OF num False p] by auto
  then show ?thesis using stop_node_well [OF assms(1), of s1 i] assms(2) False p by (simp add: RandomKill_do_def)
qed (use assms in \<open>simp add: RandomKill_do_def\<close>)

lemma RandomStart_well:
  assumes "quiet_os E" and "well s"
  shows "\<exists>s'. RandomStart_do E s = Some (True, s') \<and> well s' \<and> node_count s' = node_count s"
proof (cases "filter (\<lambda>ni. \<not> should_alive ni) (node_processes s) = []")
  case False
  have num: "numbered s" using assms(2) by (simp add: well_except_def)
  obtain i s1 where p: "pick_node (filter (\<lambda>ni. \<not> should_alive ni) (node_processes s)) s = (i, s1)" by fastforce
  obtain r where i: "i < node_count s" "s1 = s\<lparr>driver_file := r\<rparr>" "\<not> should_alive (node_processes s ! i)"
    using pick_node_in [OF num False p] by auto
  have "well_except {i} s1" using assms(2) by (simp add: i(2) well_weaken [of "{}"])
  then show ?thesis using start_node_well [OF assms(1), of i s1] i False p by (simp add: RandomStart_do_def)
qed (use assms in \<open>simp add: RandomStart_do_def\<close>)

lemma new_node_well:
  assumes "well s" and "node_count s + 1 < 2 ^ 32"
  shows "well_except {node_count s} (s\<lparr>node_count := node_count s + 1,
    node_processes := node_processes s @ [new_node E n b (node_count s)], fs := f\<rparr>)"
    (is "well_except _ ?s")
proof -
  let ?n = "node_count s"
  have len: "length (node_processes s) = ?n" and num: "\<forall>i < ?n. node_id (node_processes s ! i) = i"
    and "in_table s" and own: "\<forall>i < ?n. own_child s i" and fits: "\<forall>i < ?n. node_fits s i"
    using assms(1) by (simp_all add: well_except_def numbered_def)
  have old: "node_processes ?s ! i = node_processes s ! i" if "i < ?n" for i using that len by (simp add: nth_append)
  have new: "process (node_processes ?s ! ?n) = None" "node_id (node_processes ?s ! ?n) = ?n"
    using len by (simp_all add: nth_append new_node_def)
  have "numbered ?s" using len num assms(2) old new unfolding numbered_def by (auto simp: less_Suc_eq)
  moreover have "in_table ?s" using \<open>in_table s\<close> old new unfolding in_table_def by (auto simp: less_Suc_eq)
  moreover have "own_child ?s i" if "i < Suc ?n" for i
    unfolding own_child_def
  proof (intro allI impI)
    fix j h assume "j < length (node_processes ?s)" "j \<noteq> i" and h: "process (node_processes ?s ! i) = Some h"
    then have j: "j < ?n \<or> j = ?n" using len by auto
    from h new(1) that have i: "i < ?n" by (auto simp: less_Suc_eq)
    show "process (node_processes ?s ! j) \<noteq> Some h"
    proof (cases "j = ?n")
      case True
      then show ?thesis using new(1) by simp
    next
      case False
      with j have "j < ?n" by simp
      then show ?thesis using own_childD [of s i h j] own i h \<open>j \<noteq> i\<close> old len by simp
    qed
  qed
  moreover have "node_fits ?s i" if "i < ?n" for i using fits that old unfolding node_fits_def by simp
  ultimately show ?thesis unfolding well_except_def by (simp add: less_Suc_eq)
qed

lemma StartNewNode_well:
  assumes "quiet_os E" and "well s" and "node_count s + 1 < 2 ^ 32"
  shows "\<exists>s'. StartNewNode_do E s = Some (True, s') \<and> well s' \<and> node_count s' = node_count s + 1"
proof -
  let ?n = "node_count s"
  let ?s = "s\<lparr>node_count := ?n + 1, node_processes := node_processes s @ [new_node E (?n + 1) False ?n],
    fs := (fs s)(''random_node'' @ to_string ?n \<mapsto> [])\<rparr>"
  have eq: "StartNewNode_do E s = start_node E ?n ?s"
    using assms(3) usub32_le [of 1 "?n + 1"] by (simp add: StartNewNode_do_def Let_def)
  have "length (node_processes s) = ?n" using assms(2) by (simp add: well_except_def numbered_def)
  then have "\<not> should_alive (node_processes ?s ! ?n)" by (simp add: new_node_def nth_append)
  then show ?thesis
    unfolding eq using start_node_well [OF assms(1) new_node_well [OF assms(2,3)]] by simp
qed

lemma critical_do_well:
  assumes "quiet_os E" and "well s" and "node_count s + 1 < 2 ^ 32"
  shows "\<exists>s'. critical_do E op s = Some (True, s') \<and> well s' \<and> node_count s' \<le> node_count s + 1"
proof (cases op)
  case NoopOperator
  with assms show ?thesis by simp
next
  case RandomKill
  with RandomKill_well [OF assms(1,2)] show ?thesis by auto
next
  case RandomStart
  with RandomStart_well [OF assms(1,2)] show ?thesis by auto
next
  case StartNewNode
  with StartNewNode_well [OF assms] show ?thesis by auto
qed

definition critical_step :: "nm_env \<Rightarrow> critical \<Rightarrow> manager \<Rightarrow> manager option" where
  "critical_step E op s = map_option snd (critical_do E op s)"

lemma critical_run_well:
  assumes "quiet_os E" and "well s" and "node_count s + length ops < 2 ^ 32"
  shows "\<exists>s'. foldM (critical_step E) ops s = Some s' \<and> well s'"
  using assms(2,3)
proof (induction ops arbitrary: s)
  case (Cons op ops)
  then obtain s1 where "critical_do E op s = Some (True, s1)" "well s1" "node_count s1 \<le> node_count s + 1"
    using critical_do_well [OF assms(1), of s op] by auto
  then show ?case using Cons.IH [of s1] Cons.prems by (simp add: critical_step_def)
qed simp

section \<open>Starting all nodes\<close>

lemma start_from_well:
  assumes "quiet_os E" and "k \<le> n" and "well_except {k..<n} s" and "node_count s = n"
    and "\<forall>i < n. should_alive (node_processes s ! i)" and "\<forall>i \<in> {k..<n}. process (node_processes s ! i) = None"
  shows "\<exists>s'. foldM (start_process E) [k..<n] s = Some s' \<and> well s' \<and> node_count s' = n"
  using assms(2-6)
proof (induction "n - k" arbitrary: k s)
  case 0
  then show ?case by simp
next
  case (Suc m)
  have k: "k < n" using Suc.hyps(2) by simp
  have len: "length (node_processes s) = n" using Suc.prems(2,3) by (simp add: well_except_def numbered_def)
  have none: "process (node_processes s ! k) = None" using Suc.prems(5) k by simp
  then have un: "unlinked k s = s" by (simp add: unlinked_def)
  obtain s' t where s': "start_process E k s = Some s'" "s' = (started E k s)\<lparr>clock := t\<rparr>"
    using start_process_started [OF assms(1), of k s] Suc.prems(4) k len un by auto
  have "insert k {Suc k..<n} = {k..<n}" "{Suc k..<n} - {k} = {Suc k..<n}" using k by auto
  then have "well_except {Suc k..<n} (started E k s)"
    using started_well [of k "{Suc k..<n}" s E] Suc.prems(2,3) k by simp
  then have w: "well_except {Suc k..<n} s'" by (simp add: s'(2))
  have rest: "node_count s' = n" "\<forall>i < n. should_alive (node_processes s' ! i)"
    "\<forall>i \<in> {Suc k..<n}. process (node_processes s' ! i) = None"
    using Suc.prems(3-5) k len by (simp_all add: s'(2) started_def Let_def nth_list_update)
  have "m = n - Suc k" "Suc k \<le> n" using Suc.hyps(2) k by simp_all
  from Suc.hyps(1) [OF this w rest] show ?case using k s'(1) by (simp add: upt_conv_Cons)
qed

lemma start_all_well:
  assumes "quiet_os E" and "node_processes s = []" and "node_count s < 2 ^ 32"
  shows "\<exists>s'. start_all E s = Some (True, s') \<and> well s' \<and> node_count s' = node_count s"
proof -
  let ?n = "node_count s"
  let ?s = "s\<lparr>node_processes := map (new_node E ?n True) [0..<?n]\<rparr>"
  have "well_except {0..<?n} ?s" "\<forall>i < ?n. should_alive (node_processes ?s ! i)"
    "\<forall>i \<in> {0..<?n}. process (node_processes ?s ! i) = None"
    using assms(3) by (auto simp: well_except_def numbered_def in_table_def own_child_def new_node_def)
  then obtain s1 where s1: "foldM (start_process E) [0..<?n] ?s = Some s1" "well s1" "node_count s1 = ?n"
    using start_from_well [OF assms(1), of 0 ?n ?s] by auto
  obtain t where "check E s1 = Some (True, s1\<lparr>clock := t\<rparr>)" using check_well [OF assms(1) s1(2)] by blast
  then show ?thesis using s1 assms(2) by (simp add: start_all_def)
qed

section \<open>The availability check\<close>

text \<open>
  C96: The availability check raises no false alarm.  However many nodes the driver starts and whatever
  sequence of critical operators it runs, stopping, restarting and adding nodes that the random file
  selects, every operator succeeds, and the check holds as long as no node ends by itself.
\<close>

theorem operators_raise_no_alarm:
  assumes "quiet_os E" and "node_processes s = []" and "node_count s + length ops < 2 ^ 32"
  shows "\<exists>s1 s2 s3. start_all E s = Some (True, s1) \<and> foldM (critical_step E) ops s1 = Some s2 \<and>
    length (node_processes s2) = node_count s2 \<and> check E s2 = Some (True, s3)"
proof -
  obtain s1 where s1: "start_all E s = Some (True, s1)" "well s1" "node_count s1 = node_count s"
    using start_all_well [OF assms(1,2)] assms(3) by auto
  obtain s2 where s2: "foldM (critical_step E) ops s1 = Some s2" "well s2"
    using critical_run_well [OF assms(1) s1(2)] assms(3) s1(3) by auto
  then have "length (node_processes s2) = node_count s2" by (simp add: well_except_def numbered_def)
  then show ?thesis using s1(1) s2 check_well [OF assms(1) s2(2)] by blast
qed

definition demo_nm_env :: nm_env where
  "demo_nm_env = \<lparr>get_configure_string = (\<lambda>i n. ''server''), get_data_folder = (\<lambda>_. ''data''), search_path = (\<lambda>p. p),
     fate = (\<lambda>_ _. None), spawn_ok = (\<lambda>_. True), sigterm_ends = (\<lambda>_. True)\<rparr>"

definition demo_manager :: manager where
  "demo_manager = \<lparr>node_count = 3, start_with_ebpf = False, start_with_rr = False, start_with_criu = False,
     node_processes = [], children = [], clock = 0, driver_file = \<lparr>fuzz_file_index = 0, fuzz_file_array = [1, 0, 2]\<rparr>,
     fs = (\<lambda>_. None)\<rparr>"

lemma demo_quiet: "quiet_os demo_nm_env"
  by (simp add: quiet_os_def demo_nm_env_def)

theorem operators_raise_no_alarm_witness:
  "\<exists>s1 s2 s3. start_all demo_nm_env demo_manager = Some (True, s1) \<and>
     foldM (critical_step demo_nm_env) [RandomKill, StartNewNode, RandomStart, RandomKill] s1 = Some s2 \<and>
     check demo_nm_env s2 = Some (True, s3)"
  using operators_raise_no_alarm [OF demo_quiet, of demo_manager "[RandomKill, StartNewNode, RandomStart, RandomKill]"]
  by (auto simp: demo_manager_def)

text \<open>
  C95: The availability check is exact.  For nodes with a child process each, and when none ends while the
  check runs, it holds exactly when every node runs that should be alive and no other: a node that died
  earlier is always found, and so is one that survived its termination.
\<close>

theorem check_exact:
  assumes "quiet_os E" and "\<forall>ni \<in> set (node_processes s). process ni \<noteq> None"
  shows "\<exists>b s'. check E s = Some (b, s') \<and>
    (b \<longleftrightarrow> (\<forall>ni \<in> set (node_processes s). alive (children s ! the (process ni)) = should_alive ni))"
proof -
  have "\<forall>i < length (node_processes s). \<exists>h. process (node_processes s ! i) = Some h" using assms(2) nth_mem by blast
  from check_quiet [OF assms(1) this] show ?thesis by (auto simp: all_set_conv_all_nth)
qed

text \<open>A node that ended with exit code 1 while it should be alive.\<close>

definition crashed_manager :: manager where
  "crashed_manager = demo_manager\<lparr>node_count := 1, node_processes := [(new_node demo_nm_env 1 True 0)\<lparr>process := Some 0\<rparr>],
     children := [(new_child demo_nm_env demo_manager (new_node demo_nm_env 1 True 0))\<lparr>alive := False, exit_code := 1\<rparr>]\<rparr>"

theorem check_exact_witness: "\<exists>s'. check demo_nm_env crashed_manager = Some (False, s')"
  using check_exact [OF demo_quiet, of crashed_manager] by (auto simp: crashed_manager_def new_node_def)

end
