(* ===== verification/Shared_Flag.thy ===== *)
theory Shared_Flag
  imports C_Strings
begin

text \<open>
  The flag \<open>is_fuzzing\<close> (\<open>src/core/src/utils/share_mem_util.cpp\<close>), with which the test driver tells
  the fault injectors whether to inject.  It is one byte in a segment of shared memory; the number of the
  segment is passed to the children in the environment.

  \<^item> \<open>flag_proc\<close> holds the globals of one process and its environment; \<open>segment\<close> maps the numbers of
    the existing segments to their byte.
  \<^item> The number that \<open>shmget\<close> returns is an argument.  \<^term>\<open>None\<close> is the end of the process, by
    \<open>exit\<close> or by an access through a pointer that \<open>shmat\<close> could not map.
\<close>

section \<open>Numbers in any base\<close>

definition digit_value :: "char \<Rightarrow> nat" where
  "digit_value c =
     (let n = of_char c :: nat
      in if 48 \<le> n \<and> n \<le> 57 then n - 48 else if 97 \<le> n \<and> n \<le> 122 then n - 87
         else if 65 \<le> n \<and> n \<le> 90 then n - 55 else 36)"

text \<open>\<open>strtol(s, nullptr, 0)\<close>\<close>

definition strtol_base0 :: "string \<Rightarrow> int" where
  "strtol_base0 str =
     (let xs = dropWhile is_space str;
          neg = (take 1 xs = ''-'');
          ys = (if take 1 xs \<in> {''-'', ''+''} then drop 1 xs else xs);
          (b, ds) = (if take 2 ys \<in> {''0x'', ''0X''} then (16, drop 2 ys) else if take 1 ys = ''0'' then (8, ys) else (10, ys));
          n = int (foldl (\<lambda>n c. b * n + digit_value c) 0 (takeWhile (\<lambda>c. digit_value c < b) ds))
      in max (- (2 ^ 63)) (min (2 ^ 63 - 1) (if neg then - n else n)))"

section \<open>The flag\<close>

definition IS_FUZZING_SHM_ENV_VAR :: string where "IS_FUZZING_SHM_ENV_VAR = ''IS_FUZZING_NUM_SHMD_ID''"

datatype cell = Segment u32 | Heap

record flag_proc =
  init_done :: bool
  is_fuzzing :: "cell option"
  heap_flag :: u8
  share_mem_id :: u32
  environ :: "string \<Rightarrow> string option"

type_synonym segment = "u32 \<Rightarrow> u8 option"

definition init_is_fuzzing :: "u32 \<Rightarrow> flag_proc \<Rightarrow> segment \<Rightarrow> (flag_proc \<times> segment) option" where
  "init_is_fuzzing new_id p m =
     (if sint new_id < 0 then None
      else Some (p\<lparr>share_mem_id := new_id, environ := (environ p)(IS_FUZZING_SHM_ENV_VAR \<mapsto> to_string (unat new_id)),
                   is_fuzzing := Some (Segment new_id)\<rparr>, m(new_id \<mapsto> 1)))"

definition load_flag :: "flag_proc \<Rightarrow> segment \<Rightarrow> u8 option" where
  "load_flag p m = (case is_fuzzing p of None \<Rightarrow> None | Some Heap \<Rightarrow> Some (heap_flag p) | Some (Segment i) \<Rightarrow> m i)"

definition store_flag :: "u8 \<Rightarrow> flag_proc \<Rightarrow> segment \<Rightarrow> (flag_proc \<times> segment) option" where
  "store_flag v p m =
     (case is_fuzzing p of
        None \<Rightarrow> None
      | Some Heap \<Rightarrow> Some (p\<lparr>heap_flag := v\<rparr>, m)
      | Some (Segment i) \<Rightarrow> (case m i of None \<Rightarrow> None | Some _ \<Rightarrow> Some (p, m(i \<mapsto> v))))"

definition get_is_fuzzing :: "flag_proc \<Rightarrow> segment \<Rightarrow> (bool \<times> flag_proc) option" where
  "get_is_fuzzing p m =
     do {
       let p = (if init_done p then p
                else case environ p IS_FUZZING_SHM_ENV_VAR of
                  None \<Rightarrow> p\<lparr>is_fuzzing := Some Heap, heap_flag := 1, init_done := True\<rparr>
                | Some str \<Rightarrow> p\<lparr>is_fuzzing := Some (Segment (word_of_int (strtol_base0 str))), init_done := True\<rparr>);
       v \<leftarrow> load_flag p m;
       Some (v = 1, p)
     }"

definition set_is_fuzzing :: "bool \<Rightarrow> flag_proc \<times> segment \<Rightarrow> (flag_proc \<times> segment) option" where
  "set_is_fuzzing should_fuzzing = (\<lambda>(p, m).
     do {
       (_, p) \<leftarrow> get_is_fuzzing p m;
       store_flag (if should_fuzzing then 1 else 0) p m
     })"

text \<open>The driver is still attached, so that the byte stays readable after the segment is marked for removal.\<close>

definition remove_is_fuzzing :: "flag_proc \<Rightarrow> segment \<Rightarrow> bool" where
  "remove_is_fuzzing p m \<longleftrightarrow> share_mem_id p = 0 \<or> m (share_mem_id p) \<noteq> None"

section \<open>Every process sees the flag of the driver\<close>

lemma digit_value_dec: "d < 10 \<Longrightarrow> digit_value (char_of (48 + d)) = d"
  by (simp add: digit_value_def Let_def)

lemma dec_digits_value:
  "foldl (\<lambda>n c. 10 * n + digit_value c) 0 (dec_digits n) = n \<and> (\<forall>c \<in> set (dec_digits n). digit_value c < 10) \<and>
   (0 < n \<longrightarrow> hd (dec_digits n) \<noteq> CHR ''0'') \<and> dec_digits n \<noteq> []"
proof (induction n rule: dec_digits.induct)
  case (1 n)
  show ?case
  proof (cases "n < 10")
    case True
    have "char_of (48 + n) \<noteq> CHR ''0''" if "0 < n"
    proof
      assume "char_of (48 + n) = CHR ''0''"
      then have "digit_value (char_of (48 + n)) = 0" by (simp add: digit_value_def Let_def)
      then show False using True that by (simp add: digit_value_dec)
    qed
    then show ?thesis using True by (simp add: dec_digits.simps [of n] digit_value_dec)
  next
    case False
    then have "0 < n div 10" by simp
    then show ?thesis
      using 1 [OF False] False by (simp add: dec_digits.simps [of n] digit_value_dec)
  qed
qed

lemma strtol_base0_to_string:
  assumes "n < 2 ^ 63"
  shows "strtol_base0 (to_string n) = int n"
proof (cases "n = 0")
  case True
  have "to_string 0 = ''0''" by code_simp
  moreover have "strtol_base0 ''0'' = 0" by code_simp
  ultimately show ?thesis using True by simp
next
  case False
  obtain c cs where ds: "dec_digits n = c # cs" using dec_digits_value [of n] by (cases "dec_digits n") auto
  have c: "digit_value c < 10" "c \<noteq> CHR ''0''" and all: "\<forall>x \<in> set (c # cs). digit_value x < 10"
    and val: "foldl (\<lambda>n c. 10 * n + digit_value c) 0 (c # cs) = n"
    using dec_digits_value [of n] False by (auto simp: ds)
  have "is_digit c" using dec_digits_props [of n] by (simp add: ds)
  then have sp: "\<not> is_space c" "c \<noteq> CHR ''-''" "c \<noteq> CHR ''+''" by (auto simp: is_digit_def is_space_def)
  have tw: "takeWhile (\<lambda>x. digit_value x < 10) cs = cs" using all by (simp add: takeWhile_eq_all_conv)
  have "min (2 ^ 63 - 1) (int n) = int n" using assms by simp
  moreover have "dropWhile is_space (c # cs) = c # cs" "take 1 (c # cs) \<noteq> ''-''" "take 1 (c # cs) \<noteq> ''+''"
    "take 1 (c # cs) \<noteq> ''0''" "take 2 (c # cs) \<noteq> ''0x''" "take 2 (c # cs) \<noteq> ''0X''"
    using sp c(2) by (simp_all add: numeral_2_eq_2)
  moreover have "takeWhile (\<lambda>x. digit_value x < 10) (c # cs) = c # cs" using c(1) tw by simp
  ultimately show ?thesis using val by (simp only: strtol_base0_def to_string_def ds Let_def insert_iff empty_iff simp_thms if_False prod.case)
qed

text \<open>A process is connected when its next access goes to the segment.\<close>

definition connected :: "u32 \<Rightarrow> flag_proc \<Rightarrow> bool" where
  "connected i p \<longleftrightarrow> 0 \<le> sint i \<and>
     (if init_done p then is_fuzzing p = Some (Segment i) else environ p IS_FUZZING_SHM_ENV_VAR = Some (to_string (unat i)))"

lemma get_is_fuzzing_connected:
  assumes "connected i p" and "m i = Some v"
  shows "\<exists>p'. get_is_fuzzing p m = Some (v = 1, p') \<and> connected i p' \<and> is_fuzzing p' = Some (Segment i) \<and> init_done p' \<and>
    environ p' = environ p"
proof -
  have "unat i < 2 ^ 32" using unsigned_less [of i] by simp
  then have "word_of_int (strtol_base0 (to_string (unat i))) = i"
    using strtol_base0_to_string [of "unat i"] by simp
  with assms show ?thesis
    by (cases "init_done p") (simp_all add: get_is_fuzzing_def connected_def load_flag_def Let_def)
qed

lemma set_is_fuzzing_connected:
  assumes "connected i p" and "m i = Some v"
  shows "\<exists>p'. set_is_fuzzing b (p, m) = Some (p', m(i \<mapsto> of_bool b)) \<and> connected i p' \<and> environ p' = environ p"
proof -
  obtain p' where "get_is_fuzzing p m = Some (v = 1, p')" "connected i p'" "is_fuzzing p' = Some (Segment i)" "environ p' = environ p"
    using get_is_fuzzing_connected [where m = m, OF assms] by blast
  then show ?thesis using assms(2) by (simp add: set_is_fuzzing_def store_flag_def)
qed

lemma init_is_fuzzing_connected:
  assumes "0 \<le> sint i" and "\<not> init_done p"
  shows "\<exists>p'. init_is_fuzzing i p m = Some (p', m(i \<mapsto> 1)) \<and> connected i p' \<and> \<not> init_done p' \<and>
    environ p' IS_FUZZING_SHM_ENV_VAR = Some (to_string (unat i))"
  using assms by (simp add: init_is_fuzzing_def connected_def)

lemma set_run_connected:
  assumes "connected i p" and "m i = Some (of_bool v)"
  shows "\<exists>p' m'. foldM set_is_fuzzing bs (p, m) = Some (p', m') \<and> connected i p' \<and> m' i = Some (of_bool (last (v # bs)))"
  using assms
proof (induction bs arbitrary: p m v)
  case (Cons b bs)
  obtain p' where "set_is_fuzzing b (p, m) = Some (p', m(i \<mapsto> of_bool b))" "connected i p'"
    using set_is_fuzzing_connected [where m = m and b = b, OF Cons.prems] by blast
  moreover obtain p2 m2 where "foldM set_is_fuzzing bs (p', m(i \<mapsto> of_bool b)) = Some (p2, m2)" "connected i p2"
    "m2 i = Some (of_bool (last (b # bs)))"
    using Cons.IH [of p' "m(i \<mapsto> of_bool b)" b] \<open>connected i p'\<close> by (metis fun_upd_same)
  ultimately show ?case by (intro exI [of _ p2] exI [of _ m2]) (simp only: foldM.simps bind.bind_lunit last_ConsR not_Cons_self2 simp_thms, simp)
qed simp

text \<open>
  C94: The driver switches all injectors at once.  After \<open>init_is_fuzzing\<close> injection is on; after any
  number of calls of \<open>set_is_fuzzing\<close> in the driver, a process that inherited the driver's environment
  reads the last value that was set, whether it looks at the flag for the first time or has attached the
  segment before.
\<close>

theorem flag_reaches_children:
  assumes "0 \<le> sint i" and "\<not> init_done p" and "init_is_fuzzing i p m = Some (p1, m1)"
    and "\<not> init_done q" and "environ q = environ p1"
  shows "\<exists>q1 p2 m2 q2. get_is_fuzzing q m1 = Some (True, q1) \<and> foldM set_is_fuzzing bs (p1, m1) = Some (p2, m2) \<and>
    get_is_fuzzing q m2 = Some (last (True # bs), q2) \<and> (\<exists>q3. get_is_fuzzing q1 m2 = Some (last (True # bs), q3))"
proof -
  have p1: "connected i p1" "m1 i = Some (of_bool True)" "environ p1 IS_FUZZING_SHM_ENV_VAR = Some (to_string (unat i))"
    using init_is_fuzzing_connected [OF assms(1,2), of m] assms(3) by auto
  then have q: "connected i q" using assms(1,4,5) by (simp add: connected_def)
  obtain q1 where q1: "get_is_fuzzing q m1 = Some (True, q1)" "connected i q1"
    using get_is_fuzzing_connected [where m = m1, OF q p1(2)] by auto
  obtain p2 m2 where run: "foldM set_is_fuzzing bs (p1, m1) = Some (p2, m2)" "m2 i = Some (of_bool (last (True # bs)))"
    using set_run_connected [where m = m1 and bs = bs, OF p1(1,2)] by blast
  show ?thesis
    using q1 run get_is_fuzzing_connected [where m = m2, OF q run(2)] get_is_fuzzing_connected [where m = m2, OF q1(2) run(2)] by fastforce
qed

definition demo_proc :: flag_proc where
  "demo_proc = \<lparr>init_done = False, is_fuzzing = None, heap_flag = 0, share_mem_id = 0, environ = (\<lambda>_. None)\<rparr>"

theorem flag_reaches_children_witness:
  "\<exists>p1 m1 p2 m2 q2. init_is_fuzzing 7 demo_proc (\<lambda>_. None) = Some (p1, m1) \<and>
     foldM set_is_fuzzing [False, True, False] (p1, m1) = Some (p2, m2) \<and> get_is_fuzzing p1 m2 = Some (False, q2)"
proof -
  obtain p1 m1 where p1: "init_is_fuzzing 7 demo_proc (\<lambda>_. None) = Some (p1, m1)" "\<not> init_done p1"
    by (simp add: init_is_fuzzing_def demo_proc_def)
  then show ?thesis
    using flag_reaches_children [of 7 demo_proc "\<lambda>_. None" p1 m1 p1 "[False, True, False]"] by (auto simp: demo_proc_def)
qed

end
