(* ===== verification/Test_Main.thy ===== *)
theory Test_Main
  imports Node_Manager Shared_Flag Driver_Util
begin

text \<open>
  The test driver (\<open>src/core/src/dst_test_main.cpp\<close>): it splits the input of the fuzzer into the
  random files of the driver and of the nodes, starts the nodes, runs normal and critical operators,
  checks that the nodes are alive and, on demand, that the system answers again once the injection has
  stopped, and aborts when a check failed, which the fuzzer counts as a crash.

  The model is the configuration \<open>NO_CONCURRENCY\<close>, with which four of the tested systems are built:
  a normal operator runs in a thread that is joined at once.

  \<^item> \<open>driver\<close> holds the node manager, the registered normal operators, the flag \<open>is_fuzzing\<close>, the
    scripts that were run, the milliseconds that were slept, and in \<open>ran\<close> each normal operator with the
    value of the flag at the time it was started.  \<open>test_case_count\<close> is the number in the file of that name.
  \<^item> \<open>driver_env\<close> holds what a tested system registers (its critical operators, the behaviour of its normal
    operators) and the number of the shared segment.
  \<^item> \<^term>\<open>None\<close> is the death of the driver: an exit, a division by zero, a null pointer, an index outside
    a vector.
\<close>

section \<open>Options\<close>

definition option_names :: "string list" where
  "option_names = [''help'', ''fuzz_before_init'', ''node_count'', ''normal_sleep_ms'', ''normal_count'', ''critic_sleep_ms'',
     ''critic_count'', ''no_fuzz_normal_events'', ''no_fuzz_time'', ''no_reduction'', ''check_after_fuzz'', ''random_file'',
     ''start_with_strace'', ''start_with_ebpf'', ''start_with_rr'', ''use_checkpoint'', ''sleep_ms'', ''sleep_granularity'']"

text \<open>The regular expression; the dot does not match a carriage return.\<close>

definition parse_option :: "string \<Rightarrow> (string \<times> string) option" where
  "parse_option str =
     (let name = takeWhile (\<lambda>c. c \<noteq> CHR ''='') (drop 2 str);
          rest = drop (2 + length name) str
      in if take 2 str = ''--'' \<and> name \<in> set option_names \<and> CHR 0x0D \<notin> set (drop 1 rest) then Some (name, drop 1 rest)
         else None)"

type_synonym options = "string \<Rightarrow> string option"

definition parse_options :: "string list \<Rightarrow> options" where
  "parse_options argv =
     foldl (\<lambda>m str. case parse_option str of Some (name, v) \<Rightarrow> m(name \<mapsto> v) | None \<Rightarrow> m(''help'' \<mapsto> [])) (\<lambda>_. None) argv"

record config =
  cfg_node_count :: int
  check_after_fuzz :: bool
  random_file_name :: string
  normal_count :: int
  critic_count :: int
  sleep_ms :: nat
  sleep_granularity :: nat
  fuzz_before_init :: bool
  cfg_ebpf :: bool
  cfg_rr :: bool
  use_checkpoint :: bool
  fuzz_normal_events :: bool
  fuzz_time :: bool
  no_reduction :: bool

text \<open>The number of nodes as an unsigned number of 32 bits.\<close>

definition nodes_of :: "config \<Rightarrow> nat" where
  "nodes_of c = unat (word_of_int (cfg_node_count c) :: u32)"

definition int_option :: "options \<Rightarrow> string \<Rightarrow> int \<Rightarrow> int" where
  "int_option opts name d = (case opts name of None \<Rightarrow> d | Some v \<Rightarrow> sint (atoi v))"

definition nat_option :: "options \<Rightarrow> string \<Rightarrow> nat \<Rightarrow> nat" where
  "nat_option opts name d = (case opts name of None \<Rightarrow> d | Some v \<Rightarrow> unat (atoi v))"

definition read_config :: "int \<Rightarrow> int \<Rightarrow> options \<Rightarrow> config" where
  "read_config RUN_NORMAL_OPERATOR_COUNT RUN_CRITICAL_OPERATOR_COUNT opts =
     \<lparr>cfg_node_count = int_option opts ''node_count'' (int DEFAULT_NODE_COUNT),
      check_after_fuzz = (opts ''check_after_fuzz'' = Some ''true''),
      random_file_name = (case opts ''random_file'' of None \<Rightarrow> ''init_random.txt'' | Some v \<Rightarrow> v),
      normal_count = int_option opts ''normal_count'' RUN_NORMAL_OPERATOR_COUNT,
      critic_count = int_option opts ''critic_count'' RUN_CRITICAL_OPERATOR_COUNT,
      sleep_ms = nat_option opts ''sleep_ms'' (nat_option opts ''critic_sleep_ms'' (nat_option opts ''normal_sleep_ms'' 200)),
      sleep_granularity = nat_option opts ''sleep_granularity'' 10,
      fuzz_before_init = (opts ''fuzz_before_init'' \<noteq> Some ''false''),
      cfg_ebpf = (opts ''start_with_ebpf'' \<noteq> None),
      cfg_rr = (opts ''start_with_rr'' \<noteq> None),
      use_checkpoint = (opts ''use_checkpoint'' \<noteq> None),
      fuzz_normal_events = (opts ''no_fuzz_normal_events'' = None),
      fuzz_time = (opts ''no_fuzz_time'' = None),
      no_reduction = (opts ''no_reduction'' \<noteq> None)\<rparr>"

section \<open>Splitting the input\<close>

definition write_files :: "nat \<Rightarrow> string list" where
  "write_files n = ''random.txt'' # map (\<lambda>i. ''random_node'' @ to_string i) [0..<n]"

definition split_slice :: "u8 list \<Rightarrow> nat \<Rightarrow> nat \<Rightarrow> u8 list" where
  "split_slice content n f_index =
     (let average_length = length content div (n + 1) in take average_length (drop (average_length * f_index) content))"

definition split_files :: "string \<Rightarrow> nat \<Rightarrow> manager \<Rightarrow> manager option" where
  "split_files initial_file n s =
     do {
       content \<leftarrow> fs s initial_file;
       let files = fold (\<lambda>(f_index, name) f. f(name \<mapsto> split_slice content n f_index)) (zip [0..<n + 1] (write_files n)) (fs s);
       r \<leftarrow> dst_reinit_random files (Some ''random.txt'') (driver_file s);
       Some (s\<lparr>fs := files, driver_file := r\<rparr>)
     }"

section \<open>The driver\<close>

record driver =
  mgr :: manager
  has_manager :: bool
  normal_operators :: "nat registry"
  flag :: flag_proc
  segments :: segment
  kv :: kv_store
  ran :: "(string \<times> u8 option) list"
  scripts :: "string list"
  slept :: nat
  test_case_count :: nat

record driver_env =
  manager_env :: nm_env
  normal_do :: "nat \<Rightarrow> nat \<Rightarrow> driver \<Rightarrow> (bool \<times> driver) option"
  critical_operators :: "critical list"
  shm_id :: u32
  normal_default :: int
  critic_default :: int

definition INIT_OPERATOR_NAME :: string where "INIT_OPERATOR_NAME = ''Init''"

definition draw_byte :: "driver \<Rightarrow> nat \<times> driver" where
  "draw_byte d =
     (let (b, r) = get_random_uint8_t (driver_file (mgr d)) in (unat b, d\<lparr>mgr := (mgr d)\<lparr>driver_file := r\<rparr>\<rparr>))"

definition sleep_for :: "nat \<Rightarrow> driver \<Rightarrow> driver" where
  "sleep_for ms d = d\<lparr>slept := slept d + ms\<rparr>"

definition run_script :: "string \<Rightarrow> driver \<Rightarrow> driver" where
  "run_script cmd d = d\<lparr>scripts := scripts d @ [cmd]\<rparr>"

definition set_flag :: "bool \<Rightarrow> driver \<Rightarrow> driver option" where
  "set_flag b d = do { (p, m) \<leftarrow> set_is_fuzzing b (flag d, segments d); Some (d\<lparr>flag := p, segments := m\<rparr>) }"

definition sleep_between :: "config \<Rightarrow> driver \<Rightarrow> driver option" where
  "sleep_between c d =
     (if fuzz_time c then
        let (b, d) = draw_byte d
        in if sleep_granularity c = 0 \<or> sleep_ms c div sleep_granularity c = 0 then None
           else Some (sleep_for (to_u32 (sleep_granularity c * (b mod (sleep_ms c div sleep_granularity c)))) d)
      else Some (sleep_for (sleep_ms c) d))"

definition run_normal :: "driver_env \<Rightarrow> config \<Rightarrow> nat \<Rightarrow> driver \<Rightarrow> (bool \<times> driver) option" where
  "run_normal E c index d =
     do {
       (name, op) \<leftarrow> get_byte index (item_vector (normal_operators d));
       normal_do E op (nodes_of c) (d\<lparr>ran := ran d @ [(name, segments d (shm_id E))]\<rparr>)
     }"

text \<open>
  The number that is drawn for the operator is stored in a second variable \<open>index\<close> that hides the first
  one, so that the first operator always runs.
\<close>

definition normal_iteration :: "driver_env \<Rightarrow> config \<Rightarrow> nat \<Rightarrow> driver \<Rightarrow> driver option" where
  "normal_iteration E c i d =
     do {
       d \<leftarrow> sleep_between c d;
       let d = (if fuzz_normal_events c then snd (draw_byte d) else d);
       (_, d) \<leftarrow> run_normal E c 0 d;
       Some d
     }"

definition run_some_normal_operators :: "driver_env \<Rightarrow> config \<Rightarrow> driver \<Rightarrow> driver option" where
  "run_some_normal_operators E c d =
     do {
       d \<leftarrow> (if item_vector (normal_operators d) = [] then Some d
              else foldM (normal_iteration E c) [0..<nat (normal_count c)] d);
       Some (if fuzz_time c then let (b, d) = draw_byte d in sleep_for b d else d)
     }"

fun find_index :: "string \<Rightarrow> (string \<times> 'a) list \<Rightarrow> nat \<Rightarrow> nat option" where
  "find_index name [] i = None"
| "find_index name ((n, t) # xs) i = (if n = name then Some i else find_index name xs (i + 1))"

definition run_init_operator :: "driver_env \<Rightarrow> config \<Rightarrow> driver \<Rightarrow> driver option" where
  "run_init_operator E c d =
     (case find_index INIT_OPERATOR_NAME (item_vector (normal_operators d)) 0 of
        None \<Rightarrow> Some d
      | Some i \<Rightarrow>
          do {
            (_, d) \<leftarrow> run_normal E c i d;
            Some (d\<lparr>normal_operators := registry_erase INIT_OPERATOR_NAME (normal_operators d)\<rparr>)
          })"

definition critical_iteration :: "driver_env \<Rightarrow> config \<Rightarrow> nat \<Rightarrow> driver \<Rightarrow> driver option" where
  "critical_iteration E c i d =
     do {
       d \<leftarrow> sleep_between c d;
       let (b, d) = draw_byte d;
       op \<leftarrow> get_byte (b mod length (critical_operators E)) (critical_operators E);
       (_, m) \<leftarrow> critical_do (manager_env E) op (mgr d);
       run_some_normal_operators E c (d\<lparr>mgr := m\<rparr>)
     }"

definition run_critical_operators :: "driver_env \<Rightarrow> config \<Rightarrow> driver \<Rightarrow> driver option" where
  "run_critical_operators E c d =
     (if critical_operators E = [] then Some d else foldM (critical_iteration E c) [0..<nat (critic_count c)] d)"

text \<open>One iteration of the recovery check; the first component tells that all operators failed so far.\<close>

definition recovery_iteration :: "driver_env \<Rightarrow> config \<Rightarrow> nat \<Rightarrow> nat \<Rightarrow> bool \<times> driver \<Rightarrow> (bool \<times> driver) option" where
  "recovery_iteration E c count i = (\<lambda>(all_failed, d).
     do {
       let (b, d) = draw_byte d;
       (ok, d) \<leftarrow> run_normal E c (b mod count) d;
       Some (all_failed \<and> \<not> ok, d)
     })"

definition recovery_check :: "driver_env \<Rightarrow> config \<Rightarrow> nat \<Rightarrow> driver \<Rightarrow> (bool \<times> driver) option" where
  "recovery_check E c normal_operator_size d =
     (if check_after_fuzz c then do {
        d \<leftarrow> set_flag False d;
        let d = sleep_for 1000 d;
        if normal_operator_size = 0 then Some (True, d)
        else foldM (recovery_iteration E c normal_operator_size) [0..<nat (normal_count c)] (True, d)
      }
      else Some (False, d))"

text \<open>Everything between the start of the nodes and the label \<open>STOP\<close>; the result is \<open>check_failed\<close>.\<close>

definition fuzz_nodes :: "driver_env \<Rightarrow> config \<Rightarrow> driver \<Rightarrow> (bool \<times> driver) option" where
  "fuzz_nodes E c d =
     do {
       let d = (if fuzz_time c then let (b, d) = draw_byte d in sleep_for b d else d);
       d \<leftarrow> run_init_operator E c d;
       d \<leftarrow> set_flag True d;
       let normal_operator_size = length (item_vector (normal_operators d));
       d \<leftarrow> run_some_normal_operators E c d;
       d \<leftarrow> run_critical_operators E c d;
       (up, m) \<leftarrow> check (manager_env E) (mgr d);
       let d = d\<lparr>mgr := m\<rparr>;
       if \<not> up then Some (True, d)
       else do {
         (failed, d) \<leftarrow> recovery_check E c normal_operator_size d;
         d \<leftarrow> set_flag False d;
         Some (failed, run_script ''sh check_before_stop.sh'' d)
       }
     }"

definition start_nodes :: "driver_env \<Rightarrow> config \<Rightarrow> driver \<Rightarrow> (bool \<times> driver) option" where
  "start_nodes E c d =
     do {
       let m = (mgr d)\<lparr>node_count := nodes_of c\<rparr>;
       let m = (if cfg_ebpf c then m\<lparr>start_with_ebpf := True\<rparr> else m);
       let m = (if cfg_rr c then m\<lparr>start_with_rr := True\<rparr> else m);
       let m = (if use_checkpoint c then m\<lparr>start_with_criu := True\<rparr> else m);
       (ok, m) \<leftarrow> start_all (manager_env E) m;
       Some (ok, d\<lparr>mgr := m\<rparr>)
     }"

definition prepare :: "driver_env \<Rightarrow> config \<Rightarrow> driver \<Rightarrow> driver option" where
  "prepare E c d =
     do {
       let d = (if no_reduction c then d\<lparr>flag := (flag d)\<lparr>environ := (environ (flag d))(''NO_REDUCTION'' \<mapsto> ''1'')\<rparr>\<rparr> else d);
       let d = run_script (''sh env_init.sh '' @ int_to_string (cfg_node_count c)) d;
       m \<leftarrow> split_files (random_file_name c) (nodes_of c) (mgr d);
       (p, seg) \<leftarrow> init_is_fuzzing (shm_id E) (flag d) (segments d);
       let d = d\<lparr>mgr := m, flag := p, segments := seg\<rparr>;
       if fuzz_before_init c then Some d else set_flag False d
     }"

datatype verdict = Usage | Passed | Aborted

text \<open>The code after the label \<open>STOP\<close>; without a node manager its first call dereferences a null pointer.\<close>

definition finish :: "driver_env \<Rightarrow> bool \<Rightarrow> driver \<Rightarrow> (verdict \<times> driver) option" where
  "finish E check_failed d =
     do {
       m \<leftarrow> stop_all (manager_env E) (mgr d);
       let d = run_script ''sh stop.sh'' (d\<lparr>mgr := m\<rparr>);
       let d = d\<lparr>kv := dst_clear_kv_all (kv d)\<rparr>;
       let d = run_script (''sh ./backup_test_case.sh '' @ to_string (test_case_count d)) d;
       let d = d\<lparr>test_case_count := to_u32 (test_case_count d + 1)\<rparr>;
       Some (if check_failed then Aborted else Passed, d)
     }"

definition test_main :: "driver_env \<Rightarrow> string list \<Rightarrow> driver \<Rightarrow> (verdict \<times> driver) option" where
  "test_main E argv d =
     do {
       let opts = parse_options argv;
       if opts ''help'' \<noteq> None then Some (Usage, d)
       else do {
         let c = read_config (normal_default E) (critic_default E) opts;
         d \<leftarrow> prepare E c d;
         if \<not> has_manager d then None
         else do {
           (ok, d) \<leftarrow> start_nodes E c d;
           (check_failed, d) \<leftarrow> (if ok then fuzz_nodes E c d else Some (True, d));
           finish E check_failed d
         }
       }
     }"

section \<open>The input is cut into slices\<close>

lemma to_string_inj: "to_string a = to_string b \<Longrightarrow> a = b"
  unfolding to_string_def by (metis dec_digits_props)

lemma distinct_write_files: "distinct (write_files n)"
  by (auto simp: write_files_def distinct_map inj_on_def dest: to_string_inj)

lemma fold_write:
  assumes "distinct (map snd xs)" and "(i, name) \<in> set xs"
  shows "fold (\<lambda>(i, name) f. f(name \<mapsto> g i)) xs f name = Some (g i)"
  using assms
proof (induction xs arbitrary: f)
  case (Cons x xs)
  have keep: "fold (\<lambda>(i, name) f. f(name \<mapsto> g i)) ys h m = h m" if "m \<notin> set (map snd ys)" for ys h m
    using that by (induction ys arbitrary: h) auto
  show ?case
  proof (cases "x = (i, name)")
    case True
    then show ?thesis using Cons.prems(1) keep [of name xs] by (simp del: fun_upd_apply add: fun_upd_same)
  next
    case False
    then show ?thesis using Cons by (cases x) auto
  qed
qed simp

lemma split_files_eq:
  assumes "fs s initial_file = Some content"
  shows "\<exists>s'. split_files initial_file n s = Some s' \<and> fuzz_file_array (driver_file s') = split_slice content n 0 \<and>
    fuzz_file_index (driver_file s') = fuzz_file_index (driver_file s) \<and>
    (\<forall>i < n. fs s' (''random_node'' @ to_string i) = Some (split_slice content n (i + 1))) \<and>
    (\<exists>f r. s' = s\<lparr>fs := f, driver_file := r\<rparr>)"
proof -
  let ?xs = "zip [0..<n + 1] (write_files n)"
  let ?f = "fold (\<lambda>(i, name) f. f(name \<mapsto> split_slice content n i)) ?xs (fs s)"
  have len: "length (write_files n) = n + 1" by (simp add: write_files_def)
  have dist: "distinct (map snd ?xs)" using distinct_write_files [of n] len by (simp add: map_snd_zip)
  have "?xs ! j \<in> set ?xs" if "j < n + 1" for j using that len by (intro nth_mem) simp
  then have mem: "(j, write_files n ! j) \<in> set ?xs" if "j < n + 1" for j using that len by (metis add.left_neutral nth_upt nth_zip length_upt minus_nat.diff_0)
  have at: "?f (write_files n ! j) = Some (split_slice content n j)" if "j < n + 1" for j
    using fold_write [OF dist mem [OF that]] by simp
  have first: "?f ''random.txt'' = Some (split_slice content n 0)" using at [of 0] by (simp add: write_files_def)
  have node: "?f (''random_node'' @ to_string i) = Some (split_slice content n (i + 1))" if "i < n" for i
    using at [of "i + 1"] that by (simp add: write_files_def)
  have "dst_reinit_random ?f (Some ''random.txt'') (driver_file s) = Some ((driver_file s)\<lparr>fuzz_file_array := split_slice content n 0\<rparr>)"
    using first by (simp add: dst_reinit_random_def file_to_string_def)
  then have "split_files initial_file n s = Some (s\<lparr>fs := ?f, driver_file := (driver_file s)\<lparr>fuzz_file_array := split_slice content n 0\<rparr>\<rparr>)"
    using assms by (simp add: split_files_def Let_def)
  then show ?thesis using node by auto
qed

lemma concat_slices: "concat (map (\<lambda>i. take k (drop (k * i) xs)) [0..<m]) = take (k * m) xs"
proof (induction m)
  case (Suc m)
  have "take (k * Suc m) xs = take (k * m) xs @ take k (drop (k * m) xs)"
    using take_add [of "k * m" k xs] by (simp add: algebra_simps)
  then show ?case using Suc by simp
qed simp

text \<open>
  C93: The input of the fuzzer is distributed without overlap.  The driver and its nodes get
  consecutive slices of equal length, which together are the input up to a remainder shorter than the
  number of files: the driver draws from the first slice, and the injector of node \<open>i\<close>, started with the environment
  that the node manager sets, opens the slice \<open>i + 1\<close>.
\<close>

theorem input_is_split:
  assumes "fs s initial_file = Some content"
  shows "\<exists>s'. split_files initial_file n s = Some s' \<and>
    fuzz_file_array (driver_file s') = split_slice content n 0 \<and>
    (\<forall>ni r. node_id ni < n \<longrightarrow> init_random_file (fs s') (map_of (child_env (new_child E s' ni))) r =
      Some (r\<lparr>fuzz_file_array := split_slice content n (node_id ni + 1)\<rparr>)) \<and>
    concat (map (split_slice content n) [0..<n + 1]) = take (length content - length content mod (n + 1)) content"
proof -
  obtain s' where s': "split_files initial_file n s = Some s'" "fuzz_file_array (driver_file s') = split_slice content n 0"
    "\<forall>i < n. fs s' (''random_node'' @ to_string i) = Some (split_slice content n (i + 1))"
    using split_files_eq [OF assms, of n] by blast
  have "init_random_file (fs s') (map_of (child_env (new_child E s' ni))) r =
      Some (r\<lparr>fuzz_file_array := split_slice content n (node_id ni + 1)\<rparr>)" if "node_id ni < n" for ni r
    using s'(3) that by (simp add: init_random_file_def new_child_def node_env_def Let_def file_to_string_def)
  moreover have "concat (map (split_slice content n) [0..<n + 1]) = take (length content - length content mod (n + 1)) content"
    unfolding split_slice_def Let_def minus_mod_eq_div_mult
    by (rule concat_slices [of "length content div (n + 1)" content "n + 1"])
  ultimately show ?thesis using s'(1,2) by blast
qed

theorem input_is_split_witness:
  "\<exists>s'. split_files ''in'' 1 (demo_manager\<lparr>fs := [''in'' \<mapsto> [1, 2, 3, 4, 5]]\<rparr>) = Some s' \<and>
     fuzz_file_array (driver_file s') = [1, 2] \<and>
     init_random_file (fs s') (map_of (child_env (new_child demo_nm_env s' (new_node demo_nm_env 1 True 0)))) no_file =
       Some (no_file\<lparr>fuzz_file_array := [3, 4]\<rparr>)"
proof -
  let ?c = "[1, 2, 3, 4, 5] :: u8 list"
  have "fs (demo_manager\<lparr>fs := [''in'' \<mapsto> ?c]\<rparr>) ''in'' = Some ?c" by simp
  from input_is_split [OF this, of 1 demo_nm_env] obtain s' where
    s': "split_files ''in'' 1 (demo_manager\<lparr>fs := [''in'' \<mapsto> ?c]\<rparr>) = Some s'"
      "fuzz_file_array (driver_file s') = split_slice ?c 1 0"
      "\<And>ni r. node_id ni < 1 \<Longrightarrow> init_random_file (fs s') (map_of (child_env (new_child demo_nm_env s' ni))) r =
        Some (r\<lparr>fuzz_file_array := split_slice ?c 1 (node_id ni + 1)\<rparr>)" by blast
  moreover have "split_slice ?c 1 0 = [1, 2]" "split_slice ?c 1 1 = [3, 4]" by code_simp+
  ultimately show ?thesis using s'(3) [of "new_node demo_nm_env 1 True 0" no_file] by (simp add: new_node_def)
qed

section \<open>A run of the driver\<close>

text \<open>
  What a normal operator may do: draw from the random file of the driver and return.  Once the injection
  is switched off it succeeds.
\<close>

definition keeps :: "driver \<Rightarrow> driver \<Rightarrow> bool" where
  "keeps d d' \<longleftrightarrow> (\<exists>r. mgr d' = (mgr d)\<lparr>driver_file := r\<rparr>) \<and> normal_operators d' = normal_operators d \<and>
     flag d' = flag d \<and> segments d' = segments d \<and> test_case_count d' = test_case_count d"

definition recovers :: "driver_env \<Rightarrow> bool" where
  "recovers E \<longleftrightarrow> (\<forall>op n d. \<exists>b d'. normal_do E op n d = Some (b, d') \<and> keeps d d' \<and> (segments d (shm_id E) = Some 0 \<longrightarrow> b))"

definition timing_ok :: "config \<Rightarrow> bool" where
  "timing_ok c \<longleftrightarrow> (fuzz_time c \<longrightarrow> 0 < sleep_granularity c \<and> sleep_granularity c \<le> sleep_ms c)"

text \<open>The driver is in order, and a step keeps it so and leaves the flag and the operators alone.\<close>

definition in_order :: "driver_env \<Rightarrow> driver \<Rightarrow> bool" where
  "in_order E d \<longleftrightarrow> well (mgr d) \<and> connected (shm_id E) (flag d) \<and> (\<exists>v. segments d (shm_id E) = Some v)"

definition calm_step :: "driver_env \<Rightarrow> driver \<Rightarrow> driver \<Rightarrow> bool" where
  "calm_step E d d' \<longleftrightarrow> in_order E d' \<and> segments d' = segments d \<and> normal_operators d' = normal_operators d \<and>
     node_count (mgr d') = node_count (mgr d) \<and> test_case_count d' = test_case_count d"

lemma calm_refl: "in_order E d \<Longrightarrow> calm_step E d d"
  by (simp add: calm_step_def)

lemma calm_trans: "calm_step E a b \<Longrightarrow> calm_step E b c \<Longrightarrow> calm_step E a c"
  by (simp add: calm_step_def)

lemma calm_in_order: "calm_step E a b \<Longrightarrow> in_order E b"
  by (simp add: calm_step_def)

lemma calm_draw: "in_order E d \<Longrightarrow> calm_step E d (snd (draw_byte d))"
  by (simp add: calm_step_def in_order_def draw_byte_def split: prod.split)

lemma calm_sleep: "in_order E d \<Longrightarrow> calm_step E d (sleep_for ms d)"
  by (simp add: calm_step_def in_order_def sleep_for_def)

lemma calm_pause:
  "in_order E d \<Longrightarrow> calm_step E d (if fuzz_time c then let (b, d) = draw_byte d in sleep_for b d else d)"
  using calm_trans [OF calm_draw calm_sleep] calm_in_order [OF calm_draw] calm_refl
  by (simp add: Let_def case_prod_beta)

lemma calm_keeps: "in_order E d \<Longrightarrow> keeps d d' \<Longrightarrow> calm_step E d d'"
  by (auto simp: calm_step_def in_order_def keeps_def)

lemma sleep_between_calm:
  assumes "timing_ok c" and "in_order E d"
  shows "\<exists>d'. sleep_between c d = Some d' \<and> calm_step E d d'"
proof -
  have "fuzz_time c \<Longrightarrow> sleep_granularity c \<noteq> 0 \<and> sleep_ms c div sleep_granularity c \<noteq> 0"
    using assms(1) by (auto simp: timing_ok_def div_eq_0_iff)
  then show ?thesis
    using calm_sleep [OF assms(2)] calm_trans [OF calm_draw [OF assms(2)] calm_sleep [OF calm_in_order [OF calm_draw [OF assms(2)]]]]
    by (auto simp: sleep_between_def case_prod_beta Let_def)
qed

lemma run_normal_calm:
  assumes "recovers E" and "in_order E d" and "i < length (item_vector (normal_operators d))"
  shows "\<exists>b d'. run_normal E c i d = Some (b, d') \<and> calm_step E d d' \<and> (segments d (shm_id E) = Some 0 \<longrightarrow> b)"
proof -
  obtain name op where v: "item_vector (normal_operators d) ! i = (name, op)" by fastforce
  let ?d = "d\<lparr>ran := ran d @ [(name, segments d (shm_id E))]\<rparr>"
  have "calm_step E d ?d" using assms(2) by (simp add: calm_step_def in_order_def)
  moreover obtain b d' where "normal_do E op (nodes_of c) ?d = Some (b, d')" "keeps ?d d'" "segments ?d (shm_id E) = Some 0 \<longrightarrow> b"
    using assms(1) unfolding recovers_def by blast
  ultimately show ?thesis
    using assms(3) calm_trans [OF \<open>calm_step E d ?d\<close> calm_keeps [OF calm_in_order]] v by (auto simp: run_normal_def get_byte_def)
qed

lemma run_some_calm:
  assumes "recovers E" and "timing_ok c" and "in_order E d"
  shows "\<exists>d'. run_some_normal_operators E c d = Some d' \<and> calm_step E d d'"
proof -
  let ?vec = "item_vector (normal_operators d)"
  have iter: "\<exists>d2. normal_iteration E c i d1 = Some d2 \<and> calm_step E d d2" if d1: "calm_step E d d1" and ne: "?vec \<noteq> []" for i d1
  proof -
    obtain d2 where d2: "sleep_between c d1 = Some d2" "calm_step E d d2"
      using sleep_between_calm [OF assms(2) calm_in_order [OF d1]] calm_trans [OF d1] by blast
    let ?d3 = "if fuzz_normal_events c then snd (draw_byte d2) else d2"
    have d3: "calm_step E d ?d3" using d2(2) calm_trans [OF d2(2) calm_draw [OF calm_in_order [OF d2(2)]]] by simp
    then have "0 < length (item_vector (normal_operators ?d3))" using ne by (simp add: calm_step_def)
    then obtain b d4 where "run_normal E c 0 ?d3 = Some (b, d4)" "calm_step E ?d3 d4"
      using run_normal_calm [OF assms(1) calm_in_order [OF d3]] by blast
    then show ?thesis using d2(1) calm_trans [OF d3] by (auto simp: normal_iteration_def Let_def)
  qed
  obtain d1 where "(if ?vec = [] then Some d else foldM (normal_iteration E c) [0..<nat (normal_count c)] d) = Some d1"
    "calm_step E d d1"
    using foldM_total [of "calm_step E d" d "[0..<nat (normal_count c)]" "normal_iteration E c"] iter calm_refl [OF assms(3)]
    by (cases "?vec = []") auto
  then show ?thesis
    using calm_trans [OF \<open>calm_step E d d1\<close> calm_pause [OF calm_in_order, of E d d1 c]]
    by (auto simp: run_some_normal_operators_def)
qed

lemma run_critical_calm:
  assumes "quiet_os (manager_env E)" and "recovers E" and "timing_ok c" and "in_order E d"
    and "node_count (mgr d) + nat (critic_count c) < 2 ^ 32"
  shows "\<exists>d'. run_critical_operators E c d = Some d' \<and> in_order E d' \<and> segments d' = segments d \<and>
    normal_operators d' = normal_operators d \<and> test_case_count d' = test_case_count d"
proof (cases "critical_operators E = []")
  case True
  then show ?thesis using assms(4) by (simp add: run_critical_operators_def)
next
  case False
  define P where "P k d' \<longleftrightarrow> in_order E d' \<and> segments d' = segments d \<and> normal_operators d' = normal_operators d \<and>
    test_case_count d' = test_case_count d \<and> node_count (mgr d') \<le> node_count (mgr d) + k" for k d'
  have iter: "\<exists>d2. critical_iteration E c i d1 = Some d2 \<and> P (Suc k) d2" if d1: "P k d1" and k: "k < nat (critic_count c)" for i k d1
  proof -
    have o1: "in_order E d1" using d1 by (simp add: P_def)
    obtain d2 where d2: "sleep_between c d1 = Some d2" "calm_step E d1 d2" using sleep_between_calm [OF assms(3) o1] by blast
    obtain b d3 where b: "draw_byte d2 = (b, d3)" by fastforce
    have d3: "calm_step E d1 d3" using calm_trans [OF d2(2) calm_draw [OF calm_in_order [OF d2(2)]]] b by simp
    let ?op = "critical_operators E ! (b mod length (critical_operators E))"
    have "node_count (mgr d3) + 1 < 2 ^ 32" using d1 d3 k assms(5) by (simp add: P_def calm_step_def)
    then obtain m where m: "critical_do (manager_env E) ?op (mgr d3) = Some (True, m)" "well m" "node_count m \<le> node_count (mgr d3) + 1"
      using critical_do_well [OF assms(1), of "mgr d3" ?op] d3 by (auto simp: calm_step_def in_order_def)
    let ?d4 = "d3\<lparr>mgr := m\<rparr>"
    have "in_order E ?d4" using calm_in_order [OF d3] m(2) by (simp add: in_order_def)
    then obtain d5 where d5: "run_some_normal_operators E c ?d4 = Some d5" "calm_step E ?d4 d5"
      using run_some_calm [OF assms(2,3)] by blast
    have "critical_iteration E c i d1 = Some d5"
      using d2(1) b m(1) d5(1) False by (simp add: critical_iteration_def get_byte_def)
    moreover have "P (Suc k) d5" using d1 d3 d5(2) m(3) by (auto simp: P_def calm_step_def)
    ultimately show ?thesis by blast
  qed
  have "\<exists>d'. foldM (critical_iteration E c) [0..<k] d = Some d' \<and> P k d'" if "k \<le> nat (critic_count c)" for k
    using that
  proof (induction k)
    case 0
    then show ?case using assms(4) by (simp add: P_def)
  next
    case (Suc k)
    then obtain d1 where "foldM (critical_iteration E c) [0..<k] d = Some d1" "P k d1" by auto
    then show ?case using iter [of k d1 k] Suc.prems by (auto simp: foldM_append)
  qed
  from this [of "nat (critic_count c)"] show ?thesis using False by (auto simp: run_critical_operators_def P_def)
qed

lemma set_flag_in_order:
  assumes "in_order E d"
  shows "\<exists>d'. set_flag b d = Some d' \<and> in_order E d' \<and> segments d' (shm_id E) = Some (of_bool b) \<and>
    normal_operators d' = normal_operators d \<and> node_count (mgr d') = node_count (mgr d) \<and> test_case_count d' = test_case_count d"
proof -
  obtain v where "connected (shm_id E) (flag d)" "segments d (shm_id E) = Some v" using assms by (auto simp: in_order_def)
  then obtain p where "set_is_fuzzing b (flag d, segments d) = Some (p, (segments d)(shm_id E \<mapsto> of_bool b))" "connected (shm_id E) p"
    using set_is_fuzzing_connected [where m = "segments d"] by blast
  then show ?thesis using assms by (auto simp: set_flag_def in_order_def)
qed

lemma recovery_calm:
  assumes "recovers E" and "in_order E d"
    and "check_after_fuzz c \<longrightarrow> 0 < normal_count c \<and> item_vector (normal_operators d) \<noteq> []"
  shows "\<exists>d'. recovery_check E c (length (item_vector (normal_operators d))) d = Some (False, d') \<and> in_order E d' \<and>
    test_case_count d' = test_case_count d"
proof (cases "check_after_fuzz c")
  case False
  then show ?thesis using assms(2) by (simp add: recovery_check_def)
next
  case True
  let ?n = "length (item_vector (normal_operators d))"
  obtain d1 where d1: "set_flag False d = Some d1" "in_order E d1" "segments d1 (shm_id E) = Some 0"
    "normal_operators d1 = normal_operators d" "test_case_count d1 = test_case_count d"
    using set_flag_in_order [OF assms(2), of False] by auto
  let ?d1 = "sleep_for 1000 d1"
  have c1: "calm_step E d1 ?d1" using calm_sleep [OF d1(2)] .
  have iter: "\<exists>d3. recovery_iteration E c ?n i (a, d2) = Some (False, d3) \<and> calm_step E d1 d3"
    if d2: "calm_step E d1 d2" for i a d2
  proof -
    obtain b d3 where b: "draw_byte d2 = (b, d3)" by fastforce
    have d3: "calm_step E d1 d3" using calm_trans [OF d2 calm_draw [OF calm_in_order [OF d2]]] b by simp
    have "b mod ?n < length (item_vector (normal_operators d3))" using assms(3) True d1(4) d3 by (simp add: calm_step_def)
    then obtain d4 where "run_normal E c (b mod ?n) d3 = Some (True, d4)" "calm_step E d3 d4"
      using run_normal_calm [OF assms(1) calm_in_order [OF d3], of "b mod ?n" c] d1(3) d3 by (auto simp: calm_step_def)
    then show ?thesis using b calm_trans [OF d3] by (simp add: recovery_iteration_def)
  qed
  obtain k where k: "nat (normal_count c) = Suc k" using assms(3) True by (cases "nat (normal_count c)") auto
  have "\<exists>d'. foldM (recovery_iteration E c ?n) [0..<Suc j] (True, ?d1) = Some (False, d') \<and> calm_step E d1 d'" for j
  proof (induction j)
    case 0
    then show ?case using iter [OF c1, of 0 True] by auto
  next
    case (Suc j)
    then obtain d2 where "foldM (recovery_iteration E c ?n) [0..<Suc j] (True, ?d1) = Some (False, d2)" "calm_step E d1 d2" by blast
    moreover have "[0..<Suc (Suc j)] = [0..<Suc j] @ [Suc j]" by simp
    ultimately show ?case using iter [of d2 "Suc j" False] by (auto simp: foldM_append simp del: upt_Suc)
  qed
  from this [of k] show ?thesis
    using True d1 assms(3) k by (auto simp: recovery_check_def calm_step_def)
qed

lemma erase_Init:
  assumes "recovers E" and "in_order E d"
  shows "\<exists>d'. run_init_operator E c d = Some d' \<and> in_order E d' \<and> node_count (mgr d') = node_count (mgr d) \<and>
    item_vector (normal_operators d') = erase_first INIT_OPERATOR_NAME (item_vector (normal_operators d)) \<and>
    test_case_count d' = test_case_count d"
proof -
  have none: "erase_first name xs = xs" if "find_index name xs k = None" for name xs k
    using that by (induction name xs k rule: find_index.induct) (auto split: if_splits)
  have less: "i < k + length xs \<and> k \<le> i" if "find_index name xs k = Some i" for name xs k i
    using that by (induction name xs k rule: find_index.induct) (force split: if_splits)+
  show ?thesis
  proof (cases "find_index INIT_OPERATOR_NAME (item_vector (normal_operators d)) 0")
    case None
    then show ?thesis using assms(2) none [OF None] by (simp add: run_init_operator_def)
  next
    case (Some i)
    then obtain b d1 where d1: "run_normal E c i d = Some (b, d1)" "calm_step E d d1"
      using run_normal_calm [OF assms, of i c] less [OF Some] by auto
    moreover have "in_order E (d1\<lparr>normal_operators := r\<rparr>) \<longleftrightarrow> in_order E d1" for r by (simp add: in_order_def)
    ultimately show ?thesis
      using Some by (auto simp: run_init_operator_def registry_erase_def calm_step_def)
  qed
qed

lemma fuzz_nodes_passes:
  assumes "quiet_os (manager_env E)" and "recovers E" and "timing_ok c" and "in_order E d"
    and "node_count (mgr d) + nat (critic_count c) < 2 ^ 32"
    and "check_after_fuzz c \<longrightarrow> 0 < normal_count c \<and> erase_first INIT_OPERATOR_NAME (item_vector (normal_operators d)) \<noteq> []"
  shows "\<exists>d'. fuzz_nodes E c d = Some (False, d') \<and> in_order E d' \<and> segments d' (shm_id E) = Some 0 \<and>
    test_case_count d' = test_case_count d"
proof -
  let ?d = "if fuzz_time c then let (b, d) = draw_byte d in sleep_for b d else d"
  have d0: "calm_step E d ?d" by (rule calm_pause [OF assms(4)])
  obtain d1 where d1: "run_init_operator E c ?d = Some d1" "in_order E d1" "node_count (mgr d1) = node_count (mgr d)"
    "item_vector (normal_operators d1) = erase_first INIT_OPERATOR_NAME (item_vector (normal_operators d))"
    "test_case_count d1 = test_case_count d"
    using erase_Init [OF assms(2) calm_in_order [OF d0], of c] d0 unfolding calm_step_def by metis
  obtain d2 where d2: "set_flag True d1 = Some d2" "in_order E d2" "normal_operators d2 = normal_operators d1"
    "node_count (mgr d2) = node_count (mgr d1)" "test_case_count d2 = test_case_count d1"
    using set_flag_in_order [OF d1(2), of True] by blast
  obtain d3 where d3: "run_some_normal_operators E c d2 = Some d3" "calm_step E d2 d3"
    using run_some_calm [OF assms(2,3) d2(2)] by blast
  obtain d4 where d4: "run_critical_operators E c d3 = Some d4" "in_order E d4" "normal_operators d4 = normal_operators d3"
    "test_case_count d4 = test_case_count d3"
    using run_critical_calm [OF assms(1-3) calm_in_order [OF d3(2)]] assms(5) d1(3) d2(4) d3(2) by (auto simp: calm_step_def)
  obtain t where t: "check (manager_env E) (mgr d4) = Some (True, (mgr d4)\<lparr>clock := t\<rparr>)"
    using check_well [OF assms(1)] d4(2) by (auto simp: in_order_def)
  let ?d5 = "d4\<lparr>mgr := (mgr d4)\<lparr>clock := t\<rparr>\<rparr>"
  have vec: "item_vector (normal_operators ?d5) = item_vector (normal_operators d2)"
    "item_vector (normal_operators d2) = erase_first INIT_OPERATOR_NAME (item_vector (normal_operators d))"
    using d1(4) d2(3) d3(2) d4(3) by (simp_all add: calm_step_def)
  have "in_order E ?d5" using d4(2) by (simp add: in_order_def)
  then obtain d6 where d6: "recovery_check E c (length (item_vector (normal_operators d2))) ?d5 = Some (False, d6)" "in_order E d6"
    "test_case_count d6 = test_case_count d4"
    using recovery_calm [OF assms(2), of ?d5 c] assms(6) vec by auto
  obtain d7 where d7: "set_flag False d6 = Some d7" "in_order E d7" "segments d7 (shm_id E) = Some 0" "test_case_count d7 = test_case_count d6"
    using set_flag_in_order [OF d6(2), of False] by auto
  have "fuzz_nodes E c d = Some (False, run_script ''sh check_before_stop.sh'' d7)"
    using d1(1) d2(1) d3(1) d4(1) t d6(1) d7(1) by (simp add: fuzz_nodes_def Let_def)
  then show ?thesis using d7 d6(3) d4(4) d3(2) d2(5) d1(5) by (auto simp: run_script_def in_order_def calm_step_def)
qed

lemma stop_all_well:
  assumes "quiet_os E" and "well s"
  shows "\<exists>s'. stop_all E s = Some s'"
proof -
  have len: "length (node_processes s) = node_count s" using assms(2) by (simp add: well_except_def numbered_def)
  have "\<exists>t. foldM (stop_step E) [0..<length (node_processes s)] s = Some t \<and> (well t \<and> node_count t = node_count s)"
    using stop_step_well [OF assms(1)] len assms(2) by (intro foldM_total) fastforce+
  then show ?thesis by (auto simp: stop_all_def)
qed

definition before_start :: "driver_env \<Rightarrow> driver \<Rightarrow> bool" where
  "before_start E d \<longleftrightarrow> node_processes (mgr d) = [] \<and> connected (shm_id E) (flag d) \<and> (\<exists>v. segments d (shm_id E) = Some v)"

lemma set_flag_before_start:
  assumes "before_start E d"
  shows "\<exists>d'. set_flag b d = Some d' \<and> before_start E d' \<and> has_manager d' = has_manager d \<and>
    normal_operators d' = normal_operators d \<and> test_case_count d' = test_case_count d"
proof -
  obtain v where "connected (shm_id E) (flag d)" "segments d (shm_id E) = Some v" using assms by (auto simp: before_start_def)
  then obtain p where "set_is_fuzzing b (flag d, segments d) = Some (p, (segments d)(shm_id E \<mapsto> of_bool b))" "connected (shm_id E) p"
    using set_is_fuzzing_connected [where m = "segments d"] by blast
  then show ?thesis using assms by (auto simp: set_flag_def before_start_def)
qed

lemma prepare_ok:
  assumes "node_processes (mgr d) = []" and "fs (mgr d) (random_file_name c) = Some content" and "0 \<le> sint (shm_id E)"
    and "\<not> init_done (flag d)"
  shows "\<exists>d'. prepare E c d = Some d' \<and> before_start E d' \<and> has_manager d' = has_manager d \<and>
    normal_operators d' = normal_operators d \<and> test_case_count d' = test_case_count d"
proof -
  let ?d = "if no_reduction c then d\<lparr>flag := (flag d)\<lparr>environ := (environ (flag d))(''NO_REDUCTION'' \<mapsto> ''1'')\<rparr>\<rparr> else d"
  let ?d' = "run_script (''sh env_init.sh '' @ int_to_string (cfg_node_count c)) ?d"
  have same: "mgr ?d' = mgr d" "\<not> init_done (flag ?d')" "has_manager ?d' = has_manager d" "normal_operators ?d' = normal_operators d"
    "test_case_count ?d' = test_case_count d" using assms(4) by (simp_all add: run_script_def)
  obtain m where m: "split_files (random_file_name c) (nodes_of c) (mgr ?d') = Some m" "node_processes m = []"
    using split_files_eq [OF assms(2), of "nodes_of c"] assms(1) same(1) by auto
  obtain p where p: "init_is_fuzzing (shm_id E) (flag ?d') (segments ?d') = Some (p, (segments ?d')(shm_id E \<mapsto> 1))" "connected (shm_id E) p"
    using init_is_fuzzing_connected [OF assms(3) same(2)] by blast
  let ?d2 = "?d'\<lparr>mgr := m, flag := p, segments := (segments ?d')(shm_id E \<mapsto> 1)\<rparr>"
  have "before_start E ?d2" using m(2) p(2) by (simp add: before_start_def)
  moreover have "prepare E c d = (if fuzz_before_init c then Some ?d2 else set_flag False ?d2)"
    using m(1) p(1) by (simp add: prepare_def Let_def)
  ultimately show ?thesis using set_flag_before_start [of E ?d2 False] same by (cases "fuzz_before_init c") auto
qed

lemma start_nodes_ok:
  assumes "quiet_os (manager_env E)" and "before_start E d"
  shows "\<exists>d'. start_nodes E c d = Some (True, d') \<and> in_order E d' \<and> node_count (mgr d') = nodes_of c \<and>
    normal_operators d' = normal_operators d \<and> test_case_count d' = test_case_count d"
proof -
  define m where "m = (let m = (mgr d)\<lparr>node_count := nodes_of c\<rparr>;
    m = (if cfg_ebpf c then m\<lparr>start_with_ebpf := True\<rparr> else m); m = (if cfg_rr c then m\<lparr>start_with_rr := True\<rparr> else m)
    in if use_checkpoint c then m\<lparr>start_with_criu := True\<rparr> else m)"
  have "node_processes m = []" "node_count m = nodes_of c" using assms(2) by (simp_all add: m_def before_start_def Let_def)
  moreover have "nodes_of c < 2 ^ 32" using unsigned_less [of "word_of_int (cfg_node_count c) :: u32"] by (simp add: nodes_of_def)
  ultimately obtain m' where "start_all (manager_env E) m = Some (True, m')" "well m'" "node_count m' = nodes_of c"
    using start_all_well [OF assms(1), of m] by auto
  then show ?thesis using assms(2) by (simp add: start_nodes_def Let_def m_def before_start_def in_order_def)
qed

text \<open>
  C92: The driver reports only what went wrong.  When no node ends by itself and the operators of the tested
  system answer again once the injection is switched off, a run of the driver ends without an
  abort, whatever its options, the injected faults and the random file are: the nodes that it stopped, restarted
  and added on purpose do not count.  At the end the injection is off and the test case is counted.
\<close>

theorem recovering_system_passes:
  assumes "quiet_os (manager_env E)" and "recovers E" and "0 \<le> sint (shm_id E)"
    and "c = read_config (normal_default E) (critic_default E) (parse_options argv)" and "parse_options argv ''help'' = None"
    and "timing_ok c" and "nodes_of c + nat (critic_count c) < 2 ^ 32"
    and "check_after_fuzz c \<longrightarrow> 0 < normal_count c \<and> erase_first INIT_OPERATOR_NAME (item_vector (normal_operators d)) \<noteq> []"
    and "has_manager d" and "node_processes (mgr d) = []" and "\<not> init_done (flag d)"
    and "fs (mgr d) (random_file_name c) = Some content"
  shows "\<exists>d'. test_main E argv d = Some (Passed, d') \<and> segments d' (shm_id E) = Some 0 \<and>
    test_case_count d' = to_u32 (test_case_count d + 1)"
proof -
  obtain d1 where d1: "prepare E c d = Some d1" "before_start E d1" "has_manager d1" "normal_operators d1 = normal_operators d"
    "test_case_count d1 = test_case_count d" using prepare_ok [OF assms(10,12,3,11)] assms(9) by auto
  obtain d2 where d2: "start_nodes E c d1 = Some (True, d2)" "in_order E d2" "node_count (mgr d2) = nodes_of c"
    "normal_operators d2 = normal_operators d1" "test_case_count d2 = test_case_count d1"
    using start_nodes_ok [OF assms(1) d1(2)] by blast
  obtain d3 where d3: "fuzz_nodes E c d2 = Some (False, d3)" "in_order E d3" "segments d3 (shm_id E) = Some 0"
    "test_case_count d3 = test_case_count d2"
    using fuzz_nodes_passes [OF assms(1,2,6) d2(2)] assms(7,8) d1(4) d2(3,4) by auto
  obtain m where m: "stop_all (manager_env E) (mgr d3) = Some m"
    using stop_all_well [OF assms(1)] d3(2) by (auto simp: in_order_def)
  then obtain d4 where "finish E False d3 = Some (Passed, d4)" "segments d4 = segments d3"
    "test_case_count d4 = to_u32 (test_case_count d3 + 1)" by (simp add: finish_def run_script_def Let_def)
  then show ?thesis
    using d1 d2 d3 assms(4,5) by (simp add: test_main_def)
qed

text \<open>An operator that draws a number and succeeds.\<close>

definition demo_normal :: "nat \<Rightarrow> nat \<Rightarrow> driver \<Rightarrow> (bool \<times> driver) option" where
  "demo_normal op n d = Some (True, snd (draw_byte d))"

definition demo_driver_env :: driver_env where
  "demo_driver_env = \<lparr>manager_env = demo_nm_env, normal_do = demo_normal, critical_operators = [NoopOperator, RandomKill, RandomStart],
     shm_id = 7, normal_default = 2, critic_default = 2\<rparr>"

definition demo_driver :: driver where
  "demo_driver = \<lparr>mgr = demo_manager\<lparr>fs := [''init_random.txt'' \<mapsto> replicate 40 1]\<rparr>, has_manager = True,
     normal_operators = snd (registry_add ''Read'' 0 (snd (registry_add ''Init'' 1 empty_registry))), flag = demo_proc,
     segments = (\<lambda>_. None), kv = (\<lambda>_. None), ran = [], scripts = [], slept = 0, test_case_count = 4\<rparr>"

lemma demo_recovers: "recovers demo_driver_env"
  by (auto simp: recovers_def demo_driver_env_def demo_normal_def keeps_def draw_byte_def split: prod.split)

definition demo_argv :: "string list" where
  "demo_argv = [''--check_after_fuzz=true'', ''--node_count=2'']"

lemma demo_options:
  "parse_options demo_argv ''help'' = None" "timing_ok (read_config 2 2 (parse_options demo_argv))"
  "nodes_of (read_config 2 2 (parse_options demo_argv)) = 2" "nat (critic_count (read_config 2 2 (parse_options demo_argv))) = 2"
  "normal_count (read_config 2 2 (parse_options demo_argv)) = 2"
  "random_file_name (read_config 2 2 (parse_options demo_argv)) = ''init_random.txt''"
  by code_simp+

theorem recovering_system_passes_witness:
  "\<exists>d'. test_main demo_driver_env demo_argv demo_driver = Some (Passed, d') \<and> test_case_count d' = 5"
proof -
  have "item_vector (normal_operators demo_driver) = [(''Init'', 1), (''Read'', 0)]"
    by (simp add: demo_driver_def registry_add_def empty_registry_def)
  then have "erase_first INIT_OPERATOR_NAME (item_vector (normal_operators demo_driver)) \<noteq> []"
    by (simp add: INIT_OPERATOR_NAME_def)
  then show ?thesis
    using recovering_system_passes [of demo_driver_env "read_config 2 2 (parse_options demo_argv)" demo_argv demo_driver "replicate 40 1"]
      demo_quiet demo_recovers demo_options by (auto simp: demo_driver_env_def demo_driver_def demo_manager_def demo_proc_def)
qed

end
