(* ===== verification/Coverage_Collector.thy ===== *)
theory Coverage_Collector
  imports Coverage_Map
begin

text \<open>
  The coverage collector (\<open>src/fuzz/coverage_collector/coverage_collector.c\<close>), which replaces the
  shared coverage map when the injectors run on several machines: it receives the cells of the
  events through Kafka, counts them and prints the number of cells that were hit whenever it grows.

  The answers of \<open>rd_kafka_consumer_poll\<close> are an argument; setting up the consumer is not modelled.
\<close>

datatype poll = No_Message | Consumer_Error | No_Payload | Payload u64

record collector =
  coverage_map :: "u8 list"
  old_cov_count :: nat
  printed :: "nat list"

definition collector_start :: collector where
  "collector_start = \<lparr>coverage_map = replicate MAP_SIZE 0, old_cov_count = 0, printed = []\<rparr>"

definition count_hit :: "u8 list \<Rightarrow> nat" where
  "count_hit m = length (filter (\<lambda>b. b \<noteq> 0) m)"

definition collect :: "poll \<Rightarrow> collector \<Rightarrow> collector option" where
  "collect p s =
     (case p of
        Payload v \<Rightarrow>
          do {
            let index = unat v mod MAP_SIZE;
            b \<leftarrow> get_byte index (coverage_map s);
            if b < 255 then do {
              m \<leftarrow> set_byte index (b + 1) (coverage_map s);
              let s = s\<lparr>coverage_map := m\<rparr>;
              let cov_count = to_u32 (count_hit m);
              Some (if old_cov_count s < cov_count
                    then s\<lparr>old_cov_count := cov_count, printed := printed s @ [cov_count]\<rparr> else s)
            }
            else Some s
          }
      | _ \<Rightarrow> Some s)"

section \<open>The counters saturate\<close>

definition cell_of :: "poll \<Rightarrow> nat option" where
  "cell_of p = (case p of Payload v \<Rightarrow> Some (unat v mod MAP_SIZE) | _ \<Rightarrow> None)"

definition events_at :: "poll list \<Rightarrow> nat \<Rightarrow> nat" where
  "events_at ps i = length (filter (\<lambda>p. cell_of p = Some i) ps)"

text \<open>
  The map holds the number of events of each cell, up to 255; the last number that was printed is
  the number of cells that were hit, and the numbers were printed in increasing order.
\<close>

definition collected :: "poll list \<Rightarrow> collector \<Rightarrow> bool" where
  "collected ps s \<longleftrightarrow> length (coverage_map s) = MAP_SIZE \<and>
     (\<forall>i < MAP_SIZE. unat (coverage_map s ! i) = min 255 (events_at ps i)) \<and>
     old_cov_count s = count_hit (coverage_map s) \<and> sorted_wrt (<) (0 # printed s) \<and>
     last (0 # printed s) = old_cov_count s"

lemma MAP_SIZE_pos: "0 < MAP_SIZE" "MAP_SIZE < 2 ^ 32"
  by (simp_all add: MAP_SIZE_def)

lemma u8_less: "unat (b :: u8) < 256"
  using unsigned_less [of b] by simp

lemma events_at_snoc: "events_at (ps @ [p]) i = events_at ps i + of_bool (cell_of p = Some i)"
  by (simp add: events_at_def)

lemma count_hit_update:
  assumes "i < length m" and "b \<noteq> 0"
  shows "count_hit (m[i := b]) = count_hit m + of_bool (m ! i = 0)"
proof -
  have m: "m = take i m @ m ! i # drop (Suc i) m" using assms(1) by (simp add: id_take_nth_drop)
  have "m[i := b] = take i m @ b # drop (Suc i) m" using assms(1) by (simp add: upd_conv_take_nth_drop)
  then have "count_hit (m[i := b]) = count_hit (take i m) + 1 + count_hit (drop (Suc i) m)"
    using assms(2) by (simp add: count_hit_def)
  moreover have "count_hit m = count_hit (take i m) + of_bool (m ! i \<noteq> 0) + count_hit (drop (Suc i) m)"
    by (subst m) (simp add: count_hit_def)
  ultimately show ?thesis by simp
qed

lemma count_hit_le: "count_hit m \<le> length m"
  by (simp add: count_hit_def)

lemma sorted_snoc:
  assumes "sorted_wrt (<) (0 # ns)" and "last (0 # ns) < (n :: nat)"
  shows "sorted_wrt (<) (0 # ns @ [n])"
proof (cases ns rule: rev_cases)
  case (snoc ms l)
  then show ?thesis using assms by (force simp: sorted_wrt_append)
qed (use assms in simp)

lemma collect_collected:
  assumes "collected ps s"
  shows "\<exists>s'. collect p s = Some s' \<and> collected (ps @ [p]) s'"
proof (cases p)
  case (Payload v)
  let ?i = "unat v mod MAP_SIZE" and ?m = "coverage_map s"
  have len: "length ?m = MAP_SIZE" and i: "?i < MAP_SIZE" using assms MAP_SIZE_pos by (simp_all add: collected_def)
  have ev: "events_at (ps @ [p]) j = events_at ps j + of_bool (j = ?i)" for j by (auto simp: events_at_snoc Payload cell_of_def)
  have val: "unat (?m ! j) = min 255 (events_at ps j)" if "j < MAP_SIZE" for j using assms that by (simp add: collected_def)
  show ?thesis
  proof (cases "?m ! ?i < 255")
    case False
    then have "unat (?m ! ?i) = 255" using u8_less [of "?m ! ?i"] by (simp add: word_less_nat_alt)
    then have "255 \<le> events_at ps ?i" using val [OF i] by simp
    then have "\<forall>j < MAP_SIZE. unat (?m ! j) = min 255 (events_at (ps @ [p]) j)" using val by (auto simp: ev)
    then have "collected (ps @ [p]) s" using assms by (simp add: collected_def)
    then show ?thesis using False i len by (simp add: collect_def Payload get_byte_def Let_def)
  next
    case True
    let ?m' = "?m[?i := ?m ! ?i + 1]"
    have lt: "unat (?m ! ?i) < 255" using True by (simp add: word_less_nat_alt)
    then have inc: "unat (?m ! ?i + 1) = unat (?m ! ?i) + 1" by (simp add: unat_word_ariths)
    then have ne: "?m ! ?i + 1 \<noteq> 0" by (metis add_is_0 one_neq_zero unat_0)
    have "unat (?m' ! j) = min 255 (events_at (ps @ [p]) j)" if "j < MAP_SIZE" for j
      using val [OF that] val [OF i] lt inc len that by (auto simp: nth_list_update ev)
    moreover have cnt: "to_u32 (count_hit ?m') = count_hit ?m + of_bool (?m ! ?i = 0)"
      using count_hit_update [OF _ ne, of ?i ?m] count_hit_le [of ?m'] len i MAP_SIZE_pos(2) by simp
    moreover have "sorted_wrt (<) (0 # printed s)" "last (0 # printed s) = count_hit ?m" "old_cov_count s = count_hit ?m"
      using assms by (simp_all add: collected_def)
    moreover from this have "count_hit ?m < count_hit ?m + 1 \<Longrightarrow> sorted_wrt (<) (0 # printed s @ [count_hit ?m + 1])"
      by (intro sorted_snoc) simp_all
    ultimately show ?thesis
      using True len i count_hit_update [OF _ ne, of ?i ?m]
      by (auto simp: collect_def Payload get_byte_def set_byte_def Let_def collected_def)
  qed
qed (use assms in \<open>auto simp: collect_def collected_def events_at_snoc cell_of_def\<close>)

lemma collector_counts: "\<exists>s. foldM collect ps collector_start = Some s \<and> collected ps s"
proof (induction ps rule: rev_induct)
  case Nil
  have "count_hit (replicate n 0) = 0" for n by (simp add: count_hit_def)
  then show ?case by (simp add: collected_def collector_start_def events_at_def)
next
  case (snoc p ps)
  then show ?case using collect_collected [of ps _ p] by (fastforce simp: foldM_append)
qed

end
