(* ===== verification/Spec2Isabelle.thy ===== *)
theory Spec2Isabelle
  imports Trim Main_Loop Strace_Tamper Rr_Fuzz Bpf_Fault Fuzzer_Init Test_Main Coverage_Collector
begin

text \<open>
  DistFuzz tests distributed systems by fuzzing the decisions a test driver, its fault
  injectors and its schedulers take.

  (header to be completed)
\<close>

section \<open>From the injectors to the fuzzer\<close>

text \<open>
  A map \<open>m\<close> reports a run of \<open>n\<close> system calls to a fuzzer with the virgin map \<open>virgin\<close>: apart
  from the first cell it is an exact histogram of at most \<open>n\<close> events, and an event in a cell that the
  fuzzer has not seen makes the test case interesting.
\<close>

definition reports :: "u8 list \<Rightarrow> nat \<Rightarrow> u8 list \<Rightarrow> bool" where
  "reports m n virgin \<longleftrightarrow> (\<exists>c. sum c {0<..<length m} \<le> n \<and>
     (\<forall>i. 0 < i \<longrightarrow> i < length m \<longrightarrow> unat (m ! i) = c i \<and>
        (0 < c i \<longrightarrow> virgin ! i = 0xff \<longrightarrow> fst (has_new_bits m virgin) = 2)))"

lemma fresh_byte_is_new:
  assumes "length m = MAP_SIZE" and "length virgin = MAP_SIZE" and "i < length m" and "m ! i \<noteq> 0" and "virgin ! i = 0xff"
  shows "fst (has_new_bits m virgin) = 2"
proof -
  have "8 dvd length m" by (simp add: assms(1) MAP_SIZE_def)
  then show ?thesis using assms by (auto simp: has_new_bits_bytewise novelty_2_iff)
qed

context event_recorder
begin

lemma fresh_run_reports:
  assumes run: "foldM step xs s = Some s'" and "ready s" and fresh: "coverage s = replicate MAP_SIZE 0"
    and "length xs < 256" and "length virgin = MAP_SIZE"
  shows "reports (coverage s') (length xs) virgin"
proof -
  have size: "length (coverage s) = MAP_SIZE" by (simp add: fresh)
  obtain c where len: "length (coverage s') = MAP_SIZE" and c: "sum c {0<..<MAP_SIZE} \<le> length xs"
    "\<And>i. 0 < i \<Longrightarrow> i < MAP_SIZE \<Longrightarrow> coverage s' ! i = of_nat (c i)"
    using run_histogram [OF run assms(2)] by (auto simp: size fresh)
  have cell: "unat (coverage s' ! i) = c i" if "0 < i" "i < MAP_SIZE" for i
  proof -
    have "c i \<le> sum c {0<..<MAP_SIZE}" using that by (intro member_le_sum) auto
    then show ?thesis using c that assms(4) by (simp add: unat_of_nat)
  qed
  have "fst (has_new_bits (coverage s') virgin) = 2" if "0 < i" "i < MAP_SIZE" "0 < c i" "virgin ! i = 0xff" for i
    using that cell [of i] len assms(5) by (intro fresh_byte_is_new [of _ _ i]) auto
  then show ?thesis unfolding reports_def len using c(1) cell by blast
qed

end


definition demo_fuzzer :: fuzzer where
  "demo_fuzzer = one_seed\<lparr>branchTraceBit := replicate MAP_SIZE 9, virginMapForBranchTraceBit := replicate MAP_SIZE 0xff\<rparr>"

lemma branch_reset: "branchTraceBit (reset_before_run F demo_fuzzer) = replicate MAP_SIZE 0"
  by (simp add: reset_before_run_def demo_fuzzer_def Let_def)

text \<open>A \<open>write\<close> of ten bytes to a socket: \<open>strace\<close> repeats it, \<open>rr\<close> lets it fail.\<close>

definition demo_write :: tcb where
  "demo_write = entered demo_tcb"

definition demo_ready :: tracer where
  "demo_ready = demo_tracer\<lparr>tracer.fuzz_coverage_map := replicate MAP_SIZE 0, is_dst_fuzz := True\<rparr>"

lemma demo_ready_step: "\<exists>s'. strace_step Strace_Tamper.demo_env (True, demo_write) demo_ready = Some s'"
proof -
  have arg: "3 \<le> u_arg demo_write 0" "scno demo_write = 1"
    by (simp_all add: demo_write_def entered_def syscall_entering_decode_def demo_tcb_def demo_regs_def Let_def)
  have "\<exists>s'. Strace_Fuzz.handle_random_event Strace_Tamper.demo_env True True (Strace_Fuzz.syscall_length Strace_Tamper.demo_env ByCount demo_write)
      (error_codes_for True) demo_write demo_ready = Some (demo_write\<lparr>inject_vec := Some new_opts\<rparr>, s')"
    using demo_handle [of demo_ready demo_write] arg(1)
    by (auto simp: demo_ready_def demo_tracer_def MAP_SIZE_def Strace_Fuzz.FUZZ_COVERAGE_MAP_SIZE_def)
  then show ?thesis
    by (auto simp: strace_step_def dst_fuzz_syscall_enter_def fuzzed_syscall_def arg(2) demo_ready_def)
qed


section \<open>From the fuzzer to the injectors\<close>

text \<open>
  The environment of a node: the fuzzer starts the driver, the driver starts the node, and the node manager
  adds its own variables.
\<close>

definition inherited :: "(string \<Rightarrow> string option) \<Rightarrow> (string \<times> string) list \<Rightarrow> string \<Rightarrow> string option" where
  "inherited base own name = (case map_of own name of None \<Rightarrow> base name | Some v \<Rightarrow> Some v)"

lemma node_environment:
  "inherited base (child_env (new_child N m ni)) ''DST_FUZZ'' = Some ''1''"
  "inherited base (child_env (new_child N m ni)) ''AFLCplusplus_BRANCH_TRACE_SHM_ID'' = base ''AFLCplusplus_BRANCH_TRACE_SHM_ID''"
  "inherited base (child_env (new_child N m ni)) ''AFLCplusplus_VARIABLE_COUNT_SHMD_ID'' = base ''AFLCplusplus_VARIABLE_COUNT_SHMD_ID''"
  by (simp_all add: inherited_def new_child_def node_env_def Let_def)

text \<open>
  C2: The injectors find the map of the fuzzer.  The fuzzer creates its shared memory, and later, when the
  segments hold whatever the fuzzer has written into them, the driver starts a node under \<open>strace\<close> or
  \<open>rr\<close>: the injector attaches the segment of the branch map, which has the size that the injector indexes,
  and is ready to count events.
\<close>

theorem injectors_attach_branch_map:
  assumes "inj ids" and "\<forall>k. 0 \<le> sint (ids k)" and "ShmSetup ids b w = Some w'"
    and "\<forall>i m. shm_table w' i = Some m \<longrightarrow> (\<exists>m'. mem i = Some m' \<and> length m' = length m)"
    and "strace_env.getenv E = inherited (shm_environ w') (child_env (new_child N m ni))" and "strace_env.shm_map E = mem"
    and "\<forall>i. mem i \<noteq> None \<longrightarrow> shm_index E i \<noteq> None"
    and "rr_env.getenv R = inherited (shm_environ w') (child_env (new_child N m ni))" and "rr_env.shm_map R = mem"
  shows "\<exists>i s' r'. shm_environ w' ''AFLCplusplus_BRANCH_TRACE_SHM_ID'' = Some (to_string (unat i)) \<and>
    Strace_Fuzz.init_dst_fuzz E s = Some s' \<and> strace_ready s' \<and> mem i = Some (tracer.fuzz_coverage_map s') \<and>
    Rr_Fuzz.init_dst_fuzz R r = Some r' \<and> dst_fuzz_inited r' \<and> mem i = Some (recorder.fuzz_coverage_map r')"
proof -
  have branch: "(''AFLCplusplus_BRANCH_TRACE_SHM_ID'', MAP_SIZE) \<in> set (shm_areas b)"
    and count: "(''AFLCplusplus_VARIABLE_COUNT_SHMD_ID'', 8) \<in> set (shm_areas b)" by (simp_all add: shm_areas_def)
  obtain k where k: "shm_environ w' ''AFLCplusplus_BRANCH_TRACE_SHM_ID'' = Some (to_string (unat (ids k)))"
    "shm_table w' (ids k) = Some (replicate MAP_SIZE 0)" using ShmSetup_finds [OF assms(1-3) branch] by blast
  obtain j where j: "shm_environ w' ''AFLCplusplus_VARIABLE_COUNT_SHMD_ID'' = Some (to_string (unat (ids j)))"
    "shm_table w' (ids j) = Some (replicate 8 0)" using ShmSetup_finds [OF assms(1-3) count] by blast
  obtain bm where bm: "mem (ids k) = Some bm" "length bm = MAP_SIZE" using assms(4) k(2) by fastforce
  obtain gi where gi: "shm_index E (ids j) = Some gi" using assms(4,7) j(2) by fastforce
  have num: "atoi (to_string (unat i)) = i" for i :: u32 using atoi_to_string [of "unat i"] unsigned_less [of i] by simp
  have "Strace_Fuzz.init_dst_fuzz E s = Some (s\<lparr>tracer.fuzz_coverage_map := bm, global_index := gi, is_dst_fuzz := True\<rparr>)"
    using k j bm gi by (simp add: Strace_Fuzz.init_dst_fuzz_def assms(5,6) node_environment num)
  moreover have "Rr_Fuzz.init_dst_fuzz R r = Some (r\<lparr>recorder.fuzz_coverage_map := bm, dst_fuzz_inited := True\<rparr>)"
    using k bm by (simp add: Rr_Fuzz.init_dst_fuzz_def assms(8,9) node_environment num)
  ultimately show ?thesis
    using k(1) bm by (intro exI [of _ "ids k"]) (simp add: strace_ready_def Strace_Fuzz.FUZZ_COVERAGE_MAP_SIZE_def MAP_SIZE_def)
qed

end
